(* ===== verification/Prelude.thy ===== *)
theory Prelude
  imports Main "HOL-Library.Word" "HOL-Library.Multiset"
begin

text \<open>
  What the components share: the types of the program's data (\<open>std::string\<close> as a list of
  characters, \<open>std::vector<uint8_t>\<close> as a list of 8-bit words), the exceptions its code can
  raise, the conversions between characters and bytes, the reading of a NUL-terminated buffer,
  and the generic lemmas on lists and words the component proofs use.
\<close>

unbundle bit_operations_syntax

section \<open>Types\<close>

type_synonym byte = "8 word"
type_synonym u32 = "32 word"
type_synonym u64 = "64 word"

text \<open>
  An operation of the code that may throw returns \<open>exn + 'a\<close>. \<open>Undefined\<close> marks a path on which
  C++ gives the program no meaning (a read through an uninitialised pointer, an index out of an
  array), so that no property can rest on what happens there.
\<close>

datatype exn = Runtime_Error string | Undefined string

fun exn_bind :: "exn + 'a \<Rightarrow> ('a \<Rightarrow> exn + 'b) \<Rightarrow> exn + 'b" where
  "exn_bind (Inl e) f = Inl e"
| "exn_bind (Inr a) f = f a"

lemma exn_bind_Inr: "exn_bind m f = Inr b \<longleftrightarrow> (\<exists>a. m = Inr a \<and> f a = Inr b)"
  by (cases m) auto

lemma exn_bind_Inl: "exn_bind m f = Inl e \<longleftrightarrow> m = Inl e \<or> (\<exists>a. m = Inr a \<and> f a = Inl e)"
  by (cases m) auto

named_theorems code_defs \<open>unfoldings of the small definitions a component's proofs compute with\<close>

section \<open>Characters and bytes\<close>

definition byte_of_char :: "char \<Rightarrow> byte" where
  "byte_of_char c = word_of_nat (of_char c)"

definition char_of_byte :: "byte \<Rightarrow> char" where
  "char_of_byte w = char_of (unat w)"

definition bytes_of_string :: "string \<Rightarrow> byte list" where
  "bytes_of_string s = map byte_of_char s"

lemma char_of_byte_of_char [simp]: "char_of_byte (byte_of_char c) = c"
proof -
  have "of_char c < (256 :: nat)" by (rule nat_of_char_less_256)
  then have "unat (word_of_nat (of_char c) :: byte) = of_char c"
    by (simp add: unat_of_nat)
  then show ?thesis by (simp add: char_of_byte_def byte_of_char_def)
qed

lemma byte_of_char_of_byte [simp]: "byte_of_char (char_of_byte w) = w"
proof -
  have "unat w < 256" using unsigned_less [of w] by simp
  then show ?thesis by (simp add: char_of_byte_def byte_of_char_def)
qed

lemma byte_of_char_inject [simp]: "byte_of_char c = byte_of_char d \<longleftrightarrow> c = d"
  by (metis char_of_byte_of_char)

lemma char_of_byte_inject [simp]: "char_of_byte v = char_of_byte w \<longleftrightarrow> v = w"
  by (metis byte_of_char_of_byte)

lemma length_bytes_of_string [simp]: "length (bytes_of_string s) = length s"
  by (simp add: bytes_of_string_def)

lemma bytes_of_string_append [simp]:
  "bytes_of_string (s @ t) = bytes_of_string s @ bytes_of_string t"
  by (simp add: bytes_of_string_def)

section \<open>NUL-terminated buffers\<close>

text \<open>
  A C string in a buffer is read up to its first NUL. \<open>cstr\<close> is \<open>std::string((const char*)p)\<close>
  for a buffer that holds \<open>s\<close> and its terminator; \<open>peek\<close> is \<open>*p\<close> on the rest of such a buffer.
\<close>

definition NUL :: char where
  "NUL = CHR 0x00"

definition cstr :: "string \<Rightarrow> string" where
  "cstr s = takeWhile (\<lambda>c. c \<noteq> NUL) s"

fun peek :: "string \<Rightarrow> char" where
  "peek [] = NUL"
| "peek (c # cs) = c"

lemma cstr_id [simp]: "NUL \<notin> set s \<Longrightarrow> cstr s = s"
  by (auto simp: cstr_def takeWhile_eq_all_conv)

lemma NUL_notin_cstr [simp]: "NUL \<notin> set (cstr s)"
  by (auto simp: cstr_def dest: set_takeWhileD)

lemma cstr_idem [simp]: "cstr (cstr s) = cstr s"
  by simp

lemma set_cstr: "set (cstr s) \<subseteq> set s"
  by (auto simp: cstr_def dest: set_takeWhileD)

lemma cstr_Nil [simp]: "cstr [] = []"
  by (simp add: cstr_def)

lemma peek_append: "peek (s @ t) = (if s = [] then peek t else peek s)"
  by (cases s) auto

section \<open>Lists and words\<close>

lemma fold_upt_Suc: "i < n \<Longrightarrow> fold f [i..<n] a = fold f [Suc i..<n] (f i a)"
  by (simp add: upt_conv_Cons)

lemma nth_list_update_fold:
  "i < length xs \<Longrightarrow>
   fold (\<lambda>k d. d[k := c]) ks xs ! i = (if i \<in> set ks then c else xs ! i)"
  by (induction ks arbitrary: xs) (auto simp: nth_list_update)

lemma length_fold_update [simp]: "length (fold (\<lambda>k d. d[k := f k]) ks xs) = length xs"
  by (induction ks arbitrary: xs) auto

lemma fold_invariant_pres:
  "P a \<Longrightarrow> (\<And>x s. x \<in> set xs \<Longrightarrow> P s \<Longrightarrow> P (f x s)) \<Longrightarrow> P (fold f xs a)"
  by (induction xs arbitrary: a) auto

lemma unat_byte_less [simp]: "unat (w :: byte) < 256"
  using unsigned_less [of w] by simp

end
