(* ===== verification/Clib.thy ===== *)
theory Clib
  imports Prelude
begin

text \<open>
  The C and C++ library functions the program's own code calls on text: character classes in the C
  locale, \<open>std::string::find\<close>, decimal printing and the number parsers. Each is written from its
  documented behaviour, with the cases the callers distinguish (no digits, out of range) as values.
\<close>

section \<open>Characters\<close>

definition char_between :: "char \<Rightarrow> char \<Rightarrow> char \<Rightarrow> bool" where
  "char_between lo hi c \<longleftrightarrow> (of_char lo :: nat) \<le> of_char c \<and> (of_char c :: nat) \<le> of_char hi"

definition is_digit :: "char \<Rightarrow> bool" where
  "is_digit c = char_between (CHR ''0'') (CHR ''9'') c"

definition is_space :: "char \<Rightarrow> bool" where
  "is_space c \<longleftrightarrow> c = CHR '' '' \<or> char_between (CHR 0x09) (CHR 0x0D) c"

definition to_lower :: "char \<Rightarrow> char" where
  "to_lower c = (if char_between (CHR ''A'') (CHR ''Z'') c then char_of (of_char c + 32 :: nat) else c)"

definition to_upper :: "char \<Rightarrow> char" where
  "to_upper c = (if char_between (CHR ''a'') (CHR ''z'') c then char_of (of_char c - 32 :: nat) else c)"

section \<open>Integers of the machine\<close>

definition int_min32 :: int where "int_min32 = - (2 ^ 31)"
definition int_max32 :: int where "int_max32 = 2 ^ 31 - 1"
definition int_min64 :: int where "int_min64 = - (2 ^ 63)"
definition int_max64 :: int where "int_max64 = 2 ^ 63 - 1"

text \<open>\<open>static_cast<int>\<close> of a wider integer keeps the low 32 bits; \<open>/\<close> and \<open>%\<close> truncate towards zero.\<close>

definition to_int32 :: "int \<Rightarrow> int" where
  "to_int32 i = (i + 2 ^ 31) mod 2 ^ 32 - 2 ^ 31"

definition to_uint16 :: "int \<Rightarrow> int" where
  "to_uint16 i = i mod 2 ^ 16"

definition c_div :: "int \<Rightarrow> int \<Rightarrow> int" where
  "c_div a b = sgn a * sgn b * (\<bar>a\<bar> div \<bar>b\<bar>)"

definition c_mod :: "int \<Rightarrow> int \<Rightarrow> int" where
  "c_mod a b = a - c_div a b * b"

lemma to_int32_id [simp]: "int_min32 \<le> i \<Longrightarrow> i \<le> int_max32 \<Longrightarrow> to_int32 i = i"
  by (simp add: to_int32_def int_min32_def int_max32_def)

lemma to_int32_range: "int_min32 \<le> to_int32 i \<and> to_int32 i \<le> int_max32"
  by (simp add: to_int32_def int_min32_def int_max32_def)

lemma c_div_nonneg: "0 \<le> a \<Longrightarrow> 0 < b \<Longrightarrow> c_div a b = a div b"
  by (cases "a = 0") (auto simp: c_div_def)

lemma c_mod_nonneg: "0 \<le> a \<Longrightarrow> 0 < b \<Longrightarrow> c_mod a b = a mod b"
  by (simp add: c_mod_def c_div_nonneg minus_div_mult_eq_mod)

section \<open>Searching\<close>

text \<open>\<open>s.find(c, pos)\<close>: the least index from \<open>pos\<close> on that holds \<open>c\<close>.\<close>

definition find_char :: "char \<Rightarrow> nat \<Rightarrow> string \<Rightarrow> nat option" where
  "find_char c pos s =
     (let r = dropWhile (\<lambda>x. x \<noteq> c) (drop pos s)
      in if r = [] then None else Some (length s - length r))"

text \<open>\<open>s.substr(pos, n)\<close> for \<open>pos\<close> within the string.\<close>

definition substr :: "nat \<Rightarrow> nat \<Rightarrow> string \<Rightarrow> string" where
  "substr pos n s = take n (drop pos s)"

lemma find_char_None: "c \<notin> set s \<Longrightarrow> find_char c pos s = None"
  by (auto simp: find_char_def Let_def dropWhile_eq_Nil_conv dest: in_set_dropD)

lemma find_char_append:
  "c \<notin> set s \<Longrightarrow> find_char c (length p) (p @ s @ c # t) = Some (length p + length s)"
proof -
  assume "c \<notin> set s"
  then have "dropWhile (\<lambda>x. x \<noteq> c) s = []"
    by auto
  then show ?thesis by (simp add: find_char_def Let_def dropWhile_append3)
qed

lemma find_char_NoneD: "find_char c pos s = None \<Longrightarrow> c \<notin> set (drop pos s)"
  by (auto simp: find_char_def Let_def dropWhile_eq_Nil_conv split: if_splits)

lemma find_char_SomeD:
  assumes "find_char c pos s = Some i" and "pos \<le> length s"
  shows "pos \<le> i \<and> i < length s \<and> c \<notin> set (take (i - pos) (drop pos s)) \<and>
         drop pos s = take (i - pos) (drop pos s) @ c # drop (i + 1) s"
proof -
  define u where "u = drop pos s"
  define a where "a = takeWhile (\<lambda>x. x \<noteq> c) u"
  define r where "r = dropWhile (\<lambda>x. x \<noteq> c) u"
  have u: "u = a @ r" and a: "c \<notin> set a" by (auto simp: a_def r_def dest: set_takeWhileD)
  have r: "r \<noteq> []" and i: "i = length s - length r"
    using assms(1) by (auto simp: find_char_def u_def r_def Let_def split: if_splits)
  have hd: "hd r = c" using r hd_dropWhile [of "\<lambda>x. x \<noteq> c" u] by (simp add: r_def)
  have len: "length s = pos + length a + length r"
    using assms(2) arg_cong [OF u, of length] by (simp add: u_def)
  have ia: "i = pos + length a" using i len by simp
  have tl: "drop (i + 1) s = tl r"
  proof -
    have "drop (i + 1) s = drop (Suc (length a)) u" by (simp add: ia u_def add.commute)
    also have "\<dots> = tl r" by (simp add: u drop_Suc)
    finally show ?thesis .
  qed
  have "r = c # drop (i + 1) s" using r hd tl by (metis list.collapse)
  then have eq: "drop pos s = a @ c # drop (i + 1) s" using u unfolding u_def by simp
  have tk: "take (i - pos) (drop pos s) = a" by (simp add: eq ia)
  have "0 < length r" using r by simp
  then have "pos \<le> i \<and> i < length s" using ia len by linarith
  then show ?thesis unfolding tk using a eq by blast
qed

section \<open>Decimal text\<close>

definition digit_char :: "nat \<Rightarrow> char" where
  "digit_char d = char_of (48 + d)"

fun nat_string :: "nat \<Rightarrow> string" where
  "nat_string n = (if n < 10 then [digit_char n] else nat_string (n div 10) @ [digit_char (n mod 10)])"

declare nat_string.simps [simp del]

text \<open>\<open>std::to_string\<close>.\<close>

definition to_string :: "int \<Rightarrow> string" where
  "to_string i = (if i < 0 then CHR ''-'' # nat_string (nat (- i)) else nat_string (nat i))"

text \<open>The value of a digit in bases up to 16; \<open>None\<close> for any other character.\<close>

definition digit_value :: "char \<Rightarrow> nat option" where
  "digit_value c =
     (if is_digit c then Some (of_char c - 48)
      else if char_between (CHR ''a'') (CHR ''f'') c then Some (of_char c - 87)
      else if char_between (CHR ''A'') (CHR ''F'') c then Some (of_char c - 55)
      else None)"

definition is_digit_base :: "nat \<Rightarrow> char \<Rightarrow> bool" where
  "is_digit_base base c = (case digit_value c of None \<Rightarrow> False | Some d \<Rightarrow> d < base)"

definition digits_value :: "nat \<Rightarrow> string \<Rightarrow> int" where
  "digits_value base ds =
     fold (\<lambda>c n. n * int base + (case digit_value c of None \<Rightarrow> 0 | Some d \<Rightarrow> int d)) ds 0"

text \<open>Leading white space, then an optional sign.\<close>

definition skip_sign :: "string \<Rightarrow> bool \<times> string" where
  "skip_sign s =
     (case dropWhile is_space s of
        c # r \<Rightarrow> if c = CHR ''-'' then (True, r) else if c = CHR ''+'' then (False, r) else (False, c # r)
      | [] \<Rightarrow> (False, []))"

text \<open>\<open>std::stoll\<close>: \<open>None\<close> where it throws, for want of a digit or out of the 64-bit range.\<close>

definition stoll :: "string \<Rightarrow> int option" where
  "stoll s =
     (let (neg, r) = skip_sign s;
          ds = takeWhile (is_digit_base 10) r;
          v = (if neg then - digits_value 10 ds else digits_value 10 ds)
      in if ds = [] then None
         else if v < int_min64 \<or> int_max64 < v then None else Some v)"

text \<open>
  \<open>strtol(s, &end, 0)\<close>: the base from the prefix, saturation at the ends of \<open>long\<close>; \<open>None\<close> when
  nothing was converted, so that \<open>end == s\<close>.
\<close>

definition strtol_base0 :: "string \<Rightarrow> int option" where
  "strtol_base0 s =
     (let (neg, r) = skip_sign s;
          (base, body) =
            (case r of
               z # x # h # _ \<Rightarrow>
                 if z = CHR ''0'' \<and> (x = CHR ''x'' \<or> x = CHR ''X'') \<and> is_digit_base 16 h
                 then (16, drop 2 r)
                 else if z = CHR ''0'' then (8, r) else (10, r)
             | z # _ \<Rightarrow> if z = CHR ''0'' then (8, r) else (10, r)
             | [] \<Rightarrow> (10, r));
          ds = takeWhile (is_digit_base base) body;
          v = (if neg then - digits_value base ds else digits_value base ds)
      in if ds = [] then None else Some (max int_min64 (min int_max64 v)))"

section \<open>Printing and parsing agree\<close>

lemma of_char_digit_char: "d < 10 \<Longrightarrow> of_char (digit_char d) = 48 + d"
  by (simp add: digit_char_def)

lemma is_digit_digit_char: "d < 10 \<Longrightarrow> is_digit (digit_char d)"
  by (simp add: is_digit_def char_between_def of_char_digit_char)

lemma digit_value_digit_char: "d < 10 \<Longrightarrow> digit_value (digit_char d) = Some d"
  by (simp add: digit_value_def is_digit_digit_char of_char_digit_char)

lemma is_digit_base10: "is_digit_base 10 c = is_digit c"
  by (auto simp: is_digit_base_def digit_value_def is_digit_def char_between_def split: option.splits if_splits)

lemma nat_string_digits: "\<forall>c \<in> set (nat_string n). is_digit c"
proof (induction n rule: nat_string.induct)
  case (1 n)
  then show ?case
    by (subst nat_string.simps) (auto simp: is_digit_digit_char)
qed

lemma nat_string_nonempty [simp]: "nat_string n \<noteq> []"
  by (subst nat_string.simps) simp

lemma digits_value_append:
  "digits_value b (xs @ [c]) = digits_value b xs * int b + (case digit_value c of None \<Rightarrow> 0 | Some d \<Rightarrow> int d)"
  by (simp add: digits_value_def)

lemma digits_value_nat_string: "digits_value 10 (nat_string n) = int n"
proof (induction n rule: nat_string.induct)
  case (1 n)
  show ?case
  proof (cases "n < 10")
    case True
    then show ?thesis
      by (subst nat_string.simps) (simp add: digits_value_def digit_value_digit_char)
  next
    case False
    with 1 have "digits_value 10 (nat_string (n div 10)) = int (n div 10)" by simp
    with False show ?thesis
      by (subst nat_string.simps) (simp add: digits_value_append digit_value_digit_char zdiv_int zmod_int)
  qed
qed

lemma digit_not_sign: "is_digit c \<Longrightarrow> \<not> is_space c \<and> c \<noteq> CHR ''-'' \<and> c \<noteq> CHR ''+'' \<and> c \<noteq> CHR '':'' \<and> c \<noteq> NUL"
  by (auto simp: is_digit_def is_space_def char_between_def NUL_def)

lemma skip_sign_nat_string: "skip_sign (nat_string n) = (False, nat_string n)"
proof -
  obtain c r where s: "nat_string n = c # r" by (cases "nat_string n") auto
  then have "is_digit c" using nat_string_digits [of n] by simp
  then show ?thesis using digit_not_sign [of c] by (simp add: skip_sign_def s)
qed

lemma takeWhile_nat_string: "takeWhile (is_digit_base 10) (nat_string n) = nat_string n"
  using nat_string_digits [of n] by (simp add: takeWhile_eq_all_conv is_digit_base10)

lemma stoll_to_string:
  assumes "int_min64 \<le> i" and "i \<le> int_max64"
  shows "stoll (to_string i) = Some i"
proof (cases "i < 0")
  case True
  have "skip_sign (to_string i) = (True, nat_string (nat (- i)))"
    using True by (simp add: to_string_def skip_sign_def is_space_def char_between_def)
  with True assms show ?thesis
    by (simp add: stoll_def takeWhile_nat_string digits_value_nat_string)
next
  case False
  with assms show ?thesis
    by (simp add: stoll_def to_string_def skip_sign_nat_string takeWhile_nat_string digits_value_nat_string)
qed

lemma to_string_chars: "c \<in> set (to_string i) \<Longrightarrow> is_digit c \<or> c = CHR ''-''"
  using nat_string_digits by (auto simp: to_string_def split: if_splits)

lemma to_string_no_colon [simp]: "CHR '':'' \<notin> set (to_string i)"
  using to_string_chars [of "CHR '':''" i] by (auto simp: is_digit_def char_between_def)

lemma NUL_notin_to_string [simp]: "NUL \<notin> set (to_string i)"
  using to_string_chars [of NUL i] by (auto simp: is_digit_def char_between_def NUL_def)

lemma to_string_nonempty [simp]: "to_string i \<noteq> []"
  by (simp add: to_string_def)

text \<open>
  \<open>stream >> res\<close> for an \<open>int64_t\<close>: the longest decimal prefix, clamped to the type's range, and 0
  where there is none. On a stream with nothing but white space \<open>res\<close> is left as it was, and it was
  never initialised.
\<close>

definition clamp64 :: "int \<Rightarrow> int" where
  "clamp64 i = max int_min64 (min int_max64 i)"

definition lexical_cast_int64 :: "string \<Rightarrow> exn + int" where
  "lexical_cast_int64 s =
     (if dropWhile is_space s = [] then Inl (Undefined ''res'')
      else let (neg, u) = skip_sign s; d = digits_value 10 (takeWhile is_digit u)
           in Inr (clamp64 (if neg then - d else d)))"

lemma lexical_cast_to_string: "lexical_cast_int64 (to_string i) = Inr (clamp64 i)"
proof -
  obtain c cs where c: "to_string i = c # cs" by (cases "to_string i") auto
  then have "\<not> is_space c"
    using to_string_chars [of c i] digit_not_sign [of c] by (auto simp: is_space_def char_between_def)
  then have sp: "dropWhile is_space (to_string i) \<noteq> []" by (simp add: c)
  have tw: "takeWhile is_digit (nat_string n) = nat_string n" for n
    using nat_string_digits [of n] by (simp add: takeWhile_eq_all_conv)
  show ?thesis
  proof (cases "i < 0")
    case True
    have "skip_sign (to_string i) = (True, nat_string (nat (- i)))"
      using True by (simp add: to_string_def skip_sign_def is_space_def char_between_def)
    then show ?thesis using True sp by (simp add: lexical_cast_int64_def tw digits_value_nat_string)
  next
    case False
    then show ?thesis
      using sp by (simp add: lexical_cast_int64_def to_string_def skip_sign_nat_string tw digits_value_nat_string)
  qed
qed

lemma clamp64_id [simp]: "int_min64 \<le> i \<Longrightarrow> i \<le> int_max64 \<Longrightarrow> clamp64 i = i"
  by (simp add: clamp64_def)

end
