(* ===== verification/Json_Read.thy ===== *)
theory Json_Read
  imports Clib
begin

text \<open>
  src/src/crowlib/crow/json.h, the reading half: the recursive descent parser (\<open>load\<close>,
  \<open>load_nocopy_internal\<close> and its \<open>Parser\<close>) and the accessors of \<open>rvalue\<close>. The parser works on the
  rest of a NUL-terminated buffer; the bytes it overwrites are behind its cursor, so a position is
  the remaining string. A value whose error bit is set is \<open>None\<close>.
\<close>

unbundle bit_operations_syntax

section \<open>Values\<close>

text \<open>
  A number keeps its text, a string its raw text and the flag \<open>has_escaping\<close> that the parser stores
  in the byte before it. An element of an object carries its key.
\<close>

datatype rvalue =
    RNull
  | RFalse
  | RTrue
  | RNumber string
  | RString string bool
  | RList "rvalue list"
  | RObject "(string \<times> rvalue) list"

datatype json_type = Null | False_type | True_type | Number | String | List | Object | Function_type

definition get_type_str :: "json_type \<Rightarrow> string" where
  "get_type_str t =
     (case t of Number \<Rightarrow> ''Number'' | False_type \<Rightarrow> ''False'' | True_type \<Rightarrow> ''True''
      | List \<Rightarrow> ''List'' | String \<Rightarrow> ''String'' | Object \<Rightarrow> ''Object''
      | Function_type \<Rightarrow> ''Function'' | Null \<Rightarrow> ''Unknown'')"

section \<open>Tokens\<close>

definition consume :: "char \<Rightarrow> string \<Rightarrow> string option" where
  "consume c s = (if peek s \<noteq> c then None else Some (tl s))"

definition json_ws :: "char \<Rightarrow> bool" where
  "json_ws c \<longleftrightarrow> c = CHR '' '' \<or> c = CHR 0x09 \<or> c = CHR 0x0D \<or> c = CHR 0x0A"

definition ws_skip :: "string \<Rightarrow> string" where
  "ws_skip s = dropWhile json_ws s"

definition hex_check :: "char \<Rightarrow> bool" where
  "hex_check c \<longleftrightarrow> char_between (CHR ''0'') (CHR ''9'') c \<or> char_between (CHR ''a'') (CHR ''f'') c
     \<or> char_between (CHR ''A'') (CHR ''F'') c"

definition simple_escape :: "char \<Rightarrow> bool" where
  "simple_escape c \<longleftrightarrow> c \<in> set [CHR 0x22, CHR 0x5C, CHR ''/'', CHR ''b'', CHR ''f'', CHR ''n'', CHR ''r'', CHR ''t'']"

text \<open>The loop of \<open>decode_string\<close> after the opening quote; \<open>acc\<close> is what lies between \<open>start\<close> and \<open>data\<close>.\<close>

function string_loop :: "string \<Rightarrow> bool \<Rightarrow> string \<Rightarrow> (rvalue \<times> string) option" where
  "string_loop acc has_escaping s =
     (let c = peek s
      in if c \<noteq> CHR 0x22 \<and> c \<noteq> CHR 0x5C \<and> c \<noteq> NUL then string_loop (acc @ [c]) has_escaping (tl s)
         else if c = CHR 0x22 then Some (RString acc has_escaping, tl s)
         else if c = CHR 0x5C then
           (let d = peek (tl s)
            in if d = CHR ''u''
               then if hex_check (peek (drop 2 s)) \<and> hex_check (peek (drop 3 s))
                     \<and> hex_check (peek (drop 4 s)) \<and> hex_check (peek (drop 5 s))
                    then string_loop (acc @ take 6 s) True (drop 6 s)
                    else None
               else if simple_escape d then string_loop (acc @ [c, d]) True (drop 2 s)
               else None)
         else None)"
  by pat_completeness auto

lemma peek_nonempty: "peek s \<noteq> NUL \<Longrightarrow> s \<noteq> []"
  by auto

termination string_loop
  by (relation "measure (\<lambda>(acc, e, s). length s)") (auto simp: NUL_def dest: peek_nonempty intro!: diff_less)

declare string_loop.simps [simp del]

definition decode_string :: "string \<Rightarrow> (rvalue \<times> string) option" where
  "decode_string s = (case consume (CHR 0x22) s of None \<Rightarrow> None | Some r \<Rightarrow> string_loop [] False r)"

text \<open>The states of \<open>decode_number\<close>, in the order the transition strings of the code index.\<close>

datatype number_state =
  Minus | AfterMinus | ZeroFirst | Digits | DigitsAfterPoints | E | DigitsAfterE | Invalid

definition number_states :: "number_state list" where
  "number_states = [Minus, AfterMinus, ZeroFirst, Digits, DigitsAfterPoints, E, DigitsAfterE, Invalid]"

fun state_index :: "number_state \<Rightarrow> nat" where
  "state_index Minus = 0"
| "state_index AfterMinus = 1"
| "state_index ZeroFirst = 2"
| "state_index Digits = 3"
| "state_index DigitsAfterPoints = 4"
| "state_index E = 5"
| "state_index DigitsAfterE = 6"
| "state_index Invalid = 7"

definition transit :: "nat list \<Rightarrow> number_state \<Rightarrow> number_state" where
  "transit table st = number_states ! (table ! state_index st)"

definition accepting :: "number_state \<Rightarrow> bool" where
  "accepting st \<longleftrightarrow> st = ZeroFirst \<or> st = Digits \<or> st = DigitsAfterPoints \<or> st = DigitsAfterE"

text \<open>One turn of the \<open>switch\<close>: the new state, the text consumed and the rest; \<open>None\<close> is \<open>default\<close>.\<close>

definition number_step :: "number_state \<Rightarrow> string \<Rightarrow> (number_state \<times> string \<times> string) option" where
  "number_step st s =
     (let c = peek s
      in if c = CHR ''0'' then Some (transit [2,2,7,3,4,6,6] st, [c], tl s)
         else if char_between (CHR ''1'') (CHR ''9'') c
         then Some (transit [3,3,7,3,4,6,6] st, c # takeWhile is_digit (tl s), dropWhile is_digit (tl s))
         else if c = CHR ''.'' then Some (transit [7,7,4,4,7,7,7] st, [c], tl s)
         else if c = CHR ''-'' then Some (transit [1,7,7,7,7,6,7] st, [c], tl s)
         else if c = CHR ''+'' then Some (transit [7,7,7,7,7,6,7] st, [c], tl s)
         else if c = CHR ''e'' \<or> c = CHR ''E'' then Some (transit [7,7,7,5,5,7,7] st, [c], tl s)
         else None)"

lemma number_step_shorter: "number_step st s = Some (st', t, r) \<Longrightarrow> s = t @ r \<and> t \<noteq> []"
  by (cases s)
    (auto simp: number_step_def Let_def NUL_def char_between_def split: if_splits)

function number_loop :: "number_state \<Rightarrow> string \<Rightarrow> string \<Rightarrow> (rvalue \<times> string) option" where
  "number_loop st acc s =
     (if st = Invalid then None
      else case number_step st s of
          None \<Rightarrow> if accepting st then Some (RNumber acc, s) else None
        | Some (st', t, r) \<Rightarrow> number_loop st' (acc @ t) r)"
  by pat_completeness auto
termination
  by (relation "measure (\<lambda>(st, acc, s). length s)") (auto dest!: number_step_shorter)

declare number_loop.simps [simp del]

definition decode_number :: "string \<Rightarrow> (rvalue \<times> string) option" where
  "decode_number s = number_loop Minus [] s"

section \<open>The parser\<close>

definition max_depth :: nat where "max_depth = 10000"

text \<open>
  \<open>t.s()\<close> on a key: the raw text with its escapes replaced. The loop reads past the string when it
  ends in a backslash (\<open>None\<close>), which the parser never stores.
\<close>

definition from_hex :: "char \<Rightarrow> u32" where
  "from_hex c =
     (let v = word_of_nat (of_char c)
      in if of_char (CHR ''a'') \<le> (of_char c :: nat) then v - word_of_nat (of_char (CHR ''a'')) + 10
         else if of_char (CHR ''A'') \<le> (of_char c :: nat) then v - word_of_nat (of_char (CHR ''A'')) + 10
         else v - word_of_nat (of_char (CHR ''0'')))"

definition low_char :: "u32 \<Rightarrow> char" where
  "low_char w = char_of_byte (ucast w)"

definition utf8_code :: "u32 \<Rightarrow> string" where
  "utf8_code code =
     (if 0x800 \<le> code
      then [low_char (0xE0 OR drop_bit 12 code), low_char (0x80 OR (drop_bit 6 code AND 0x3F)),
            low_char (0x80 OR (code AND 0x3F))]
      else if 0x80 \<le> code
      then [low_char (0xC0 OR drop_bit 6 code), low_char (0x80 OR (code AND 0x3F))]
      else [low_char code])"

definition unescape_char :: "char \<Rightarrow> string" where
  "unescape_char c =
     (if c = CHR 0x22 then [CHR 0x22] else if c = CHR 0x5C then [CHR 0x5C] else if c = CHR ''/'' then ''/''
      else if c = CHR ''b'' then [CHR 0x08] else if c = CHR ''f'' then [CHR 0x0C]
      else if c = CHR ''n'' then [CHR 0x0A] else if c = CHR ''r'' then [CHR 0x0D]
      else if c = CHR ''t'' then [CHR 0x09] else [])"

fun unescape :: "string \<Rightarrow> string option" where
  "unescape [] = Some []"
| "unescape (c # cs) =
     (if c = CHR 0x5C
      then case cs of
          [] \<Rightarrow> None
        | d # ds \<Rightarrow>
            if d = CHR ''u''
            then (case ds of
                h1 # h2 # h3 # h4 # hs \<Rightarrow>
                  let code = push_bit 12 (from_hex h1) + push_bit 8 (from_hex h2)
                        + push_bit 4 (from_hex h3) + from_hex h4
                  in map_option (\<lambda>t. utf8_code code @ t) (unescape hs)
              | _ \<Rightarrow> None)
            else map_option (\<lambda>t. unescape_char d @ t) (unescape ds)
      else map_option (\<lambda>t. c # t) (unescape cs))"

definition string_text :: "string \<Rightarrow> bool \<Rightarrow> string option" where
  "string_text raw has_escaping = (if has_escaping then unescape raw else Some raw)"

text \<open>The branches of \<open>decode_value\<close> that do not nest.\<close>

definition decode_literal :: "string \<Rightarrow> rvalue \<Rightarrow> string \<Rightarrow> (rvalue \<times> string) option" where
  "decode_literal w v s = (if take (length w) s = w then Some (v, drop (length w) s) else None)"

definition decode_scalar :: "string \<Rightarrow> (rvalue \<times> string) option" where
  "decode_scalar s =
     (if peek s = CHR 0x22 then decode_string s
      else if peek s = CHR ''t'' then decode_literal ''true'' RTrue s
      else if peek s = CHR ''f'' then decode_literal ''false'' RFalse s
      else if peek s = CHR ''n'' then decode_literal ''null'' RNull s
      else decode_number s)"

text \<open>
  \<open>decode_value\<close>, \<open>decode_list\<close> and \<open>decode_object\<close> with the loops of the latter two. \<open>depth\<close> grows
  by two per level of nesting, as the code adds one at each of the two calls.
\<close>

function (sequential)
  decode_value :: "nat \<Rightarrow> string \<Rightarrow> (rvalue \<times> string) option"
and decode_list :: "nat \<Rightarrow> string \<Rightarrow> (rvalue \<times> string) option"
and list_loop :: "nat \<Rightarrow> string \<Rightarrow> (rvalue list \<times> string) option"
and decode_object :: "nat \<Rightarrow> string \<Rightarrow> (rvalue \<times> string) option"
and object_loop :: "nat \<Rightarrow> string \<Rightarrow> ((string \<times> rvalue) list \<times> string) option"
where
  "decode_value depth s =
     (if peek s = CHR ''['' then decode_list (depth + 1) s
      else if peek s = CHR ''{'' then decode_object (depth + 1) s
      else decode_scalar s)"
| "decode_list depth s =
     (case consume (CHR ''['') s of
        None \<Rightarrow> None
      | Some r \<Rightarrow>
          if max_depth < depth then None
          else if peek (ws_skip r) = CHR '']'' then Some (RList [], tl (ws_skip r))
          else (case list_loop depth (ws_skip r) of
              None \<Rightarrow> None
            | Some (vs, t) \<Rightarrow> Some (RList vs, t)))"
| "list_loop depth s =
     (case decode_value (depth + 1) s of
        None \<Rightarrow> None
      | Some (v, r) \<Rightarrow>
          let r = ws_skip r
          in if peek r = CHR '']'' then Some ([v], tl r)
             else (case consume (CHR '','') r of
                 None \<Rightarrow> None
               | Some r \<Rightarrow>
                   (case list_loop depth (ws_skip r) of
                      None \<Rightarrow> None
                    | Some (vs, t) \<Rightarrow> Some (v # vs, t))))"
| "decode_object depth s =
     (case consume (CHR ''{'') s of
        None \<Rightarrow> None
      | Some r \<Rightarrow>
          if max_depth < depth then None
          else if peek (ws_skip r) = CHR ''}'' then Some (RObject [], tl (ws_skip r))
          else (case object_loop depth (ws_skip r) of
              None \<Rightarrow> None
            | Some (kvs, t) \<Rightarrow> Some (RObject kvs, t)))"
| "object_loop depth s =
     (case decode_string s of
        Some (RString raw esc, r) \<Rightarrow>
          (case consume (CHR '':'') (ws_skip r) of
             None \<Rightarrow> None
           | Some r \<Rightarrow>
               (case string_text raw esc of
                  None \<Rightarrow> None
                | Some key \<Rightarrow>
                    (case decode_value (depth + 1) (ws_skip r) of
                       None \<Rightarrow> None
                     | Some (v, r) \<Rightarrow>
                         let r = ws_skip r
                         in if peek r = CHR ''}'' then Some ([(key, v)], tl r)
                            else (case consume (CHR '','') r of
                                None \<Rightarrow> None
                              | Some r \<Rightarrow>
                                  (case object_loop depth (ws_skip r) of
                                     None \<Rightarrow> None
                                   | Some (kvs, t) \<Rightarrow> Some ((key, v) # kvs, t))))))
      | _ \<Rightarrow> None)"
  by pat_completeness auto

lemma consume_shorter: "consume c s = Some r \<Longrightarrow> c \<noteq> NUL \<Longrightarrow> s = c # r"
  by (cases s) (auto simp: consume_def split: if_splits)

lemma length_ws_skip: "length (ws_skip s) \<le> length s"
  by (simp add: ws_skip_def length_dropWhile_le)

lemma ws_skip_consume: "consume c s = Some r \<Longrightarrow> c \<noteq> NUL \<Longrightarrow> length (ws_skip r) < length s"
  using length_ws_skip [of r] by (auto dest!: consume_shorter)

lemma string_loop_shorter: "string_loop acc e s = Some (v, r) \<Longrightarrow> length r < length s"
proof (induction acc e s rule: string_loop.induct)
  case (1 acc e s)
  have pos: "peek s = c \<Longrightarrow> c \<noteq> NUL \<Longrightarrow> 0 < length s" for c by (cases s) auto
  let ?c = "peek s"
  note run = 1(4) [unfolded string_loop.simps [of acc e s] Let_def]
  consider "?c \<noteq> CHR 0x22 \<and> ?c \<noteq> CHR 0x5C \<and> ?c \<noteq> NUL" | "?c = CHR 0x22" | "?c = CHR 0x5C"
    using run by (auto split: if_splits)
  then show ?case
  proof cases
    case 1
    then have "length r < length (tl s)" using run "1.IH"(1) by simp
    then show ?thesis by simp
  next
    case 2
    then show ?thesis using run pos [of "CHR 0x22"] by (auto simp: NUL_def)
  next
    case 3
    show ?thesis
    proof (cases "peek (tl s) = CHR ''u''")
      case True
      then have "length r < length (drop 6 s)"
        using run "1.IH"(2) [OF refl _ _ _ refl] 3 by (simp add: NUL_def split: if_splits)
      then show ?thesis by simp
    next
      case False
      then have "length r < length (drop 2 s)"
        using run "1.IH"(3) [OF refl _ _ _ refl] 3 by (simp add: NUL_def split: if_splits)
      then show ?thesis by simp
    qed
  qed
qed

lemma decode_string_shorter: "decode_string s = Some (v, r) \<Longrightarrow> length r < length s"
  by (auto simp: decode_string_def NUL_def split: option.splits dest!: consume_shorter string_loop_shorter)

lemma number_loop_shorter:
  "number_loop st acc s = Some (v, r) \<Longrightarrow> length r \<le> length s \<and> (\<not> accepting st \<longrightarrow> length r < length s)"
proof (induction st acc s rule: number_loop.induct)
  case (1 st acc s)
  note run = 1(2) [unfolded number_loop.simps [of st acc s]]
  then have ne: "st \<noteq> Invalid" by (auto split: if_splits)
  show ?case
  proof (cases "number_step st s")
    case None
    then show ?thesis using run ne by (simp split: if_splits)
  next
    case (Some p)
    obtain st' t r' where p: "p = (st', t, r')" by (cases p)
    have "length r \<le> length r'" using "1.IH" [OF ne] Some p run ne by simp
    then show ?thesis using number_step_shorter [of st s] Some p by (cases t) auto
  qed
qed

lemma decode_number_shorter: "decode_number s = Some (v, r) \<Longrightarrow> length r < length s"
  using number_loop_shorter by (fastforce simp: decode_number_def accepting_def)

lemma decode_literal_shorter: "decode_literal w v0 s = Some (v, r) \<Longrightarrow> w \<noteq> [] \<Longrightarrow> length r < length s"
  by (cases s) (auto simp: decode_literal_def neq_Nil_conv split: if_splits)

lemma decode_scalar_shorter:
  assumes "decode_scalar s = Some (v, r)"
  shows "length r < length s"
proof -
  from assms consider "decode_string s = Some (v, r)" | "decode_number s = Some (v, r)"
    | "decode_literal ''true'' RTrue s = Some (v, r)" | "decode_literal ''false'' RFalse s = Some (v, r)"
    | "decode_literal ''null'' RNull s = Some (v, r)"
    unfolding decode_scalar_def by meson
  then show ?thesis
    by cases (auto dest: decode_string_shorter decode_number_shorter decode_literal_shorter)
qed

lemma decode_dom_shorter:
  "decode_value_decode_list_list_loop_decode_object_object_loop_dom (Inl (Inl (d, s))) \<Longrightarrow>
     \<forall>v r. decode_value d s = Some (v, r) \<longrightarrow> length r < length s"
  "decode_value_decode_list_list_loop_decode_object_object_loop_dom (Inl (Inr (d, s))) \<Longrightarrow>
     \<forall>v r. decode_list d s = Some (v, r) \<longrightarrow> length r < length s"
  "decode_value_decode_list_list_loop_decode_object_object_loop_dom (Inr (Inl (d, s))) \<Longrightarrow>
     \<forall>vs r. list_loop d s = Some (vs, r) \<longrightarrow> length r < length s"
  "decode_value_decode_list_list_loop_decode_object_object_loop_dom (Inr (Inr (Inl (d, s)))) \<Longrightarrow>
     \<forall>v r. decode_object d s = Some (v, r) \<longrightarrow> length r < length s"
  "decode_value_decode_list_list_loop_decode_object_object_loop_dom (Inr (Inr (Inr (d, s)))) \<Longrightarrow>
     \<forall>kvs r. object_loop d s = Some (kvs, r) \<longrightarrow> length r < length s"
proof (induction d s and d s and d s and d s and d s
    rule: decode_value_decode_list_list_loop_decode_object_object_loop.pinduct)
  case (1 depth s)
  show ?case
    using 1(2,3) by (auto simp: decode_value.psimps [OF 1(1)] dest: decode_scalar_shorter split: if_splits)
next
  case (2 depth s)
  have "length r < length s" if v: "decode_list depth s = Some (v, r)" for v r
  proof -
    obtain q where q: "consume (CHR ''['') s = Some q" "\<not> max_depth < depth"
      using v by (auto simp: decode_list.psimps [OF 2(1)] split: option.splits if_splits)
    have short: "length (ws_skip q) < length s" using ws_skip_consume [OF q(1)] by (simp add: NUL_def)
    show ?thesis
    proof (cases "peek (ws_skip q) = CHR '']''")
      case True
      then have "r = tl (ws_skip q)" using v q by (simp add: decode_list.psimps [OF 2(1)])
      then show ?thesis using short by simp
    next
      case False
      then obtain us where "list_loop depth (ws_skip q) = Some (us, r)"
        using v q by (auto simp: decode_list.psimps [OF 2(1)] split: option.splits)
      then have "length r < length (ws_skip q)" using 2(2) [OF q False] by blast
      then show ?thesis using short by simp
    qed
  qed
  then show ?case by blast
next
  case (3 depth s)
  have "length r < length s" if v: "list_loop depth s = Some (vs, r)" for vs r
  proof -
    obtain w t where w: "decode_value (depth + 1) s = Some (w, t)"
      using v by (auto simp: list_loop.psimps [OF 3(1)] split: option.splits)
    then have t: "length t < length s" using 3(2) by blast
    show ?thesis
    proof (cases "peek (ws_skip t) = CHR '']''")
      case True
      then show ?thesis using v w t length_ws_skip [of t] by (auto simp: list_loop.psimps [OF 3(1)])
    next
      case False
      then obtain u us where u: "consume (CHR '','') (ws_skip t) = Some u" "list_loop depth (ws_skip u) = Some (us, r)"
        using v w by (auto simp: list_loop.psimps [OF 3(1)] split: option.splits)
      then have "length r < length (ws_skip u)" using 3(3) [OF w refl refl False] by blast
      then show ?thesis
        using t length_ws_skip [of t] length_ws_skip [of u] consume_shorter [OF u(1)] by (simp add: NUL_def)
    qed
  qed
  then show ?case by blast
next
  case (4 depth s)
  have "length r < length s" if v: "decode_object depth s = Some (v, r)" for v r
  proof -
    obtain q where q: "consume (CHR ''{'') s = Some q" "\<not> max_depth < depth"
      using v by (auto simp: decode_object.psimps [OF 4(1)] split: option.splits if_splits)
    have short: "length (ws_skip q) < length s" using ws_skip_consume [OF q(1)] by (simp add: NUL_def)
    show ?thesis
    proof (cases "peek (ws_skip q) = CHR ''}''")
      case True
      then have "r = tl (ws_skip q)" using v q by (simp add: decode_object.psimps [OF 4(1)])
      then show ?thesis using short by simp
    next
      case False
      then obtain us where "object_loop depth (ws_skip q) = Some (us, r)"
        using v q by (auto simp: decode_object.psimps [OF 4(1)] split: option.splits)
      then have "length r < length (ws_skip q)" using 4(2) [OF q False] by blast
      then show ?thesis using short by simp
    qed
  qed
  then show ?case by blast
next
  case (5 depth s)
  have "length r < length s" if v: "object_loop depth s = Some (kvs, r)" for kvs r
  proof -
    obtain raw esc q where q: "decode_string s = Some (RString raw esc, q)"
      using v by (auto simp: object_loop.psimps [OF 5(1)] split: option.splits rvalue.splits)
    obtain q' key where q': "consume (CHR '':'') (ws_skip q) = Some q'" "string_text raw esc = Some key"
      using v q by (auto simp: object_loop.psimps [OF 5(1)] split: option.splits)
    obtain w t where w: "decode_value (depth + 1) (ws_skip q') = Some (w, t)"
      using v q q' by (auto simp: object_loop.psimps [OF 5(1)] split: option.splits)
    then have "length t < length (ws_skip q')" using 5(2) [OF q refl refl q'] by blast
    then have t: "length t < length s"
      using length_ws_skip [of q'] length_ws_skip [of q] consume_shorter [OF q'(1)] decode_string_shorter [OF q]
      by (simp add: NUL_def)
    show ?thesis
    proof (cases "peek (ws_skip t) = CHR ''}''")
      case True
      then show ?thesis using v q q' w t length_ws_skip [of t] by (auto simp: object_loop.psimps [OF 5(1)])
    next
      case False
      then obtain u us where u: "consume (CHR '','') (ws_skip t) = Some u" "object_loop depth (ws_skip u) = Some (us, r)"
        using v q q' w by (auto simp: object_loop.psimps [OF 5(1)] split: option.splits)
      then have "length r < length (ws_skip u)" using 5(3) [OF q refl refl q' w refl refl False] by blast
      then show ?thesis
        using t length_ws_skip [of t] length_ws_skip [of u] consume_shorter [OF u(1)] by (simp add: NUL_def)
    qed
  qed
  then show ?case by blast
qed

text \<open>Every value consumes at least one character, so the parser returns on every input.\<close>

definition parse_measure :: "(((nat \<times> string) + (nat \<times> string)) + (nat \<times> string) + (nat \<times> string) + (nat \<times> string)) \<Rightarrow> nat" where
  "parse_measure x =
     (case x of
        Inl (Inl (d, s)) \<Rightarrow> 3 * length s + 1
      | Inl (Inr (d, s)) \<Rightarrow> 3 * length s
      | Inr (Inl (d, s)) \<Rightarrow> 3 * length s + 2
      | Inr (Inr (Inl (d, s))) \<Rightarrow> 3 * length s
      | Inr (Inr (Inr (d, s))) \<Rightarrow> 3 * length s + 2)"

termination decode_value
proof (relation "measure parse_measure", goal_cases)
  case (6 depth s x2 x y xa x2a)
  then have "length y < length s" using decode_dom_shorter(1) by blast
  then show ?case
    using 6 ws_skip_consume [of "CHR '',''" xa x2a] length_ws_skip [of y] by (simp add: parse_measure_def NUL_def)
next
  case (8 depth s x2 x y x51 x52 x2a x2b)
  then have "length y < length s" using decode_string_shorter by blast
  then show ?case
    using 8 ws_skip_consume [of "CHR '':''" "ws_skip y" x2a] length_ws_skip [of y] by (simp add: parse_measure_def NUL_def)
next
  case (9 depth s x2 x y x51 x52 x2a x2b x2c xa ya xb x2d)
  then have "length y < length s" using decode_string_shorter by blast
  moreover have "length ya < length (ws_skip x2a)" using 9 decode_dom_shorter(1) by blast
  ultimately show ?case
    using 9 ws_skip_consume [of "CHR '',''" xb x2d] ws_skip_consume [of "CHR '':''" "ws_skip y" x2a]
      length_ws_skip [of y] length_ws_skip [of ya]
    by (simp add: parse_measure_def NUL_def)
qed (auto simp: parse_measure_def NUL_def dest: ws_skip_consume)

declare decode_value.simps [simp del] decode_list.simps [simp del] list_loop.simps [simp del]
  decode_object.simps [simp del] object_loop.simps [simp del]

section \<open>Loading a document\<close>

definition parse :: "string \<Rightarrow> rvalue option" where
  "parse data =
     (case decode_value 0 (ws_skip data) of
        None \<Rightarrow> None
      | Some (v, r) \<Rightarrow> if peek (ws_skip r) \<noteq> NUL then None else Some v)"

text \<open>\<open>load\<close> copies the bytes, NULs included, and appends a NUL of its own.\<close>

definition load :: "string \<Rightarrow> rvalue option" where
  "load data = parse data"

section \<open>Accessors\<close>

primrec t_of :: "rvalue \<Rightarrow> json_type" where
  "t_of RNull = Null"
| "t_of RFalse = False_type"
| "t_of RTrue = True_type"
| "t_of (RNumber s) = Number"
| "t_of (RString s e) = String"
| "t_of (RList vs) = List"
| "t_of (RObject kvs) = Object"

datatype num_type = Signed_integer | Unsigned_integer | Floating_point | Null_num

definition determine_num_type :: "rvalue \<Rightarrow> num_type" where
  "determine_num_type v =
     (case v of
        RNumber s \<Rightarrow>
          let has_minus = CHR ''-'' \<in> set s;
              has_e = (CHR ''e'' \<in> set s \<or> CHR ''E'' \<in> set s);
              has_dec_sep = CHR ''.'' \<in> set s
          in if has_dec_sep \<or> has_e then Floating_point
             else if has_minus then Signed_integer else Unsigned_integer
      | _ \<Rightarrow> Null_num)"

definition i_of :: "rvalue \<Rightarrow> exn + int" where
  "i_of v =
     (case v of
        RNumber s \<Rightarrow> lexical_cast_int64 s
      | RString s e \<Rightarrow> lexical_cast_int64 s
      | _ \<Rightarrow> Inl (Runtime_Error (''expected number, got: '' @ get_type_str (t_of v))))"

definition b_of :: "rvalue \<Rightarrow> exn + bool" where
  "b_of v = (if t_of v \<noteq> True_type \<and> t_of v \<noteq> False_type then Inl (Runtime_Error ''value is not boolean'')
             else Inr (t_of v = True_type))"

definition s_of :: "rvalue \<Rightarrow> exn + string" where
  "s_of v =
     (case v of
        RString raw e \<Rightarrow> (case string_text raw e of None \<Rightarrow> Inl (Undefined ''head'') | Some s \<Rightarrow> Inr s)
      | _ \<Rightarrow> Inl (Runtime_Error ''value is not string''))"

definition lo :: "rvalue \<Rightarrow> exn + rvalue list" where
  "lo v =
     (case v of
        RObject kvs \<Rightarrow> Inr (map snd kvs)
      | RList vs \<Rightarrow> Inr vs
      | _ \<Rightarrow> Inl (Runtime_Error ''value is not a container''))"

definition size_of :: "rvalue \<Rightarrow> exn + nat" where
  "size_of v =
     (case v of
        RString raw e \<Rightarrow> exn_bind (s_of v) (\<lambda>s. Inr (length s))
      | RObject kvs \<Rightarrow> Inr (length kvs)
      | RList vs \<Rightarrow> Inr (length vs)
      | _ \<Rightarrow> Inl (Runtime_Error ''value is not a container''))"

definition at_index :: "rvalue \<Rightarrow> nat \<Rightarrow> exn + rvalue" where
  "at_index v i =
     (case v of
        RList vs \<Rightarrow> if length vs \<le> i then Inl (Runtime_Error ''list out of bound'') else Inr (vs ! i)
      | _ \<Rightarrow> Inl (Runtime_Error ''value is not a list''))"

definition keys :: "rvalue \<Rightarrow> exn + string list" where
  "keys v = (case v of RObject kvs \<Rightarrow> Inr (map fst kvs) | _ \<Rightarrow> Inl (Runtime_Error ''value is not an object''))"

section \<open>Key lookup\<close>

text \<open>
  Keys are compared as \<open>char\<close> sequences, signed on the targets the program is built for. The
  members are sorted on the first lookup with \<open>std::sort\<close>, an argument here: any function that
  returns a sorted permutation of its input. \<open>operator>\<close> on \<open>r_string\<close> compares the same way round
  as \<open>operator<\<close>.
\<close>

definition char_less :: "char \<Rightarrow> char \<Rightarrow> bool" where
  "char_less c d \<longleftrightarrow> sint (byte_of_char c) < sint (byte_of_char d)"

fun lexicographical_compare :: "string \<Rightarrow> string \<Rightarrow> bool" where
  "lexicographical_compare l [] = False"
| "lexicographical_compare [] (d # ds) = True"
| "lexicographical_compare (c # cs) (d # ds) =
     (if char_less c d then True else if char_less d c then False else lexicographical_compare cs ds)"

definition r_less :: "string \<Rightarrow> string \<Rightarrow> bool" where
  "r_less l r = lexicographical_compare l r"

definition r_greater :: "string \<Rightarrow> string \<Rightarrow> bool" where
  "r_greater l r = lexicographical_compare l r"

definition r_equals :: "string \<Rightarrow> string \<Rightarrow> bool" where
  "r_equals l r \<longleftrightarrow> length l = length r \<and> (\<forall>i < length l. l ! i = r ! i)"

type_synonym members = "(string \<times> rvalue) list"

definition lower_bound :: "members \<Rightarrow> string \<Rightarrow> members" where
  "lower_bound kvs str = dropWhile (\<lambda>kv. r_less (fst kv) str) kvs"

text \<open>
  On a list the elements' keys are pointers that were never set, so comparing one has no meaning;
  an empty list compares none.
\<close>

definition has :: "(members \<Rightarrow> members) \<Rightarrow> rvalue \<Rightarrow> string \<Rightarrow> exn + bool" where
  "has json_sort v str =
     (case v of
        RObject kvs \<Rightarrow>
          (case lower_bound (json_sort kvs) str of
             [] \<Rightarrow> Inr False
           | kv # _ \<Rightarrow> Inr (r_equals (fst kv) str))
      | RList [] \<Rightarrow> Inr False
      | RList (_ # _) \<Rightarrow> Inl (Undefined ''key'')
      | _ \<Rightarrow> Inl (Runtime_Error ''value is not a container''))"

definition at_key :: "(members \<Rightarrow> members) \<Rightarrow> rvalue \<Rightarrow> string \<Rightarrow> exn + rvalue" where
  "at_key json_sort v str =
     (case v of
        RObject kvs \<Rightarrow>
          (case lower_bound (json_sort kvs) str of
             [] \<Rightarrow> Inl (Runtime_Error (''cannot find key: '' @ str))
           | kv # _ \<Rightarrow>
               if r_equals (fst kv) str then Inr (snd kv)
               else Inl (Runtime_Error (''cannot find key: '' @ str)))
      | _ \<Rightarrow> Inl (Runtime_Error ''value is not an object''))"


section \<open>The key order\<close>

lemma r_equals_eq [simp]: "r_equals l r \<longleftrightarrow> l = r"
  by (auto simp: r_equals_def list_eq_iff_nth_eq)

lemma char_less_irrefl [simp]: "\<not> char_less c c"
  by (simp add: char_less_def)

lemma char_less_cases: "char_less c d \<or> c = d \<or> char_less d c"
  unfolding char_less_def
  by (metis byte_of_char_inject linorder_neqE_linordered_idom signed_word_eqI)

lemma char_less_trans: "char_less c d \<Longrightarrow> char_less d e \<Longrightarrow> char_less c e"
  by (simp add: char_less_def)

lemma char_less_asym: "char_less c d \<Longrightarrow> \<not> char_less d c"
  by (simp add: char_less_def)

lemma lex_Cons:
  "lexicographical_compare (c # cs) (d # ds) \<longleftrightarrow> char_less c d \<or> c = d \<and> lexicographical_compare cs ds"
  using char_less_cases [of c d] char_less_asym [of c d] by auto

lemma r_less_irrefl [simp]: "\<not> r_less s s"
  unfolding r_less_def by (induction s) auto

lemma r_less_total: "r_less l r \<or> l = r \<or> r_less r l"
  unfolding r_less_def
proof (induction l r rule: lexicographical_compare.induct)
  case (1 l)
  then show ?case by (cases l) auto
next
  case (3 c cs d ds)
  then show ?case using char_less_cases [of c d] by auto
qed simp

lemma r_less_trans: "r_less l m \<Longrightarrow> r_less m r \<Longrightarrow> r_less l r"
  unfolding r_less_def
proof (induction l r arbitrary: m rule: lexicographical_compare.induct)
  case (1 l)
  then show ?case by (cases m) auto
next
  case (2 d ds)
  then show ?case by simp
next
  case (3 c cs d ds)
  obtain e es where m: "m = e # es" using 3(2) by (cases m) auto
  have "char_less c e \<or> c = e \<and> lexicographical_compare cs es"
    and "char_less e d \<or> e = d \<and> lexicographical_compare es ds"
    using 3(2,3) by (simp_all only: m lex_Cons)
  moreover have "c = d \<Longrightarrow> lexicographical_compare cs es \<Longrightarrow> lexicographical_compare es ds
      \<Longrightarrow> lexicographical_compare cs ds"
    using 3(1) by (metis char_less_irrefl)
  ultimately show ?case
    unfolding lex_Cons using char_less_trans [of c e d] by blast
qed

lemma r_less_asym: "r_less l r \<Longrightarrow> \<not> r_less r l"
  using r_less_trans r_less_irrefl by blast

section \<open>The contract of \<open>std::sort\<close>\<close>

definition keys_sorted :: "members \<Rightarrow> bool" where
  "keys_sorted kvs = sorted_wrt (\<lambda>a b. \<not> r_less (fst b) (fst a)) kvs"

locale member_sort =
  fixes json_sort :: "members \<Rightarrow> members"
  assumes perm: "mset (json_sort kvs) = mset kvs"
    and sorted: "keys_sorted (json_sort kvs)"
begin

lemma set_sort [simp]: "set (json_sort kvs) = set kvs"
  using perm [of kvs] by (metis set_mset_mset)

lemma lower_bound_found:
  "str \<in> fst ` set kvs \<longleftrightarrow> (\<exists>v r. lower_bound (json_sort kvs) str = (str, v) # r)"
proof -
  have main: "keys_sorted xs \<Longrightarrow>
      str \<in> fst ` set xs \<longleftrightarrow> (\<exists>v r. lower_bound xs str = (str, v) # r)" for xs
  proof (induction xs)
    case (Cons x xs)
    show ?case
    proof (cases "r_less (fst x) str")
      case True
      then have "fst x \<noteq> str" by auto
      then show ?thesis using Cons True by (auto simp: lower_bound_def keys_sorted_def)
    next
      case False
      then have lb: "lower_bound (x # xs) str = x # xs" by (simp add: lower_bound_def)
      have "fst x = str" if "str \<in> fst ` set xs"
      proof -
        have "\<not> r_less str (fst x)" using that Cons.prems by (auto simp: keys_sorted_def)
        then show ?thesis using False r_less_total by blast
      qed
      then have "str \<in> fst ` set (x # xs) \<longleftrightarrow> str = fst x"
        by (simp only: list.set image_insert insert_iff) metis
      then show ?thesis unfolding lb by (cases x) auto
    qed
  qed (simp add: lower_bound_def)
  show ?thesis using main [OF sorted [of kvs]] by simp
qed

lemma has_iff: "has json_sort (RObject kvs) str = Inr (str \<in> fst ` set kvs)"
proof (cases "lower_bound (json_sort kvs) str")
  case Nil
  then show ?thesis using lower_bound_found [of str kvs] by (auto simp: has_def)
next
  case (Cons x xs)
  then show ?thesis using lower_bound_found [of str kvs] by (cases x) (auto simp: has_def)
qed

lemma at_key_mem:
  assumes "str \<in> fst ` set kvs"
  shows "\<exists>v. at_key json_sort (RObject kvs) str = Inr v \<and> (str, v) \<in> set kvs"
proof -
  obtain v r where lb: "lower_bound (json_sort kvs) str = (str, v) # r"
    using assms lower_bound_found by blast
  have "(str, v) \<in> set (lower_bound (json_sort kvs) str)" using lb by simp
  then have "(str, v) \<in> set kvs" unfolding lower_bound_def using set_dropWhileD set_sort by metis
  then show ?thesis using lb by (simp add: at_key_def)
qed

lemma at_key_map_of:
  assumes "distinct (map fst kvs)" and "map_of kvs str = Some v"
  shows "at_key json_sort (RObject kvs) str = Inr v"
proof -
  have "str \<in> fst ` set kvs" using assms(2) by (meson domI domIff map_of_eq_None_iff)
  then obtain w where w: "at_key json_sort (RObject kvs) str = Inr w" "(str, w) \<in> set kvs"
    using at_key_mem by blast
  then have "map_of kvs str = Some w" using assms(1) by (simp add: map_of_is_SomeI)
  then show ?thesis using w assms(2) by simp
qed

end

text \<open>
  libstdc++ sorts up to sixteen elements by insertion. \<open>insertion_sort\<close> inserts each element after
  those not greater than it.
\<close>

fun insert_member :: "string \<times> rvalue \<Rightarrow> members \<Rightarrow> members" where
  "insert_member x [] = [x]"
| "insert_member x (y # ys) = (if r_less (fst y) (fst x) then y # insert_member x ys else x # y # ys)"

definition insertion_sort :: "members \<Rightarrow> members" where
  "insertion_sort kvs = foldr insert_member kvs []"

lemma mset_insert_member [simp]: "mset (insert_member x ys) = add_mset x (mset ys)"
  by (induction ys) auto

lemma insert_member_sorted: "keys_sorted ys \<Longrightarrow> keys_sorted (insert_member x ys)"
proof (induction ys)
  case (Cons y ys)
  have set: "set (insert_member x ys) = insert x (set ys)"
    by (metis mset_insert_member set_mset_add_mset_insert set_mset_mset)
  show ?case
  proof (cases "r_less (fst y) (fst x)")
    case True
    then show ?thesis using Cons r_less_asym [OF True] by (auto simp: keys_sorted_def set)
  next
    case False
    have "\<not> r_less (fst z) (fst x)" if "z \<in> set ys" for z
      using that Cons.prems False r_less_total [of "fst y" "fst x"] r_less_trans [of "fst z" "fst x" "fst y"]
      by (auto simp: keys_sorted_def)
    then show ?thesis using False Cons.prems by (auto simp: keys_sorted_def)
  qed
qed (simp add: keys_sorted_def)

interpretation ins: member_sort insertion_sort
proof
  show "mset (insertion_sort kvs) = mset kvs" for kvs
    unfolding insertion_sort_def by (induction kvs) auto
  show "keys_sorted (insertion_sort kvs)" for kvs
    unfolding insertion_sort_def by (induction kvs) (simp_all add: insert_member_sorted, simp add: keys_sorted_def)
qed



section \<open>What the parser stores\<close>

text \<open>A string's raw text is made of plain characters and complete escapes; that holds of every value read.\<close>

fun well_escaped :: "string \<Rightarrow> bool" where
  "well_escaped [] = True"
| "well_escaped (c # cs) =
     (if c = CHR 0x5C
      then (case cs of
          [] \<Rightarrow> False
        | d # ds \<Rightarrow>
            if d = CHR ''u''
            then (case ds of
                h1 # h2 # h3 # h4 # hs \<Rightarrow>
                  hex_check h1 \<and> hex_check h2 \<and> hex_check h3 \<and> hex_check h4 \<and> well_escaped hs
              | _ \<Rightarrow> False)
            else simple_escape d \<and> well_escaped ds)
      else well_escaped cs)"

lemma well_escaped_cases:
  assumes "well_escaped s"
  obtains "s = []"
    | c cs where "s = c # cs" "c \<noteq> CHR 0x5C" "well_escaped cs"
    | d ds where "s = CHR 0x5C # d # ds" "d \<noteq> CHR ''u''" "simple_escape d" "well_escaped ds"
    | h1 h2 h3 h4 hs where "s = CHR 0x5C # CHR ''u'' # h1 # h2 # h3 # h4 # hs"
        "hex_check h1" "hex_check h2" "hex_check h3" "hex_check h4" "well_escaped hs"
proof (cases s)
  case (Cons c cs)
  show ?thesis
  proof (cases "c = CHR 0x5C")
    case True
    then obtain d ds where cs: "cs = d # ds" using assms Cons by (cases cs) auto
    show ?thesis
    proof (cases "d = CHR ''u''")
      case u: True
      then obtain h1 h2 h3 h4 hs where "ds = h1 # h2 # h3 # h4 # hs"
        using assms Cons True cs by (simp split: list.splits)
      then show ?thesis using assms Cons True cs u that(4) by simp
    qed (use assms Cons True cs that(3) in simp)
  qed (use assms Cons that(2) in simp)
qed (use that(1) in simp)

lemma unescape_well_escaped: "well_escaped s \<Longrightarrow> \<exists>u. unescape s = Some u"
proof (induction s rule: length_induct)
  case (1 s)
  from 1(2) show ?case
  proof (cases rule: well_escaped_cases)
    case (2 c cs)
    then show ?thesis using 1(1) by auto
  next
    case (3 d ds)
    then show ?thesis using 1(1) by auto
  next
    case (4 h1 h2 h3 h4 hs)
    then have "\<exists>u. unescape hs = Some u" using 1(1) by simp
    then show ?thesis using 4(1) by (auto simp: Let_def)
  qed simp
qed

lemma well_escaped_append: "well_escaped s \<Longrightarrow> well_escaped r \<Longrightarrow> well_escaped (s @ r)"
proof (induction s rule: length_induct)
  case (1 s)
  from 1(2) show ?case
    by (cases rule: well_escaped_cases) (use 1 in simp_all)
qed

definition number_char :: "char \<Rightarrow> bool" where
  "number_char c \<longleftrightarrow> is_digit c \<or> c \<in> set ''+-.eE''"

fun well_read :: "rvalue \<Rightarrow> bool" where
  "well_read (RString raw e) \<longleftrightarrow> (if e then well_escaped raw else CHR 0x5C \<notin> set raw)"
| "well_read (RNumber s) \<longleftrightarrow> s \<noteq> [] \<and> list_all number_char s"
| "well_read (RList vs) \<longleftrightarrow> (\<forall>v \<in> set vs. well_read v)"
| "well_read (RObject kvs) \<longleftrightarrow> (\<forall>kv \<in> set kvs. well_read (snd kv))"
| "well_read v \<longleftrightarrow> True"

lemma well_escaped_plain: "CHR 0x5C \<notin> set s \<Longrightarrow> well_escaped s"
  by (induction s) auto

lemma hex_not_NUL: "hex_check NUL = False"
  by (simp add: hex_check_def char_between_def NUL_def)

lemma take6:
  assumes "peek s = CHR 0x5C" "peek (tl s) = CHR ''u''" "hex_check (peek (drop 2 s))"
    "hex_check (peek (drop 3 s))" "hex_check (peek (drop 4 s))" "hex_check (peek (drop 5 s))"
  shows "well_escaped (take 6 s)"
proof -
  have "6 \<le> length s"
    using assms(6) by (cases "length s \<le> 5") (auto simp: hex_not_NUL)
  then obtain a b h1 h2 h3 h4 r where s: "s = a # b # h1 # h2 # h3 # h4 # r"
    by (auto simp: eval_nat_numeral Suc_le_length_iff)
  then show ?thesis using assms by (simp add: s numeral_eq_Suc)
qed

lemma string_loop_well_read:
  "string_loop acc e s = Some (v, r) \<Longrightarrow> well_read (RString acc e) \<Longrightarrow> well_read v"
proof (induction acc e s rule: string_loop.induct)
  case (1 acc e s)
  let ?c = "peek s"
  note run = 1(4) [unfolded string_loop.simps [of acc e s] Let_def]
  note wr = 1(5)
  have acc: "well_escaped acc" using 1(5) well_escaped_plain by (auto split: if_splits)
  consider "?c \<noteq> CHR 0x22 \<and> ?c \<noteq> CHR 0x5C \<and> ?c \<noteq> NUL" | "?c = CHR 0x22" | "?c = CHR 0x5C"
    using run by (auto split: if_splits)
  then show ?case
  proof cases
    case plain: 1
    then have "well_read (RString (acc @ [?c]) e)" using wr well_escaped_append [OF acc, of "[?c]"] by (auto split: if_splits)
    then show ?thesis using run "1.IH"(1) [OF refl plain] plain by simp
  next
    case 2
    then show ?thesis using run wr by auto
  next
    case 3
    show ?thesis
    proof (cases "peek (tl s) = CHR ''u''")
      case True
      then have "well_read (RString (acc @ take 6 s) True) \<longrightarrow> well_read v"
        using run "1.IH"(2) [OF refl _ _ _ refl] 3 by (simp add: NUL_def split: if_splits)
      then show ?thesis
        using well_escaped_append [OF acc take6 [of s]] run 3 True by (simp add: NUL_def split: if_splits)
    next
      case False
      then have "well_read (RString (acc @ [?c, peek (tl s)]) True) \<longrightarrow> well_read v"
        using run "1.IH"(3) [OF refl _ _ _ refl] 3 by (simp add: NUL_def split: if_splits)
      moreover have "well_escaped [?c, peek (tl s)]"
        using run 3 False by (simp add: NUL_def split: if_splits)
      ultimately show ?thesis using well_escaped_append [OF acc] by simp
    qed
  qed
qed

lemma number_text:
  assumes "number_step st s = Some (st', w, r)"
  shows "list_all number_char w"
proof -
  have d: "list_all number_char (takeWhile is_digit u)" for u
    by (auto simp: list_all_iff number_char_def dest: set_takeWhileD)
  have e: "char_between (CHR ''1'') (CHR ''9'') c \<Longrightarrow> number_char c" for c
    by (simp add: number_char_def is_digit_def char_between_def)
  have z: "number_char (CHR ''0'')" by (simp add: number_char_def is_digit_def char_between_def)
  show ?thesis
    using assms d [of "tl s"] e [of "peek s"] z
    by (auto simp: number_step_def Let_def number_char_def split: if_splits)
qed

lemma number_loop_well_read:
  "number_loop st acc s = Some (v, r) \<Longrightarrow> list_all number_char acc \<Longrightarrow> (accepting st \<longrightarrow> acc \<noteq> []) \<Longrightarrow>
   well_read v"
proof (induction st acc s rule: number_loop.induct)
  case (1 st acc s)
  note run = 1(2) [unfolded number_loop.simps [of st acc s]]
  then have ne: "st \<noteq> Invalid" by (auto split: if_splits)
  show ?case
  proof (cases "number_step st s")
    case None
    then show ?thesis using run ne 1(3,4) by (auto split: if_splits)
  next
    case (Some p)
    obtain st' t r' where p: "p = (st', t, r')" by (cases p)
    have step: "number_step st s = Some (st', t, r')" using Some p by simp
    have "t \<noteq> []" using number_step_shorter [OF step] by simp
    moreover have "list_all number_char t" using step number_text by blast
    ultimately show ?thesis using "1.IH" [OF ne Some p [symmetric] refl] run ne step 1(3) by simp
  qed
qed

lemma decode_scalar_well_read: "decode_scalar s = Some (v, r) \<Longrightarrow> well_read v"
  unfolding decode_scalar_def decode_literal_def decode_string_def decode_number_def
  by (auto split: if_splits option.splits dest: string_loop_well_read number_loop_well_read simp: accepting_def)

lemma list_loopE:
  assumes "list_loop d s = Some (vs, r)"
  obtains w u where "decode_value (d + 1) s = Some (w, u)" "peek (ws_skip u) = CHR '']''" "vs = [w]" "r = tl (ws_skip u)"
  | w u q ws where "decode_value (d + 1) s = Some (w, u)" "peek (ws_skip u) \<noteq> CHR '']''"
      "consume (CHR '','') (ws_skip u) = Some q" "list_loop d (ws_skip q) = Some (ws, r)" "vs = w # ws"
  using assms by (subst (asm) list_loop.simps) (auto simp: Let_def split: option.splits if_splits)

lemma object_loopE:
  assumes "object_loop d s = Some (kvs, r)"
  obtains raw e p q key w u where "decode_string s = Some (RString raw e, p)"
      "consume (CHR '':'') (ws_skip p) = Some q" "string_text raw e = Some key"
      "decode_value (d + 1) (ws_skip q) = Some (w, u)"
      "peek (ws_skip u) = CHR ''}''" "kvs = [(key, w)]" "r = tl (ws_skip u)"
  | raw e p q key w u q' ws where "decode_string s = Some (RString raw e, p)"
      "consume (CHR '':'') (ws_skip p) = Some q" "string_text raw e = Some key"
      "decode_value (d + 1) (ws_skip q) = Some (w, u)" "peek (ws_skip u) \<noteq> CHR ''}''"
      "consume (CHR '','') (ws_skip u) = Some q'" "object_loop d (ws_skip q') = Some (ws, r)" "kvs = (key, w) # ws"
  using assms
  by (subst (asm) object_loop.simps) (auto simp: Let_def split: option.splits if_splits rvalue.splits)

lemma decode_well_read:
  "\<forall>v r. decode_value d s = Some (v, r) \<longrightarrow> well_read v"
  "\<forall>v r. decode_list d s = Some (v, r) \<longrightarrow> well_read v"
  "\<forall>vs r. list_loop d s = Some (vs, r) \<longrightarrow> (\<forall>v \<in> set vs. well_read v)"
  "\<forall>v r. decode_object d s = Some (v, r) \<longrightarrow> well_read v"
  "\<forall>kvs r. object_loop d s = Some (kvs, r) \<longrightarrow> (\<forall>kv \<in> set kvs. well_read (snd kv))"
proof (induction d s and d s and d s and d s and d s
    rule: decode_value_decode_list_list_loop_decode_object_object_loop.induct)
  case (1 depth s)
  then show ?case by (auto simp: decode_value.simps [of depth s] dest: decode_scalar_well_read split: if_splits)
next
  case (2 depth s)
  then show ?case by (auto simp: decode_list.simps [of depth s] split: if_splits option.splits)
next
  case (3 depth s)
  show ?case
  proof (intro allI impI)
    fix vs r assume "list_loop depth s = Some (vs, r)"
    then show "\<forall>v \<in> set vs. well_read v"
      by (cases rule: list_loopE) (use 3(1) 3(2) [OF _ refl refl] in auto)
  qed
next
  case (4 depth s)
  then show ?case by (auto simp: decode_object.simps [of depth s] split: if_splits option.splits)
next
  case (5 depth s)
  show ?case
  proof (intro allI impI)
    fix kvs r assume "object_loop depth s = Some (kvs, r)"
    then show "\<forall>kv \<in> set kvs. well_read (snd kv)"
      by (cases rule: object_loopE) (use 5(1) [OF _ refl refl] 5(2) [OF _ refl refl _ _ _ refl refl] in auto)
  qed
qed

fun subvalues :: "rvalue \<Rightarrow> rvalue set" where
  "subvalues (RList vs) = insert (RList vs) (\<Union>v \<in> set vs. subvalues v)"
| "subvalues (RObject kvs) = insert (RObject kvs) (\<Union>kv \<in> set kvs. subvalues (snd kv))"
| "subvalues v = {v}"

lemma well_read_sub: "well_read v \<Longrightarrow> u \<in> subvalues v \<Longrightarrow> well_read u"
  by (induction v arbitrary: u rule: subvalues.induct) auto

lemma well_read_s_of:
  assumes "well_read u" and "t_of u = String"
  shows "\<exists>s. s_of u = Inr s"
  using assms unescape_well_escaped by (cases u) (fastforce simp: s_of_def string_text_def split: if_splits)+

lemma load_well_read: "load data = Some v \<Longrightarrow> well_read v"
  using decode_well_read(1) [of 0 "ws_skip data"]
  by (auto simp: load_def parse_def split: option.splits if_splits)

text \<open>
  C15: a string that was read can be used. Whatever bytes \<open>load\<close> accepts, every string inside the
  resulting document, at any depth, unescapes without running past its end.
\<close>

theorem loaded_strings_readable:
  assumes "load data = Some v" and "u \<in> subvalues v" and "t_of u = String"
  shows "\<exists>s. s_of u = Inr s"
  by (rule well_read_s_of [OF well_read_sub [OF load_well_read [OF assms(1)] assms(2)] assms(3)])

theorem loaded_strings_readable_witness:
  "\<exists>s. s_of (RString (CHR 0x5C # ''n'') True) = Inr s"
proof (rule loaded_strings_readable)
  show "load ([CHR 0x22, CHR 0x5C, CHR ''n'', CHR 0x22]) = Some (RString (CHR 0x5C # ''n'') True)"
    by code_simp
qed simp_all

section \<open>The depth limit\<close>

text \<open>\<open>n\<close> lists, each the only element of the one around it.\<close>

definition nested_lists :: "nat \<Rightarrow> string" where
  "nested_lists n = replicate n (CHR ''['') @ replicate n (CHR '']'')"

lemma ws_skip_bracket [simp]:
  "ws_skip (CHR ''['' # s) = CHR ''['' # s" "ws_skip (CHR '']'' # s) = CHR '']'' # s" "ws_skip [] = []"
  by (simp_all add: ws_skip_def json_ws_def)

lemma decode_nested:
  "decode_value d (replicate (Suc n) (CHR ''['') @ replicate (Suc n) (CHR '']'') @ r) =
     (if d + 2 * n + 1 \<le> max_depth
      then Some (((\<lambda>v. RList [v]) ^^ n) (RList []), r) else None)"
proof (induction n arbitrary: d r)
  case 0
  then show ?case by (simp add: decode_value.simps decode_list.simps consume_def)
next
  case (Suc n)
  have e: "replicate (Suc n) (CHR ''['') @ CHR '']'' # replicate (Suc n) (CHR '']'') @ r
    = replicate (Suc n) (CHR ''['') @ replicate (Suc n) (CHR '']'') @ CHR '']'' # r"
    by (simp add: replicate_app_Cons_same)
  have s: "replicate (Suc (Suc n)) (CHR ''['') @ replicate (Suc (Suc n)) (CHR '']'') @ r
    = CHR ''['' # replicate (Suc n) (CHR ''['') @ CHR '']'' # replicate (Suc n) (CHR '']'') @ r" by simp
  have p: "peek (replicate (Suc n) (CHR ''['') @ x) = CHR ''[''"
    "ws_skip (replicate (Suc n) (CHR ''['') @ x) = replicate (Suc n) (CHR ''['') @ x" for x
    by simp_all
  have l: "list_loop (d + 1) (replicate (Suc n) (CHR ''['') @ CHR '']'' # replicate (Suc n) (CHR '']'') @ r)
    = (if d + 2 + 2 * n + 1 \<le> max_depth then Some ([((\<lambda>v. RList [v]) ^^ n) (RList [])], r) else None)"
    unfolding e by (subst list_loop.simps) (simp add: Suc [of "Suc (Suc d)", simplified])
  show ?case
    unfolding s using l p by (simp add: decode_value.simps decode_list.simps [of "Suc d" "CHR ''['' # x" for x] consume_def)
qed

text \<open>
  C16: the recursion is bounded. A document of \<open>n\<close> nested lists is accepted exactly up to 5000 levels:
  each level passes through two calls, and both count against \<open>max_depth\<close>.
\<close>

theorem nesting_limit: "load (nested_lists (Suc n)) \<noteq> None \<longleftrightarrow> Suc n \<le> 5000"
proof -
  have w: "ws_skip (nested_lists (Suc n)) = nested_lists (Suc n)" by (simp add: nested_lists_def)
  have "decode_value 0 (nested_lists (Suc n)) =
      (if 2 * n + 1 \<le> max_depth then Some (((\<lambda>v. RList [v]) ^^ n) (RList []), []) else None)"
    using decode_nested [of 0 n "[]"] by (simp only: nested_lists_def append_Nil2 add_0)
  then show ?thesis unfolding load_def parse_def w by (auto simp: max_depth_def)
qed

end
