(* ===== verification/Json_Write.thy ===== *)
theory Json_Write
  imports Clib
begin

text \<open>
  src/src/crowlib/crow/json.h, the writing half: \<open>wvalue\<close>, its assignments and accessors, \<open>escape\<close>
  and \<open>dump\<close>. An object is an \<open>std::unordered_map\<close>: its members are kept here in the order of
  insertion, and the order in which it is iterated is a function of the keys inserted, an argument
  \<open>json_order\<close> of the operations that iterate.
\<close>

section \<open>Values\<close>

text \<open>
  A floating-point number is represented by what \<open>snprintf\<close> prints for it, which is all the code
  does with it, or by \<open>None\<close> for a NaN or an infinity.
\<close>

datatype wvalue =
    WNull
  | WFalse
  | WTrue
  | WSigned int
  | WUnsigned int
  | WDouble "string option"
  | WString string
  | WList "wvalue list"
  | WObject "(string \<times> wvalue) list"

definition w_bool :: "bool \<Rightarrow> wvalue" where
  "w_bool b = (if b then WTrue else WFalse)"

definition w_reset :: "wvalue \<Rightarrow> wvalue" where
  "w_reset w = WNull"

text \<open>\<open>w[k] = v\<close>: the member is created when the key is new; a value of another type is dropped.\<close>

fun set_member :: "string \<Rightarrow> wvalue \<Rightarrow> (string \<times> wvalue) list \<Rightarrow> (string \<times> wvalue) list" where
  "set_member k v [] = [(k, v)]"
| "set_member k v ((k', v') # kvs) = (if k = k' then (k, v) # kvs else (k', v') # set_member k v kvs)"

definition w_set :: "string \<Rightarrow> wvalue \<Rightarrow> wvalue \<Rightarrow> wvalue" where
  "w_set k v w = (case w of WObject kvs \<Rightarrow> WObject (set_member k v kvs) | _ \<Rightarrow> WObject [(k, v)])"

text \<open>\<open>w[i] = v\<close>: the list is extended with nulls up to the index.\<close>

definition w_set_index :: "nat \<Rightarrow> wvalue \<Rightarrow> wvalue \<Rightarrow> wvalue" where
  "w_set_index i v w =
     (let l = (case w of WList vs \<Rightarrow> vs | _ \<Rightarrow> []);
          l = (if length l < i + 1 then l @ replicate (i + 1 - length l) WNull else l)
      in WList (l[i := v]))"

definition w_count :: "string \<Rightarrow> wvalue \<Rightarrow> nat" where
  "w_count k w = (case w of WObject kvs \<Rightarrow> if k \<in> fst ` set kvs then 1 else 0 | _ \<Rightarrow> 0)"

definition w_keys :: "(string list \<Rightarrow> string list) \<Rightarrow> wvalue \<Rightarrow> string list" where
  "w_keys json_order w = (case w of WObject kvs \<Rightarrow> json_order (map fst kvs) | _ \<Rightarrow> [])"

definition w_size :: "wvalue \<Rightarrow> nat" where
  "w_size w = (case w of WList vs \<Rightarrow> length vs | _ \<Rightarrow> 1)"

section \<open>Text\<close>

definition to_hex :: "nat \<Rightarrow> char" where
  "to_hex c = (let c = c mod 16 in if c < 10 then char_of (of_char (CHR ''0'') + c)
     else char_of (of_char (CHR ''a'') + c - 10))"

definition escape_char :: "char \<Rightarrow> string" where
  "escape_char c =
     (if c = CHR 0x22 then [CHR 0x5C, CHR 0x22]
      else if c = CHR 0x5C then [CHR 0x5C, CHR 0x5C]
      else if c = CHR 0x0A then [CHR 0x5C, CHR ''n'']
      else if c = CHR 0x08 then [CHR 0x5C, CHR ''b'']
      else if c = CHR 0x0C then [CHR 0x5C, CHR ''f'']
      else if c = CHR 0x0D then [CHR 0x5C, CHR ''r'']
      else if c = CHR 0x09 then [CHR 0x5C, CHR ''t'']
      else if of_char c < (0x20 :: nat)
      then [CHR 0x5C, CHR ''u'', CHR ''0'', CHR ''0'', to_hex (of_char c div 16), to_hex (of_char c mod 16)]
      else [c])"

definition escape :: "string \<Rightarrow> string" where
  "escape str = concat (map escape_char str)"

definition dump_string :: "string \<Rightarrow> string" where
  "dump_string str = CHR 0x22 # escape str @ [CHR 0x22]"

text \<open>
  The scan that cuts trailing zeros off the text of a floating-point number. \<open>zpos\<close> is
  \<open>pos_first_trailing_0\<close>, as an offset in the buffer.
\<close>

datatype f_state = Start | Decp | Zero

fun trailing_zero_loop :: "nat \<Rightarrow> f_state \<Rightarrow> nat option \<Rightarrow> string \<Rightarrow> nat option" where
  "trailing_zero_loop p st zpos [] = zpos"
| "trailing_zero_loop p st zpos (ch # rest) =
     (case st of
        Start \<Rightarrow>
          if ch = CHR ''.''
          then (case rest of
              fch # rest' \<Rightarrow> if fch = CHR ''0'' then trailing_zero_loop (p + 2) Decp zpos rest'
                            else trailing_zero_loop (p + 1) Decp zpos rest
            | [] \<Rightarrow> trailing_zero_loop (p + 1) Decp zpos rest)
          else trailing_zero_loop (p + 1) Start zpos rest
      | Decp \<Rightarrow>
          if ch = CHR ''0'' then trailing_zero_loop (p + 1) Zero (Some p) rest
          else trailing_zero_loop (p + 1) Decp zpos rest
      | Zero \<Rightarrow>
          if ch \<noteq> CHR ''0'' then trailing_zero_loop (p + 1) Decp None rest
          else trailing_zero_loop (p + 1) Zero zpos rest)"

definition trim_zeros :: "string \<Rightarrow> string" where
  "trim_zeros outbuf =
     (case trailing_zero_loop 0 Start None outbuf of None \<Rightarrow> outbuf | Some p \<Rightarrow> take p outbuf)"

section \<open>Dumping\<close>

definition dump_indentation :: "int \<Rightarrow> char \<Rightarrow> nat \<Rightarrow> string" where
  "dump_indentation indent separator level =
     (if 0 \<le> indent then CHR 0x0A # replicate (nat (int level * indent)) separator else [])"

fun join :: "string \<Rightarrow> string list \<Rightarrow> string" where
  "join sep [] = []"
| "join sep [x] = x"
| "join sep (x # xs) = x @ sep @ join sep xs"

text \<open>The members in the order of iteration, each with its dumped text.\<close>

definition iterate :: "(string list \<Rightarrow> string list) \<Rightarrow> (string \<times> 'a) list \<Rightarrow> (string \<times> 'a) list" where
  "iterate json_order kvs = map (\<lambda>k. (k, the (map_of kvs k))) (json_order (map fst kvs))"

fun dump_internal :: "(string list \<Rightarrow> string list) \<Rightarrow> int \<Rightarrow> char \<Rightarrow> nat \<Rightarrow> wvalue \<Rightarrow> string" where
  "dump_internal ord indent separator level WNull = ''null''"
| "dump_internal ord indent separator level WFalse = ''false''"
| "dump_internal ord indent separator level WTrue = ''true''"
| "dump_internal ord indent separator level (WSigned i) = to_string i"
| "dump_internal ord indent separator level (WUnsigned i) = to_string i"
| "dump_internal ord indent separator level (WDouble d) =
     (case d of None \<Rightarrow> ''null'' | Some outbuf \<Rightarrow> trim_zeros outbuf)"
| "dump_internal ord indent separator level (WString s) = dump_string s"
| "dump_internal ord indent separator level (WList vs) =
     ''['' @ dump_indentation indent separator (level + 1)
     @ join ('','' @ dump_indentation indent separator (level + 1))
         (map (dump_internal ord indent separator (level + 1)) vs)
     @ dump_indentation indent separator level @ '']''"
| "dump_internal ord indent separator level (WObject kvs) =
     ''{'' @ dump_indentation indent separator (level + 1)
     @ join ('','' @ dump_indentation indent separator (level + 1))
         (map (\<lambda>(k, text). dump_string k @ '':'' @ (if 0 \<le> indent then '' '' else []) @ text)
           (iterate ord (map (\<lambda>(k, v). (k, dump_internal ord indent separator (level + 1) v)) kvs)))
     @ dump_indentation indent separator level @ ''}''"

definition dump :: "(string list \<Rightarrow> string list) \<Rightarrow> wvalue \<Rightarrow> string" where
  "dump ord v = dump_internal ord (- 1) (CHR '' '') 0 v"

end
