(* ===== verification/Json_Roundtrip.thy ===== *)
theory Json_Roundtrip
  imports Json_Read Json_Write
begin

text \<open>
  What the two halves of json.h promise each other: what \<open>dump\<close> writes, \<open>load\<close> reads back. The
  meaning of a document is a value of type \<open>json\<close>, in which strings stand for themselves and an
  object is the list of its members in the order of the text.
\<close>

unbundle bit_operations_syntax

section \<open>Meanings\<close>

datatype json =
    JNull
  | JBool bool
  | JNumber string
  | JString string
  | JList "json list"
  | JObject "(string \<times> json) list"

fun rview :: "rvalue \<Rightarrow> json" where
  "rview RNull = JNull"
| "rview RFalse = JBool False"
| "rview RTrue = JBool True"
| "rview (RNumber s) = JNumber s"
| "rview (RString raw e) = JString (the (string_text raw e))"
| "rview (RList vs) = JList (map rview vs)"
| "rview (RObject kvs) = JObject (map (\<lambda>(k, v). (k, rview v)) kvs)"

fun wview :: "(string list \<Rightarrow> string list) \<Rightarrow> wvalue \<Rightarrow> json" where
  "wview ord WNull = JNull"
| "wview ord WFalse = JBool False"
| "wview ord WTrue = JBool True"
| "wview ord (WSigned i) = JNumber (to_string i)"
| "wview ord (WUnsigned i) = JNumber (to_string i)"
| "wview ord (WDouble d) = (case d of None \<Rightarrow> JNull | Some s \<Rightarrow> JNumber (trim_zeros s))"
| "wview ord (WString s) = JString s"
| "wview ord (WList vs) = JList (map (wview ord) vs)"
| "wview ord (WObject kvs) = JObject (iterate ord (map (\<lambda>(k, v). (k, wview ord v)) kvs))"

text \<open>
  Values the program writes: no floating-point numbers, no key twice (which a map cannot hold), and
  no deeper than the parser's limit.
\<close>

fun plain :: "wvalue \<Rightarrow> bool" where
  "plain (WDouble d) \<longleftrightarrow> d = None"
| "plain (WList vs) \<longleftrightarrow> (\<forall>v \<in> set vs. plain v)"
| "plain (WObject kvs) \<longleftrightarrow> distinct (map fst kvs) \<and> (\<forall>kv \<in> set kvs. plain (snd kv))"
| "plain v \<longleftrightarrow> True"

fun wdepth :: "wvalue \<Rightarrow> nat" where
  "wdepth (WList vs) = Suc (fold max (map wdepth vs) 0)"
| "wdepth (WObject kvs) = Suc (fold max (map (\<lambda>kv. wdepth (snd kv)) kvs) 0)"
| "wdepth v = 0"

text \<open>The order in which a map is iterated is a permutation of its keys.\<close>

definition key_order :: "(string list \<Rightarrow> string list) \<Rightarrow> bool" where
  "key_order ord \<longleftrightarrow> (\<forall>ks. mset (ord ks) = mset ks)"

lemma key_order_set: "key_order ord \<Longrightarrow> set (ord ks) = set ks"
  unfolding key_order_def by (metis set_mset_mset)

lemma iterate_set:
  assumes "key_order ord" and "distinct (map fst kvs)"
  shows "set (iterate ord kvs) = set kvs"
proof -
  have "set (iterate ord kvs) = (\<lambda>k. (k, the (map_of kvs k))) ` fst ` set kvs"
    using key_order_set [OF assms(1)] by (simp add: iterate_def)
  also have "\<dots> = (\<lambda>kv. kv) ` set kvs"
    unfolding image_image using assms(2) by (intro image_cong) auto
  finally show ?thesis by simp
qed

lemma map_of_map_snd: "map_of (map (\<lambda>(k, v). (k, f v)) kvs) k = map_option f (map_of kvs k)"
  by (induction kvs) auto

lemma iterate_map:
  assumes "key_order ord"
  shows "iterate ord (map (\<lambda>(k, v). (k, f v)) kvs) = map (\<lambda>(k, v). (k, f v)) (iterate ord kvs)"
proof -
  have k: "map fst (map (\<lambda>(k, v). (k, f v)) kvs) = map fst kvs" by auto
  have "map_of kvs k \<noteq> None" if "k \<in> set (ord (map fst kvs))" for k
    using that key_order_set [OF assms] by (auto simp: map_of_eq_None_iff)
  then show ?thesis
    unfolding iterate_def k map_of_map_snd by (force simp: option.map_sel)
qed

lemma fold_max_le: "x \<in> set xs \<Longrightarrow> x \<le> fold max xs (a :: nat)"
proof (induction xs arbitrary: a)
  case (Cons y ys)
  have "a \<le> fold max zs a" for zs and a :: nat
    by (induction zs arbitrary: a) (auto intro: order_trans [OF max.cobounded2])
  then have "y \<le> fold max ys (max y a)" by (meson max.bounded_iff)
  then show ?case using Cons by auto
qed simp

section \<open>Strings\<close>

lemma nat_16_cases:
  "n < 16 \<Longrightarrow> n \<in> {0, 1, 2, 3, 4, 5, 6, 7, 8, 9, 10, 11, 12, 13, 14, 15 :: nat}"
  by (simp only: insert_iff empty_iff) presburger

lemma from_hex_to_hex: "n < 16 \<Longrightarrow> hex_check (to_hex n) \<and> from_hex (to_hex n) = word_of_nat n"
  by (drule nat_16_cases, elim insertE)
    (simp_all add: to_hex_def from_hex_def hex_check_def char_between_def)

lemma low_char_of_nat: "n < 256 \<Longrightarrow> low_char (word_of_nat n) = char_of n"
  by (simp add: low_char_def char_of_byte_def unat_of_nat unsigned_ucast_eq take_bit_eq_mod)

lemma escape_char_cases:
  obtains "escape_char c = [c]" "c \<noteq> CHR 0x22" "c \<noteq> CHR 0x5C" "c \<noteq> NUL"
  | d where "escape_char c = [CHR 0x5C, d]" "simple_escape d" "d \<noteq> CHR ''u''" "unescape_char d = [c]"
  | h1 h2 where "escape_char c = [CHR 0x5C, CHR ''u'', CHR ''0'', CHR ''0'', h1, h2]"
      "hex_check h1" "hex_check h2"
      "utf8_code (push_bit 12 (from_hex (CHR ''0'')) + push_bit 8 (from_hex (CHR ''0''))
         + push_bit 4 (from_hex h1) + from_hex h2) = [c]"
proof -
  note defs = escape_char_def simple_escape_def unescape_char_def
  let ?n = "of_char c :: nat"
  consider "c \<in> set [CHR 0x22, CHR 0x5C, CHR 0x0A, CHR 0x08, CHR 0x0C, CHR 0x0D, CHR 0x09]"
    | "c \<notin> set [CHR 0x22, CHR 0x5C, CHR 0x0A, CHR 0x08, CHR 0x0C, CHR 0x0D, CHR 0x09]" "\<not> ?n < 0x20"
    | "c \<notin> set [CHR 0x22, CHR 0x5C, CHR 0x0A, CHR 0x08, CHR 0x0C, CHR 0x0D, CHR 0x09]" "?n < 0x20"
    by blast
  then show thesis
  proof cases
    case 1
    then show thesis using that(2) by (auto simp: defs)
  next
    case 2
    then have "c \<noteq> NUL" by (auto simp: NUL_def)
    then show thesis using 2 that(1) by (simp add: defs)
  next
    case 3
    have hi: "hex_check (to_hex (?n div 16))" "from_hex (to_hex (?n div 16)) = word_of_nat (?n div 16)"
      and lo: "hex_check (to_hex (?n mod 16))" "from_hex (to_hex (?n mod 16)) = word_of_nat (?n mod 16)"
      using 3(2) from_hex_to_hex [of "?n div 16"] from_hex_to_hex [of "?n mod 16"] by auto
    have "push_bit 4 (word_of_nat (?n div 16)) + word_of_nat (?n mod 16) = (word_of_nat ?n :: u32)"
    proof -
      have "push_bit 4 (word_of_nat (?n div 16)) + word_of_nat (?n mod 16)
          = (word_of_nat (?n div 16 * 16 + ?n mod 16) :: u32)"
        by (simp only: push_bit_eq_mult of_nat_add of_nat_mult) simp
      then show ?thesis by simp
    qed
    moreover have zero: "from_hex (CHR ''0'') = 0" by (simp add: from_hex_def)
    moreover have "\<not> 0x80 \<le> (word_of_nat ?n :: u32)" "\<not> 0x800 \<le> (word_of_nat ?n :: u32)"
      using 3(2) by (simp_all add: word_le_nat_alt unat_of_nat)
    ultimately have "utf8_code (push_bit 12 (from_hex (CHR ''0'')) + push_bit 8 (from_hex (CHR ''0''))
         + push_bit 4 (from_hex (to_hex (?n div 16))) + from_hex (to_hex (?n mod 16))) = [c]"
      using 3(2) zero by (simp add: hi(2) lo(2) utf8_code_def low_char_of_nat)
    moreover have "escape_char c = [CHR 0x5C, CHR ''u'', CHR ''0'', CHR ''0'', to_hex (?n div 16), to_hex (?n mod 16)]"
      using 3 by (simp add: defs)
    ultimately show thesis using that(3) hi(1) lo(1) by blast
  qed
qed

lemma unescape_escape: "unescape (escape s) = Some s"
proof (induction s)
  case (Cons c s)
  have e: "escape (c # s) = escape_char c @ escape s" by (simp add: escape_def)
  show ?case
    by (cases c rule: escape_char_cases) (simp_all add: e Cons Let_def)
qed (simp add: escape_def)

lemma escape_plain: "CHR 0x5C \<notin> set (escape s) \<Longrightarrow> escape s = s"
proof (induction s)
  case (Cons c s)
  have e: "escape (c # s) = escape_char c @ escape s" by (simp add: escape_def)
  show ?case
    using Cons by (cases c rule: escape_char_cases) (auto simp: e)
qed (simp add: escape_def)

lemma string_loop_escape:
  "string_loop acc e (escape s @ CHR 0x22 # r) = Some (RString (acc @ escape s) (e \<or> CHR 0x5C \<in> set (escape s)), r)"
proof (induction s arbitrary: acc e)
  case Nil
  then show ?case by (simp add: escape_def string_loop.simps [of acc e] NUL_def)
next
  case (Cons c s)
  have e: "escape (c # s) = escape_char c @ escape s" by (simp add: escape_def)
  show ?case
  proof (cases c rule: escape_char_cases)
    case 1
    then show ?thesis
      by (simp add: e string_loop.simps [of acc _ "c # x" for x] Cons)
  next
    case (2 d)
    then show ?thesis
      by (simp add: e string_loop.simps [of acc _ "CHR 0x5C # d # x" for x] Cons NUL_def)
  next
    case (3 h1 h2)
    have "hex_check (CHR ''0'')" by (simp add: hex_check_def char_between_def)
    then show ?thesis
      using 3 by (simp add: e string_loop.simps [of acc _ "CHR 0x5C # x" for x] Cons NUL_def)
  qed
qed

lemma decode_dump_string:
  "decode_string (dump_string s @ r) = Some (RString (escape s) (CHR 0x5C \<in> set (escape s)), r)"
  using string_loop_escape [of "[]" False s r] by (simp add: decode_string_def dump_string_def consume_def)

lemma string_text_escape: "string_text (escape s) (CHR 0x5C \<in> set (escape s)) = Some s"
  using unescape_escape [of s] escape_plain [of s] by (simp add: string_text_def)

section \<open>Numbers\<close>

lemma char_48: "char_of (48 :: nat) = CHR ''0''"
  by code_simp

lemma nat_string_hd:
  "\<exists>c cs. nat_string n = c # cs \<and> (n = 0 \<longrightarrow> c = CHR ''0'' \<and> cs = [])
     \<and> (0 < n \<longrightarrow> char_between (CHR ''1'') (CHR ''9'') c)"
proof (induction n rule: nat_string.induct)
  case (1 n)
  show ?case
  proof (cases "n < 10")
    case True
    moreover have "0 < n \<Longrightarrow> n < 10 \<Longrightarrow> char_between (CHR ''1'') (CHR ''9'') (digit_char n)"
      by (simp add: char_between_def of_char_digit_char)
    ultimately show ?thesis by (simp add: nat_string.simps [of n]) (simp add: digit_char_def char_48)
  next
    case False
    then have "0 < n div 10" by simp
    then obtain c cs where "nat_string (n div 10) = c # cs" "char_between (CHR ''1'') (CHR ''9'') c"
      using 1 [OF False] by auto
    then show ?thesis using False by (simp add: nat_string.simps [of n])
  qed
qed

lemma number_step_stop: "\<not> number_char (peek r) \<Longrightarrow> number_step st r = None"
  by (auto simp: number_step_def Let_def number_char_def is_digit_def char_between_def)

lemma dropWhile_stop: "\<not> number_char (peek r) \<Longrightarrow> takeWhile is_digit r = [] \<and> dropWhile is_digit r = r"
  by (cases r) (auto simp: number_char_def)

lemma number_loop_nat:
  assumes "\<not> number_char (peek r)" and "st = Minus \<or> st = AfterMinus"
  shows "number_loop st acc (nat_string n @ r) = Some (RNumber (acc @ nat_string n), r)"
proof -
  obtain c cs where c: "nat_string n = c # cs" and z: "n = 0 \<longrightarrow> c = CHR ''0'' \<and> cs = []"
    and p: "0 < n \<longrightarrow> char_between (CHR ''1'') (CHR ''9'') c" using nat_string_hd by blast
  have d: "\<forall>x \<in> set cs. is_digit x" using nat_string_digits [of n] c by auto
  have stop: "number_loop ZeroFirst b r = Some (RNumber b, r)" "number_loop Digits b r = Some (RNumber b, r)" for b
    using number_step_stop [OF assms(1)] by (simp_all add: number_loop.simps [of _ b r] accepting_def)
  show ?thesis
  proof (cases "n = 0")
    case True
    then have s: "nat_string n = ''0''" using c z by simp
    show ?thesis
      unfolding s using assms(2) stop
      by (auto simp: number_loop.simps [of _ acc "CHR ''0'' # r"] number_step_def transit_def number_states_def)
  next
    case False
    then have "c \<noteq> CHR ''0''" using p by (auto simp: char_between_def)
    then have "number_step st (c # cs @ r) = Some (Digits, c # cs, r)"
      using False p d assms(2) dropWhile_stop [OF assms(1)]
      by (auto simp: number_step_def transit_def number_states_def takeWhile_append2 dropWhile_append2)
    then show ?thesis
      using assms(2) stop by (auto simp: c number_loop.simps [of _ acc "c # cs @ r"])
  qed
qed

lemma decode_dump_number:
  assumes "\<not> number_char (peek r)"
  shows "decode_number (to_string i @ r) = Some (RNumber (to_string i), r)"
proof (cases "i < 0")
  case True
  then show ?thesis
    using number_loop_nat [OF assms, of AfterMinus "''-''" "nat (- i)"]
    by (simp add: decode_number_def to_string_def number_loop.simps [of Minus "[]"] number_step_def
        char_between_def transit_def number_states_def)
next
  case False
  then show ?thesis using number_loop_nat [OF assms, of Minus "[]"] by (simp add: decode_number_def to_string_def)
qed

section \<open>Documents\<close>

abbreviation compact :: "(string list \<Rightarrow> string list) \<Rightarrow> nat \<Rightarrow> wvalue \<Rightarrow> string" where
  "compact ord lvl v \<equiv> dump_internal ord (- 1) (CHR '' '') lvl v"

lemma compact_simps:
  "compact ord lvl (WList vs) = ''['' @ join '','' (map (compact ord (lvl + 1)) vs) @ '']''"
  "compact ord lvl (WObject kvs) =
     ''{'' @ join '','' (map (\<lambda>(k, text). dump_string k @ '':'' @ text)
        (iterate ord (map (\<lambda>(k, v). (k, compact ord (lvl + 1) v)) kvs))) @ ''}''"
  by (simp_all add: dump_indentation_def)

text \<open>What a value's text starts with: never white space, a bracket or a brace that closes.\<close>

definition value_start :: "char \<Rightarrow> bool" where
  "value_start c \<longleftrightarrow> \<not> json_ws c \<and> c \<noteq> CHR '']'' \<and> c \<noteq> CHR ''}''"

lemma compact_start:
  assumes "plain v"
  shows "\<exists>c cs. compact ord lvl v = c # cs \<and> value_start c"
proof -
  have num: "\<exists>c cs. to_string i = c # cs \<and> value_start c" for i
  proof -
    obtain c cs where s: "to_string i = c # cs" by (cases "to_string i") auto
    then have "is_digit c \<or> c = CHR ''-''" using to_string_chars [of c i] by simp
    then have "value_start c" by (auto simp: value_start_def json_ws_def is_digit_def char_between_def)
    then show ?thesis using s by blast
  qed
  show ?thesis
    using assms num by (cases v) (auto simp: compact_simps value_start_def json_ws_def dump_string_def simp del: dump_internal.simps(8,9))
qed

lemma value_start_skip:
  "value_start c \<Longrightarrow> ws_skip (c # s) = c # s" "value_start c \<Longrightarrow> peek (c # s) \<noteq> CHR '']''"
  "value_start c \<Longrightarrow> peek (c # s) \<noteq> CHR ''}''"
  by (auto simp: value_start_def ws_skip_def)

lemma ws_skip_simps [simp]:
  "ws_skip (CHR '','' # s) = CHR '','' # s" "ws_skip (CHR '':'' # s) = CHR '':'' # s"
  "ws_skip (CHR ''}'' # s) = CHR ''}'' # s" "ws_skip (CHR 0x22 # s) = CHR 0x22 # s"
  by (simp_all add: ws_skip_def json_ws_def)

lemma number_char_punct [simp]:
  "\<not> number_char (CHR '','')" "\<not> number_char (CHR '']'')" "\<not> number_char (CHR ''}'')" "\<not> number_char NUL"
  by (simp_all add: number_char_def is_digit_def char_between_def NUL_def)

text \<open>One value read back, in any context that does not continue a number.\<close>

definition reads_back :: "(string list \<Rightarrow> string list) \<Rightarrow> wvalue \<Rightarrow> bool" where
  "reads_back ord v \<longleftrightarrow>
     (\<forall>d lvl r. d + 2 * wdepth v \<le> max_depth + 1 \<longrightarrow> \<not> number_char (peek r) \<longrightarrow>
        (\<exists>u. decode_value d (compact ord lvl v @ r) = Some (u, r) \<and> rview u = wview ord v))"

lemma reads_backD:
  "reads_back ord v \<Longrightarrow> d + 2 * wdepth v \<le> max_depth + 1 \<Longrightarrow> \<not> number_char (peek r) \<Longrightarrow>
   \<exists>u. decode_value d (compact ord lvl v @ r) = Some (u, r) \<and> rview u = wview ord v"
  unfolding reads_back_def by blast

lemma join_Cons: "join sep (x # xs) = (if xs = [] then x else x @ sep @ join sep xs)"
  by (cases xs) auto

lemma list_loop_compact:
  assumes "vs \<noteq> []" and "\<forall>v \<in> set vs. plain v \<and> reads_back ord v \<and> d + 1 + 2 * wdepth v \<le> max_depth + 1"
  shows "\<exists>us. list_loop d (join '','' (map (compact ord lvl) vs) @ '']'' @ r) = Some (us, r)
    \<and> map rview us = map (wview ord) vs"
  using assms
proof (induction vs)
  case (Cons v vs)
  show ?case
  proof (cases "vs = []")
    case True
    have "\<not> number_char (peek ('']'' @ r))" by simp
    then obtain u where "decode_value (d + 1) (compact ord lvl v @ '']'' @ r) = Some (u, '']'' @ r)" "rview u = wview ord v"
      using Cons.prems(2) unfolding reads_back_def by (meson list.set_intros(1))
    then show ?thesis using True by (subst list_loop.simps) simp
  next
    case False
    let ?rest = "join '','' (map (compact ord lvl) vs) @ '']'' @ r"
    have "\<not> number_char (peek ('','' @ ?rest))" by simp
    then obtain u where u: "decode_value (d + 1) (compact ord lvl v @ '','' @ ?rest) = Some (u, '','' @ ?rest)"
        "rview u = wview ord v"
      using Cons.prems(2) unfolding reads_back_def by (meson list.set_intros(1))
    obtain us where us: "list_loop d ?rest = Some (us, r)" "map rview us = map (wview ord) vs"
      using Cons False by auto
    obtain v' vs' where vs: "vs = v' # vs'" using False by (cases vs) auto
    then obtain c cs where "compact ord lvl v' = c # cs" "value_start c"
      using compact_start [of v' ord lvl] Cons.prems(2) by auto
    then have "ws_skip ?rest = ?rest" by (simp add: vs join_Cons value_start_skip)
    then show ?thesis
      using False u us by (subst list_loop.simps) (simp add: join_Cons consume_def)
  qed
qed simp

abbreviation member_text :: "(string list \<Rightarrow> string list) \<Rightarrow> nat \<Rightarrow> string \<times> wvalue \<Rightarrow> string" where
  "member_text ord lvl kv \<equiv> dump_string (fst kv) @ '':'' @ compact ord lvl (snd kv)"

lemma object_step:
  assumes "plain v" and "decode_value (d + 1) (compact ord lvl v @ r) = Some (u, r)"
  shows "decode_string (member_text ord lvl (k, v) @ r)
      = Some (RString (escape k) (CHR 0x5C \<in> set (escape k)), CHR '':'' # compact ord lvl v @ r)"
    and "decode_value (d + 1) (ws_skip (compact ord lvl v @ r)) = Some (u, r)"
proof -
  obtain c cs where "compact ord lvl v = c # cs" "value_start c" using compact_start [OF assms(1)] by blast
  then have "ws_skip (compact ord lvl v @ r) = compact ord lvl v @ r" by (simp add: value_start_skip)
  then show "decode_value (d + 1) (ws_skip (compact ord lvl v @ r)) = Some (u, r)" using assms(2) by simp
  show "decode_string (member_text ord lvl (k, v) @ r)
      = Some (RString (escape k) (CHR 0x5C \<in> set (escape k)), CHR '':'' # compact ord lvl v @ r)"
    using decode_dump_string [of k "'':'' @ compact ord lvl v @ r"] by simp
qed

lemma object_loop_one:
  assumes "decode_string s = Some (RString raw e, CHR '':'' # q)" and "string_text raw e = Some key"
    and "decode_value (d + 1) (ws_skip q) = Some (u, CHR ''}'' # r)"
  shows "object_loop d s = Some ([(key, u)], r)"
  using assms by (subst object_loop.simps) (simp add: consume_def)

lemma object_loop_more:
  assumes "decode_string s = Some (RString raw e, CHR '':'' # q)" and "string_text raw e = Some key"
    and "decode_value (d + 1) (ws_skip q) = Some (u, CHR '','' # q')"
    and "object_loop d (ws_skip q') = Some (us, r)"
  shows "object_loop d s = Some ((key, u) # us, r)"
  using assms by (subst object_loop.simps) (simp add: consume_def)

lemma object_loop_compact:
  assumes "kvs \<noteq> []"
    and "\<forall>kv \<in> set kvs. plain (snd kv) \<and> reads_back ord (snd kv) \<and> d + 1 + 2 * wdepth (snd kv) \<le> max_depth + 1"
  shows "\<exists>us. object_loop d (join '','' (map (member_text ord lvl) kvs) @ ''}'' @ r) = Some (us, r)
    \<and> map (\<lambda>(k, v). (k, rview v)) us = map (\<lambda>(k, v). (k, wview ord v)) kvs"
  using assms
proof (induction kvs)
  case (Cons kv kvs)
  obtain k v where kv: "kv = (k, v)" by (cases kv)
  have pl: "plain v" using Cons.prems(2) kv by simp
  show ?case
  proof (cases "kvs = []")
    case True
    have "\<not> number_char (peek (''}'' @ r))" by simp
    with reads_backD [of ord v "d + 1" "''}'' @ r" lvl] Cons.prems(2) kv
    obtain u where u: "decode_value (d + 1) (compact ord lvl v @ ''}'' @ r) = Some (u, ''}'' @ r)" "rview u = wview ord v"
      by force
    note st = object_step [OF pl u(1)]
    have "object_loop d (member_text ord lvl (k, v) @ ''}'' @ r) = Some ([(k, u)], r)"
      by (rule object_loop_one [OF st(1) string_text_escape [of k]]) (use st(2) in \<open>simp only: append.simps\<close>)
    then show ?thesis using True u(2) by (simp add: kv)
  next
    case False
    let ?rest = "join '','' (map (member_text ord lvl) kvs) @ ''}'' @ r"
    have "\<not> number_char (peek ('','' @ ?rest))" by simp
    with reads_backD [of ord v "d + 1" "'','' @ ?rest" lvl] Cons.prems(2) kv
    obtain u where u: "decode_value (d + 1) (compact ord lvl v @ '','' @ ?rest) = Some (u, '','' @ ?rest)"
        "rview u = wview ord v" by force
    obtain us where us: "object_loop d ?rest = Some (us, r)"
        "map (\<lambda>(k, v). (k, rview v)) us = map (\<lambda>(k, v). (k, wview ord v)) kvs"
      using Cons False by auto
    obtain v' vs' where vs: "kvs = v' # vs'" using False by (cases kvs) auto
    have "ws_skip ?rest = ?rest" by (simp add: vs join_Cons dump_string_def)
    then have r: "object_loop d (ws_skip ?rest) = Some (us, r)" using us by simp
    note st = object_step [OF pl u(1)]
    have "object_loop d (member_text ord lvl (k, v) @ '','' @ ?rest) = Some ((k, u) # us, r)"
      by (rule object_loop_more [OF st(1) string_text_escape [of k] _ r]) (use st(2) in \<open>simp only: append.simps\<close>)
    moreover have "join '','' (map (member_text ord lvl) (kv # kvs)) @ ''}'' @ r
        = member_text ord lvl (k, v) @ '','' @ ?rest"
      using False by (simp add: kv join_Cons)
    ultimately show ?thesis using u(2) us(2) by (metis (no_types, lifting) case_prod_conv kv list.simps(9))
  qed
qed simp

lemma reads_back_list:
  assumes "\<forall>v \<in> set vs. plain v \<and> reads_back ord v"
  shows "reads_back ord (WList vs)"
  unfolding reads_back_def
proof (intro allI impI)
  fix d lvl r assume d: "d + 2 * wdepth (WList vs) \<le> max_depth + 1"
  have depth: "\<not> max_depth < d + 1" using d by simp
  show "\<exists>u. decode_value d (compact ord lvl (WList vs) @ r) = Some (u, r) \<and> rview u = wview ord (WList vs)"
  proof (cases vs)
    case Nil
    then show ?thesis
      using depth by (simp add: compact_simps decode_value.simps decode_list.simps consume_def del: dump_internal.simps)
  next
    case (Cons v ws)
    let ?t = "join '','' (map (compact ord (lvl + 1)) vs) @ '']'' @ r"
    have "\<forall>v \<in> set vs. plain v \<and> reads_back ord v \<and> d + 1 + 1 + 2 * wdepth v \<le> max_depth + 1"
      using assms d fold_max_le [of _ "map wdepth vs" 0] by fastforce
    then obtain us where us: "list_loop (d + 1) ?t = Some (us, r)" "map rview us = map (wview ord) vs"
      using list_loop_compact [of vs ord "d + 1" "lvl + 1" r] Cons by auto
    obtain c cs where c: "compact ord (lvl + 1) v = c # cs" "value_start c"
      using compact_start [of v ord "lvl + 1"] assms Cons by auto
    then have t: "ws_skip ?t = ?t" "peek ?t \<noteq> CHR '']''"
      by (simp_all add: Cons join_Cons value_start_skip) (simp add: value_start_def)
    have "compact ord lvl (WList vs) @ r = CHR ''['' # ?t" by (simp add: compact_simps del: dump_internal.simps)
    then show ?thesis
      using depth t us by (simp add: decode_value.simps decode_list.simps consume_def del: dump_internal.simps)
  qed
qed

lemma reads_back_object:
  assumes "key_order ord" and "distinct (map fst kvs)" and "\<forall>kv \<in> set kvs. plain (snd kv) \<and> reads_back ord (snd kv)"
  shows "reads_back ord (WObject kvs)"
  unfolding reads_back_def
proof (intro allI impI)
  fix d lvl r assume d: "d + 2 * wdepth (WObject kvs) \<le> max_depth + 1"
  have depth: "\<not> max_depth < d + 1" using d by simp
  let ?it = "iterate ord kvs"
  let ?t = "join '','' (map (member_text ord (lvl + 1)) ?it) @ ''}'' @ r"
  have set: "set ?it = set kvs" using iterate_set assms by blast
  have tx: "compact ord lvl (WObject kvs) @ r = CHR ''{'' # ?t"
    by (simp add: compact_simps iterate_map [OF assms(1)] split_beta comp_def del: dump_internal.simps)
  show "\<exists>u. decode_value d (compact ord lvl (WObject kvs) @ r) = Some (u, r) \<and> rview u = wview ord (WObject kvs)"
  proof (cases "?it")
    case Nil
    then show ?thesis
      unfolding tx using depth
      by (simp add: decode_value.simps decode_object.simps consume_def iterate_map [OF assms(1)])
  next
    case (Cons kv ws)
    have "\<forall>kv \<in> set ?it. plain (snd kv) \<and> reads_back ord (snd kv) \<and> d + 1 + 1 + 2 * wdepth (snd kv) \<le> max_depth + 1"
      using assms(3) d fold_max_le [of _ "map (\<lambda>kv. wdepth (snd kv)) kvs" 0] unfolding set by fastforce
    then obtain us where us: "object_loop (d + 1) ?t = Some (us, r)"
        "map (\<lambda>(k, v). (k, rview v)) us = map (\<lambda>(k, v). (k, wview ord v)) ?it"
      using object_loop_compact [of ?it ord "d + 1" "lvl + 1" r] Cons by auto
    have "ws_skip ?t = ?t" "peek ?t \<noteq> CHR ''}''" by (simp_all add: Cons join_Cons dump_string_def)
    then show ?thesis
      unfolding tx using depth us
      by (simp add: decode_value.simps decode_object.simps consume_def iterate_map [OF assms(1)])
  qed
qed

lemma decode_literal_append: "decode_literal w u (w @ r) = Some (u, r)"
  by (simp add: decode_literal_def)

lemma decode_value_scalar:
  "peek s \<noteq> CHR ''['' \<Longrightarrow> peek s \<noteq> CHR ''{'' \<Longrightarrow> decode_value d s = decode_scalar s"
  by (simp add: decode_value.simps)

lemma decode_value_number:
  assumes "\<not> number_char (peek r)"
  shows "decode_value d (to_string i @ r) = Some (RNumber (to_string i), r)"
proof -
  obtain c cs where s: "to_string i = c # cs" by (cases "to_string i") auto
  then have "is_digit c \<or> c = CHR ''-''" using to_string_chars [of c i] by simp
  then have "c \<noteq> CHR ''['' \<and> c \<noteq> CHR ''{'' \<and> c \<noteq> CHR 0x22 \<and> c \<noteq> CHR ''t'' \<and> c \<noteq> CHR ''f'' \<and> c \<noteq> CHR ''n''"
    by (auto simp: is_digit_def char_between_def)
  then have "decode_value d (to_string i @ r) = decode_number (to_string i @ r)"
    by (simp add: s decode_value_scalar decode_scalar_def)
  then show ?thesis using decode_dump_number [OF assms] by simp
qed

lemma reads_back_scalar:
  "reads_back ord WNull" "reads_back ord WFalse" "reads_back ord WTrue" "reads_back ord (WString s)"
  "reads_back ord (WSigned i)" "reads_back ord (WUnsigned i)" "reads_back ord (WDouble None)"
  using decode_literal_append [of "''null''"] decode_literal_append [of "''true''"] decode_literal_append [of "''false''"]
    decode_dump_string [of s] string_text_escape [of s]
  by (auto simp: reads_back_def decode_value_number decode_value_scalar decode_scalar_def dump_string_def)

lemma plain_reads_back: "key_order ord \<Longrightarrow> plain v \<Longrightarrow> reads_back ord v"
proof (induction v rule: plain.induct)
  case (2 vs)
  then show ?case by (intro reads_back_list) auto
next
  case (3 kvs)
  then show ?case by (intro reads_back_object) auto
qed (auto intro: reads_back_scalar)

text \<open>
  C13: what \<open>dump\<close> writes, \<open>load\<close> reads back. For every value without floating-point numbers, within
  the parser's depth limit, and whatever the iteration order of the map, the dumped text loads to a
  document with the same meaning: every string and key with its bytes, every number with its digits.
\<close>

theorem load_dump:
  assumes "\<forall>ks. mset (ord ks) = mset ks" and "plain v" and "2 * wdepth v \<le> max_depth + 1"
  shows "\<exists>u. load (dump ord v) = Some u \<and> rview u = wview ord v"
proof -
  have k: "key_order ord" using assms(1) by (simp add: key_order_def)
  obtain u where "decode_value 0 (compact ord 0 v @ []) = Some (u, [])" "rview u = wview ord v"
    using plain_reads_back [OF k assms(2)] assms(3) unfolding reads_back_def
    by (metis add_0 number_char_punct(4) peek.simps(1))
  moreover have "ws_skip (compact ord 0 v) = compact ord 0 v"
    using compact_start [OF assms(2), of ord 0] by (auto simp: value_start_skip)
  ultimately show ?thesis by (simp add: load_def parse_def dump_def)
qed

theorem load_dump_witness:
  "\<exists>u. load (dump rev (WObject [(''type'', WString ''a\"b''), (''ts'', WSigned (- 5)), (''l'', WList [WTrue])])) = Some u
     \<and> rview u = wview rev (WObject [(''type'', WString ''a\"b''), (''ts'', WSigned (- 5)), (''l'', WList [WTrue])])"
  by (rule load_dump) (simp_all add: max_depth_def)

section \<open>Floating-point text\<close>

definition kept :: "string \<Rightarrow> string" where
  "kept fp = rev (dropWhile (\<lambda>d. d = CHR ''0'') (rev fp))"

lemma kept_Cons: "kept (d # fp) = (if kept fp = [] then if d = CHR ''0'' then [] else [d] else d # kept fp)"
  by (auto simp: kept_def dropWhile_append)

lemma take_kept: "take (length (kept fp)) fp = kept fp"
  by (induction fp) (auto simp: kept_Cons, simp add: kept_def)

lemma trailing_zero_scan:
  "trailing_zero_loop p Decp None fp = (if length (kept fp) = length fp then None else Some (p + length (kept fp)))"
  "trailing_zero_loop p Zero (Some q) fp =
     (if kept fp = [] then Some q
      else if length (kept fp) = length fp then None else Some (p + length (kept fp)))"
proof (induction fp arbitrary: p q)
  case Nil
  {
    case 1 then show ?case by (simp add: kept_def)
  next
    case 2 then show ?case by (simp add: kept_def)
  }
next
  case (Cons d fp)
  {
    case 1 then show ?case using Cons by (auto simp: kept_Cons)
  next
    case 2 then show ?case using Cons by (auto simp: kept_Cons)
  }
qed

lemma trailing_zero_start:
  "CHR ''.'' \<notin> set ip \<Longrightarrow>
   trailing_zero_loop p Start z (ip @ r) = trailing_zero_loop (p + length ip) Start z r"
  by (induction ip arbitrary: p) auto

text \<open>
  Trailing zeros. The scan keeps the part before the decimal point and the first character
  after it, and cuts the zeros at the end of the text; it does not look at what the text is.
\<close>

lemma trim_zeros_spec:
  assumes "CHR ''.'' \<notin> set ip"
  shows "trim_zeros (ip @ ''.'' @ c # fp) = ip @ ''.'' @ c # rev (dropWhile (\<lambda>d. d = CHR ''0'') (rev fp))"
proof -
  have c: "trailing_zero_loop (length ip) Start None (CHR ''.'' # c # fp)
    = trailing_zero_loop (length ip + 2) Decp None fp"
    by simp
  have "length (kept fp) = length fp \<Longrightarrow> kept fp = fp" using take_kept [of fp] by simp
  then show ?thesis
    using trailing_zero_start [OF assms, of 0 None "CHR ''.'' # c # fp"] trailing_zero_scan(1) [of "length ip + 2" fp] take_kept [of fp]
    by (auto simp: trim_zeros_def c simp flip: kept_def)
qed

lemma exponent_truncated: "dump ord (WDouble (Some ''1.5e+30'')) = ''1.5e+3''"
  by (simp add: dump_def trim_zeros_def)

end
