(* ===== verification/Rng.thy ===== *)
theory Rng
  imports Prelude
begin

text \<open>
  The process's random generator (src/src/util.cpp, \<open>rng\<close> and \<open>randomBytes\<close>): one
  \<open>std::mt19937_64\<close>, seeded once with a single draw of \<open>std::random_device\<close>, from which every
  token, room id, decoy and the captcha secret are cut. The engine is the standard library's
  ([rand.eng.mers], [rand.predef]): its recurrence, seeding and tempering are written out with the
  standard's parameters, so that the only unknown is the 32-bit seed.
\<close>

unbundle bit_operations_syntax

section \<open>std::mt19937_64\<close>

text \<open>The state is the last 312 values of the sequence, the oldest first.\<close>

type_synonym mt = "u64 list"

definition mt_upper_mask :: u64 where "mt_upper_mask = 0xffffffff80000000"
definition mt_lower_mask :: u64 where "mt_lower_mask = 0x7fffffff"

definition mt_temper :: "u64 \<Rightarrow> u64" where
  "mt_temper x0 =
     (let x1 = x0 XOR (drop_bit 29 x0 AND 0x5555555555555555);
          x2 = x1 XOR (push_bit 17 x1 AND 0x71d67fffeda60000);
          x3 = x2 XOR (push_bit 37 x2 AND 0xfff7eee000000000)
      in x3 XOR drop_bit 43 x3)"

definition mt_next :: "mt \<Rightarrow> u64 \<times> mt" where
  "mt_next xs =
     (let y = (xs ! 0 AND mt_upper_mask) OR (xs ! 1 AND mt_lower_mask);
          x = xs ! 156 XOR drop_bit 1 y XOR (if bit y 0 then 0xb5026f5aa96619e9 else 0)
      in (mt_temper x, tl xs @ [x]))"

definition mt_seed :: "u64 \<Rightarrow> mt" where
  "mt_seed s =
     fold (\<lambda>i xs. xs @ [6364136223846793005 * (last xs XOR drop_bit 62 (last xs)) + of_nat i])
       [1..<312] [s]"

lemma length_mt_seed: "length (mt_seed s) = 312"
proof -
  have "length (fold (\<lambda>i xs. xs @ [f i xs]) is ys) = length ys + length is" for f :: "nat \<Rightarrow> u64 list \<Rightarrow> u64" and "is" ys
    by (induction "is" arbitrary: ys) auto
  then show ?thesis by (simp add: mt_seed_def)
qed

lemma length_mt_next: "xs \<noteq> [] \<Longrightarrow> length (snd (mt_next xs)) = length xs"
  by (simp add: mt_next_def Let_def)

section \<open>The program's draws\<close>

text \<open>
  \<open>std::random_device{}()\<close> returns an \<open>unsigned int\<close>: the instance is a function of 32 bits.
\<close>

definition rng_instance :: "u32 \<Rightarrow> mt" where
  "rng_instance seed = mt_seed (ucast seed)"

text \<open>The 64-bit draw is cut into bytes from its low end; the last draw of a buffer may be cut short.\<close>

function randomBytes_from :: "nat \<Rightarrow> nat \<Rightarrow> mt \<Rightarrow> byte list \<times> mt" where
  "randomBytes_from i n g =
     (if i < n
      then let (v, g1) = mt_next g;
               chunk = map (\<lambda>j. ucast (drop_bit (j * 8) v AND 0xFF)) [0..<min 8 (n - i)];
               (rest, g2) = randomBytes_from (i + 8) n g1
           in (chunk @ rest, g2)
      else ([], g))"
  by pat_completeness auto
termination by (relation "measure (\<lambda>(i, n, g). n - i)") auto

declare randomBytes_from.simps [simp del]

definition randomBytes :: "nat \<Rightarrow> mt \<Rightarrow> byte list \<times> mt" where
  "randomBytes n g = randomBytes_from 0 n g"

lemma length_randomBytes_from: "length (fst (randomBytes_from i n g)) = n - i"
proof (induction i n g rule: randomBytes_from.induct)
  case (1 i n g)
  obtain v g1 where nx: "mt_next g = (v, g1)" by fastforce
  show ?case
  proof (cases "i < n")
    case True
    then have "length (fst (randomBytes_from (i + 8) n g1)) = n - (i + 8)"
      using 1 nx by simp
    with True nx show ?thesis
      by (simp add: randomBytes_from.simps [of i n g] split_beta Let_def)
  next
    case False
    then show ?thesis by (simp add: randomBytes_from.simps [of i n g])
  qed
qed

lemma length_randomBytes [simp]: "length (fst (randomBytes n g)) = n"
  by (simp add: randomBytes_def length_randomBytes_from)

lemma length_randomBytes': "randomBytes n g = (bs, g') \<Longrightarrow> length bs = n"
  using length_randomBytes [of n g] by simp

end
