(* ===== verification/Sha256.thy ===== *)
theory Sha256
  imports Prelude
begin

text \<open>
  The bundled SHA-256 (src/src/sha256/sha256.cpp, sha256.h): the hasher's fields, its
  constructor, \<open>update\<close>, \<open>pad\<close>, \<open>transform\<close>, \<open>revert\<close> and \<open>digest\<close>, each as the code computes
  it, byte by byte over a 64-byte block buffer. Below them FIPS 180-4 as a function of the whole
  message, and the proof that the incremental code computes it.
\<close>

unbundle bit_operations_syntax

section \<open>The hasher\<close>

text \<open>
  \<open>m_blocklen\<close> is an index into the buffer, always below 64, so its width plays no part;
  \<open>m_bitlen\<close> is kept at its 64 bits.
\<close>

record sha256 =
  m_data :: "byte list"
  m_blocklen :: nat
  m_bitlen :: u64
  m_state :: "u32 list"

definition sha_K :: "u32 list" where
  "sha_K = [
    0x428A2F98, 0x71374491, 0xB5C0FBCF, 0xE9B5DBA5,
    0x3956C25B, 0x59F111F1, 0x923F82A4, 0xAB1C5ED5,
    0xD807AA98, 0x12835B01, 0x243185BE, 0x550C7DC3,
    0x72BE5D74, 0x80DEB1FE, 0x9BDC06A7, 0xC19BF174,
    0xE49B69C1, 0xEFBE4786, 0x0FC19DC6, 0x240CA1CC,
    0x2DE92C6F, 0x4A7484AA, 0x5CB0A9DC, 0x76F988DA,
    0x983E5152, 0xA831C66D, 0xB00327C8, 0xBF597FC7,
    0xC6E00BF3, 0xD5A79147, 0x06CA6351, 0x14292967,
    0x27B70A85, 0x2E1B2138, 0x4D2C6DFC, 0x53380D13,
    0x650A7354, 0x766A0ABB, 0x81C2C92E, 0x92722C85,
    0xA2BFE8A1, 0xA81A664B, 0xC24B8B70, 0xC76C51A3,
    0xD192E819, 0xD6990624, 0xF40E3585, 0x106AA070,
    0x19A4C116, 0x1E376C08, 0x2748774C, 0x34B0BCB5,
    0x391C0CB3, 0x4ED8AA4A, 0x5B9CCA4F, 0x682E6FF3,
    0x748F82EE, 0x78A5636F, 0x84C87814, 0x8CC70208,
    0x90BEFFFA, 0xA4506CEB, 0xBEF9A3F7, 0xC67178F2]"

definition sha_H0 :: "u32 list" where
  "sha_H0 = [0x6a09e667, 0xbb67ae85, 0x3c6ef372, 0xa54ff53a,
             0x510e527f, 0x9b05688c, 0x1f83d9ab, 0x5be0cd19]"

text \<open>The constructor leaves the block buffer uninitialised: \<open>junk\<close> is what it happens to hold.\<close>

definition sha256_init :: "byte list \<Rightarrow> sha256" where
  "sha256_init junk = \<lparr>m_data = junk, m_blocklen = 0, m_bitlen = 0, m_state = sha_H0\<rparr>"

definition rotr :: "u32 \<Rightarrow> nat \<Rightarrow> u32" where
  "rotr x n = drop_bit n x OR push_bit (32 - n) x"

definition sha_choose :: "u32 \<Rightarrow> u32 \<Rightarrow> u32 \<Rightarrow> u32" where
  "sha_choose e f g = (e AND f) XOR (NOT e AND g)"

definition majority :: "u32 \<Rightarrow> u32 \<Rightarrow> u32 \<Rightarrow> u32" where
  "majority a b c = (a AND (b OR c)) OR (b AND c)"

definition sig0 :: "u32 \<Rightarrow> u32" where
  "sig0 x = rotr x 7 XOR rotr x 18 XOR drop_bit 3 x"

definition sig1 :: "u32 \<Rightarrow> u32" where
  "sig1 x = rotr x 17 XOR rotr x 19 XOR drop_bit 10 x"

text \<open>The 16 words of the block, big endian, and the 48 words computed from them.\<close>

definition block_word :: "byte list \<Rightarrow> nat \<Rightarrow> u32" where
  "block_word d j = push_bit 24 (ucast (d ! j)) OR push_bit 16 (ucast (d ! (j + 1)))
     OR push_bit 8 (ucast (d ! (j + 2))) OR ucast (d ! (j + 3))"

definition schedule_step :: "nat \<Rightarrow> u32 list \<Rightarrow> u32 list" where
  "schedule_step k m = m @ [sig1 (m ! (k - 2)) + m ! (k - 7) + sig0 (m ! (k - 15)) + m ! (k - 16)]"

definition message_words :: "byte list \<Rightarrow> u32 list" where
  "message_words d = fold schedule_step [16..<64] (map (\<lambda>i. block_word d (4 * i)) [0..<16])"

definition sha_round :: "u32 list \<Rightarrow> nat \<Rightarrow> u32 list \<Rightarrow> u32 list" where
  "sha_round m i st =
     (let maj = majority (st ! 0) (st ! 1) (st ! 2);
          xorA = rotr (st ! 0) 2 XOR rotr (st ! 0) 13 XOR rotr (st ! 0) 22;
          ch = sha_choose (st ! 4) (st ! 5) (st ! 6);
          xorE = rotr (st ! 4) 6 XOR rotr (st ! 4) 11 XOR rotr (st ! 4) 25;
          sum = m ! i + sha_K ! i + st ! 7 + ch + xorE;
          newA = xorA + maj + sum;
          newE = st ! 3 + sum
      in [newA, st ! 0, st ! 1, st ! 2, newE, st ! 4, st ! 5, st ! 6])"

definition transform :: "sha256 \<Rightarrow> sha256" where
  "transform h =
     (let m = message_words (m_data h);
          st = fold (sha_round m) [0..<64] (m_state h)
      in h\<lparr>m_state := map2 (+) (m_state h) st\<rparr>)"

definition update_byte :: "byte \<Rightarrow> sha256 \<Rightarrow> sha256" where
  "update_byte b h =
     (let h1 = h\<lparr>m_data := (m_data h)[m_blocklen h := b], m_blocklen := m_blocklen h + 1\<rparr>
      in if m_blocklen h1 = 64
         then let h2 = transform h1 in h2\<lparr>m_bitlen := m_bitlen h2 + 512, m_blocklen := 0\<rparr>
         else h1)"

definition update :: "byte list \<Rightarrow> sha256 \<Rightarrow> sha256" where
  "update data h = fold update_byte data h"

text \<open>\<open>pad\<close>: the 1 bit, the zeros, a second block when the length does not fit, the length.\<close>

definition pad :: "sha256 \<Rightarrow> sha256" where
  "pad h =
     (let bl = m_blocklen h;
          fin = (if bl < 56 then 56 else 64);
          d1 = (m_data h)[bl := 0x80];
          d2 = fold (\<lambda>i d. d[i := 0x00]) [bl + 1..<fin] d1;
          h1 = h\<lparr>m_data := d2\<rparr>;
          h2 = (if 56 \<le> bl
                then let t = transform h1 in t\<lparr>m_data := fold (\<lambda>i d. d[i := 0]) [0..<56] (m_data t)\<rparr>
                else h1);
          n = m_bitlen h2 + of_nat (bl * 8);
          d3 = (m_data h2)[63 := ucast n, 62 := ucast (drop_bit 8 n), 61 := ucast (drop_bit 16 n),
                60 := ucast (drop_bit 24 n), 59 := ucast (drop_bit 32 n), 58 := ucast (drop_bit 40 n),
                57 := ucast (drop_bit 48 n), 56 := ucast (drop_bit 56 n)]
      in transform (h2\<lparr>m_bitlen := n, m_data := d3\<rparr>))"

text \<open>\<open>revert\<close>: byte \<open>i + 4 * j\<close> of the hash is byte \<open>i\<close>, from the top, of state word \<open>j\<close>.\<close>

definition revert :: "sha256 \<Rightarrow> byte list" where
  "revert h = map (\<lambda>p. ucast (drop_bit (24 - (p mod 4) * 8) (m_state h ! (p div 4)) AND 0xff)) [0..<32]"

definition digest :: "sha256 \<Rightarrow> byte list" where
  "digest h = revert (pad h)"

text \<open>
  A hash of one message as the code's callers write it: construct, update, digest. They leave the
  buffer uninitialised; \<open>digest_update\<close> below shows that its content never matters, so zeros stand
  for it here.
\<close>

definition sha256_of :: "byte list \<Rightarrow> byte list" where
  "sha256_of msg = digest (update msg (sha256_init (replicate 64 0)))"

section \<open>FIPS 180-4\<close>

text \<open>
  The standard as a function of the whole message: the padded message is cut into 64-byte blocks
  and the compression function is folded over them. The message schedule \<open>fips_W\<close> is the standard's
  recurrence on the index, majority is written with exclusive or.
\<close>

definition fips_be64 :: "u64 \<Rightarrow> byte list" where
  "fips_be64 n = map (\<lambda>i. ucast (drop_bit (56 - 8 * i) n)) [0..<8]"

definition fips_pad :: "byte list \<Rightarrow> byte list" where
  "fips_pad msg = msg @ [0x80] @ replicate ((119 - length msg mod 64) mod 64) 0
     @ fips_be64 (of_nat (8 * length msg))"

fun fips_W :: "byte list \<Rightarrow> nat \<Rightarrow> u32" where
  "fips_W blk t =
     (if t < 16 then block_word blk (4 * t)
      else sig1 (fips_W blk (t - 2)) + fips_W blk (t - 7) + sig0 (fips_W blk (t - 15)) + fips_W blk (t - 16))"

declare fips_W.simps [simp del]

fun fips_rounds :: "byte list \<Rightarrow> nat \<Rightarrow> u32 list \<Rightarrow> u32 list" where
  "fips_rounds blk 0 st = st"
| "fips_rounds blk (Suc t) st =
     (case fips_rounds blk t st of
        [a, b, c, d, e, f, g, h] \<Rightarrow>
          let T1 = h + (rotr e 6 XOR rotr e 11 XOR rotr e 25) + ((e AND f) XOR (NOT e AND g))
                   + sha_K ! t + fips_W blk t;
              T2 = (rotr a 2 XOR rotr a 13 XOR rotr a 22) + ((a AND b) XOR (a AND c) XOR (b AND c))
          in [T1 + T2, a, b, c, d + T1, e, f, g]
      | _ \<Rightarrow> st)"

definition fips_compress :: "byte list \<Rightarrow> u32 list \<Rightarrow> u32 list" where
  "fips_compress blk H = map2 (+) H (fips_rounds blk 64 H)"

fun blocks64 :: "byte list \<Rightarrow> byte list list" where
  "blocks64 bs = (if length bs < 64 then [] else take 64 bs # blocks64 (drop 64 bs))"

declare blocks64.simps [simp del]

definition fips_sha256 :: "byte list \<Rightarrow> byte list" where
  "fips_sha256 msg =
     concat (map (\<lambda>w. [ucast (drop_bit 24 w), ucast (drop_bit 16 w), ucast (drop_bit 8 w), ucast w])
       (fold fips_compress (blocks64 (fips_pad msg)) sha_H0))"

section \<open>The incremental code computes FIPS 180-4\<close>

lemma majority_xor: "majority a b c = (a AND b) XOR (a AND c) XOR (b AND c)"
  unfolding majority_def by (rule bit_eqI) (auto simp: bit_simps)

lemma schedule_prefix:
  "length (fold schedule_step [16..<16 + n] (map (\<lambda>i. block_word d (4 * i)) [0..<16])) = 16 + n \<and>
   (\<forall>t < 16 + n. fold schedule_step [16..<16 + n] (map (\<lambda>i. block_word d (4 * i)) [0..<16]) ! t = fips_W d t)"
  (is "length (?m n) = _ \<and> _")
proof (induction n)
  case 0
  then show ?case by (simp add: fips_W.simps)
next
  case (Suc n)
  have "[16..<16 + Suc n] = [16..<16 + n] @ [16 + n]"
    using upt_Suc_append [of 16 "16 + n"] by simp
  then have "?m (Suc n) = schedule_step (16 + n) (?m n)" by (simp only: fold_append fold_simps comp_apply)
  moreover have "schedule_step (16 + n) (?m n) ! t = fips_W d t" if "t < 17 + n" for t
  proof (cases "t < 16 + n")
    case True
    then show ?thesis using Suc.IH by (simp add: schedule_step_def nth_append)
  next
    case False
    then have "t = 16 + n" using that by simp
    then show ?thesis
      using Suc.IH by (simp add: schedule_step_def nth_append fips_W.simps [of d "16 + n"])
  qed
  ultimately show ?case
    using Suc.IH by (auto simp: schedule_step_def)
qed

lemma message_words_W: "t < 64 \<Longrightarrow> message_words d ! t = fips_W d t"
  using schedule_prefix [of 48 d] by (simp add: message_words_def)

lemma list8: "length xs = 8 \<Longrightarrow> \<exists>a b c d e f g h. xs = [a, b, c, d, e, f, g, h]"
  by (auto simp: length_Suc_conv numeral_eq_Suc)

lemma sha_rounds_prefix:
  assumes "length st = 8" and "n \<le> 64"
  shows "fold (sha_round (message_words d)) [0..<n] st = fips_rounds d n st \<and> length (fips_rounds d n st) = 8"
  using assms(2)
proof (induction n)
  case 0
  then show ?case by (simp add: assms(1))
next
  case (Suc n)
  then obtain a b c x e f g h where eq: "fips_rounds d n st = [a, b, c, x, e, f, g, h]"
    using list8 by (metis Suc_leD)
  have "fold (sha_round (message_words d)) [0..<Suc n] st
        = sha_round (message_words d) n (fold (sha_round (message_words d)) [0..<n] st)"
    by simp
  also have "\<dots> = sha_round (message_words d) n [a, b, c, x, e, f, g, h]"
    using Suc by (simp add: eq)
  also have "\<dots> = fips_rounds d (Suc n) st"
    using Suc.prems
    by (simp add: eq message_words_W sha_round_def majority_xor sha_choose_def Let_def ac_simps)
  finally show ?case
    by (simp add: eq Let_def)
qed

lemma transform_compress:
  "length (m_state h) = 8 \<Longrightarrow>
   transform h = h\<lparr>m_state := fips_compress (m_data h) (m_state h)\<rparr>"
  using sha_rounds_prefix [of "m_state h" 64 "m_data h"]
  by (simp add: transform_def fips_compress_def)

lemma length_compress: "length H = 8 \<Longrightarrow> length (fips_compress blk H) = 8"
  using sha_rounds_prefix [of H 64 blk] by (simp add: fips_compress_def)

lemma length_fold_compress: "length H = 8 \<Longrightarrow> length (fold fips_compress bs H) = 8"
  by (rule fold_invariant_pres) (auto simp: length_compress)

lemma blocks64_short [simp]: "length bs < 64 \<Longrightarrow> blocks64 bs = []"
  by (simp add: blocks64.simps [of bs])

lemma blocks64_Cons: "length b = 64 \<Longrightarrow> blocks64 (b @ bs) = b # blocks64 bs"
  by (simp add: blocks64.simps [of "b @ bs"])

lemma blocks64_single [simp]: "length b = 64 \<Longrightarrow> blocks64 b = [b]"
  using blocks64_Cons [of b "[]"] by simp

lemma blocks64_append:
  "length xs = 64 * k \<Longrightarrow> blocks64 (xs @ ys) = blocks64 xs @ blocks64 ys"
proof (induction k arbitrary: xs)
  case 0
  then show ?case by simp
next
  case (Suc k)
  define b r where "b = take 64 xs" and "r = drop 64 xs"
  have xs: "xs = b @ r" and b: "length b = 64" and r: "length r = 64 * k"
    using Suc.prems by (auto simp: b_def r_def)
  have "blocks64 (xs @ ys) = b # blocks64 (r @ ys)"
    using b by (simp add: xs blocks64_Cons)
  then show ?case
    using Suc.IH [OF r] b by (simp add: xs blocks64_Cons)
qed

text \<open>What the hasher's fields hold after \<open>msg\<close> has gone in.\<close>

definition absorbed :: "byte list \<Rightarrow> sha256 \<Rightarrow> bool" where
  "absorbed msg h \<longleftrightarrow>
     length (m_data h) = 64 \<and>
     m_blocklen h = length msg mod 64 \<and>
     take (m_blocklen h) (m_data h) = drop (64 * (length msg div 64)) msg \<and>
     m_bitlen h = of_nat (512 * (length msg div 64)) \<and>
     m_state h = fold fips_compress (blocks64 (take (64 * (length msg div 64)) msg)) sha_H0"

lemma absorbed_state_length: "absorbed msg h \<Longrightarrow> length (m_state h) = 8"
  by (simp add: absorbed_def length_fold_compress sha_H0_def)

lemma absorbed_init: "length junk = 64 \<Longrightarrow> absorbed [] (sha256_init junk)"
  by (simp add: absorbed_def sha256_init_def)

lemma absorbed_update_byte:
  assumes "absorbed msg h"
  shows "absorbed (msg @ [b]) (update_byte b h)"
proof -
  define k where "k = length msg div 64"
  define tl where "tl = drop (64 * k) msg"
  have len: "length msg = 64 * k + m_blocklen h" and bl: "m_blocklen h < 64"
    using assms by (auto simp: absorbed_def k_def)
  have dat: "take (m_blocklen h) (m_data h) = tl" and ld: "length (m_data h) = 64"
    and bits: "m_bitlen h = of_nat (512 * k)"
    and st: "m_state h = fold fips_compress (blocks64 (take (64 * k) msg)) sha_H0"
    using assms by (auto simp: absorbed_def k_def tl_def)
  have ltl: "length tl = m_blocklen h"
    using len by (simp add: tl_def)
  have upd: "take (Suc (m_blocklen h)) ((m_data h)[m_blocklen h := b]) = tl @ [b]"
    using bl ld dat by (simp add: take_Suc_conv_app_nth)
  show ?thesis
  proof (cases "m_blocklen h = 63")
    case False
    with bl have "(length (msg @ [b])) div 64 = k" and "length (msg @ [b]) mod 64 = Suc (m_blocklen h)"
      using len by auto
    then show ?thesis
      using False upd ld bits st len by (simp add: absorbed_def update_byte_def tl_def)
  next
    case True
    have full: "(m_data h)[m_blocklen h := b] = tl @ [b]"
      using upd ld True by simp
    have k': "length (msg @ [b]) div 64 = Suc k" "length (msg @ [b]) mod 64 = 0"
      using len True by auto
    have split: "msg @ [b] = take (64 * k) msg @ (tl @ [b])"
      by (simp add: tl_def)
    have "blocks64 (msg @ [b]) = blocks64 (take (64 * k) msg) @ [tl @ [b]]"
      unfolding split using len True
      by (subst blocks64_append [of _ k]) (auto simp: tl_def blocks64_Cons [of "tl @ [b]" "[]", simplified])
    then show ?thesis
      using True full k' ld bits st len absorbed_state_length [OF assms] ltl
      by (simp add: absorbed_def update_byte_def Let_def transform_compress algebra_simps)
  qed
qed

lemma absorbed_update: "absorbed msg h \<Longrightarrow> absorbed (msg @ data) (update data h)"
proof (induction data arbitrary: msg h)
  case Nil
  then show ?case by (simp add: update_def)
next
  case (Cons b data)
  then have "absorbed ((msg @ [b]) @ data) (update data (update_byte b h))"
    by (blast intro: absorbed_update_byte)
  then show ?case by (simp add: update_def)
qed
lemma length_be64 [simp]: "length (fips_be64 n) = 8"
  by (simp add: fips_be64_def)

lemma update_len_bytes:
  assumes "length d = 64"
  shows "d[63 := ucast n, 62 := ucast (drop_bit 8 n), 61 := ucast (drop_bit 16 n),
           60 := ucast (drop_bit 24 n), 59 := ucast (drop_bit 32 n), 58 := ucast (drop_bit 40 n),
           57 := ucast (drop_bit 48 n), 56 := ucast (drop_bit 56 n)] = take 56 d @ fips_be64 n"
proof -
  have be: "fips_be64 n = [ucast (drop_bit 56 n), ucast (drop_bit 48 n), ucast (drop_bit 40 n),
      ucast (drop_bit 32 n), ucast (drop_bit 24 n), ucast (drop_bit 16 n), ucast (drop_bit 8 n), ucast n]"
    by (simp add: fips_be64_def upt_rec)
  show ?thesis
    by (rule nth_equalityI) (auto simp: assms be nth_append nth_list_update nth_Cons' less_diff_conv2)
qed

text \<open>The zeros that fill the block from the byte after the 1 bit.\<close>

lemma zero_fill:
  assumes "length d = 64" and "bl < fin" and "fin \<le> 64"
  shows "fold (\<lambda>i d. d[i := 0]) [Suc bl..<fin] (d[bl := 0x80])
    = take bl d @ [0x80] @ replicate (fin - bl - 1) 0 @ drop fin (d :: byte list)"
  using assms
  by (intro nth_equalityI) (auto simp: nth_list_update_fold nth_append nth_Cons' nth_list_update)

lemma zero_prefix:
  assumes "length d = 64"
  shows "fold (\<lambda>i d. d[i := 0]) [0..<56] (d :: byte list) = replicate 56 0 @ drop 56 d"
  using assms by (intro nth_equalityI) (auto simp: nth_list_update_fold nth_append)

lemma revert_bytes:
  assumes "length (m_state h) = 8"
  shows "revert h = concat (map (\<lambda>w. [ucast (drop_bit 24 w), ucast (drop_bit 16 w), ucast (drop_bit 8 w), ucast w])
     (m_state h))"
proof -
  have m: "ucast (w AND 0xff :: u32) = (ucast w :: byte)" for w
  proof -
    have "(0xff :: u32) = mask 8" by (simp add: mask_eq_exp_minus_1)
    then have "bit (0xff :: u32) i = (i < 8)" if "i < 8" for i
      using that by (simp only: bit_mask_iff) simp
    then show ?thesis by (intro bit_eqI) (auto simp: bit_simps)
  qed
  obtain a b c d e f g k where "m_state h = [a, b, c, d, e, f, g, k]"
    using list8 [OF assms] by blast
  then show ?thesis
    by (simp add: revert_def upt_rec m)
qed

lemma digest_update:
  assumes "length junk = 64"
  shows "digest (update msg (sha256_init junk)) = fips_sha256 msg"
proof -
  define h where "h = update msg (sha256_init junk)"
  define k where "k = length msg div 64"
  define tl where "tl = drop (64 * k) msg"
  define bl where "bl = m_blocklen h"
  have ab: "absorbed msg h"
    unfolding h_def using absorbed_update [OF absorbed_init [OF assms], of msg] by simp
  have len: "length msg = 64 * k + bl" and bl: "bl < 64" and ltl: "length tl = bl"
    using ab by (auto simp: absorbed_def k_def bl_def tl_def minus_mult_div_eq_mod)
  have dat: "take bl (m_data h) = tl" and ld: "length (m_data h) = 64"
    and bits: "m_bitlen h = of_nat (512 * k)"
    and st: "m_state h = fold fips_compress (blocks64 (take (64 * k) msg)) sha_H0"
    using ab by (auto simp: absorbed_def k_def bl_def tl_def)
  have st8: "length (m_state h) = 8"
    using ab by (rule absorbed_state_length)
  have n: "m_bitlen h + of_nat (bl * 8) = of_nat (8 * length msg)"
    by (simp add: bits len algebra_simps)
  have split: "fips_pad msg = take (64 * k) msg @
      (tl @ [0x80] @ replicate ((119 - length msg mod 64) mod 64) 0 @ fips_be64 (of_nat (8 * length msg)))"
    by (simp add: fips_pad_def tl_def)
  have blocks: "blocks64 (fips_pad msg) = blocks64 (take (64 * k) msg) @
      blocks64 (tl @ [0x80] @ replicate ((119 - bl) mod 64) 0 @ fips_be64 (of_nat (8 * length msg)))"
    unfolding split using len bl by (subst blocks64_append [of _ k]) auto
  have "m_state (pad h) = fold fips_compress (blocks64 (fips_pad msg)) sha_H0 \<and> length (m_state (pad h)) = 8"
  proof (cases "bl < 56")
    case True
    then have "(119 - bl) mod 64 = 55 - bl"
      by (simp add: mod_if)
    then show ?thesis
      using True bl ld dat st8 st n
      by (simp add: pad_def Let_def bl_def [symmetric] zero_fill update_len_bytes transform_compress
          blocks ltl length_compress take_Cons')
  next
    case False
    then have "(119 - bl) mod 64 = (63 - bl) + 56"
      using bl by simp
    then have z: "replicate ((119 - bl) mod 64) (0 :: byte) = replicate (63 - bl) 0 @ replicate 56 0"
      by (simp only: replicate_add)
    have "blocks64 ((tl @ 0x80 # replicate (63 - bl) 0) @ (replicate 56 0 @ fips_be64 x))
        = [tl @ 0x80 # replicate (63 - bl) 0, replicate 56 0 @ fips_be64 x]" for x
      using bl ltl by (subst blocks64_Cons) auto
    then have "blocks64 (fips_pad msg) = blocks64 (take (64 * k) msg) @
        [tl @ 0x80 # replicate (63 - bl) 0, replicate 56 0 @ fips_be64 (of_nat (8 * length msg))]"
      unfolding blocks z by simp
    then show ?thesis
      using False bl ld dat st8 st n
      by (simp add: pad_def Let_def bl_def [symmetric] zero_fill zero_prefix update_len_bytes transform_compress
          ltl length_compress)
  qed
  then have "m_state (pad h) = fold fips_compress (blocks64 (fips_pad msg)) sha_H0"
    and "revert (pad h) = concat (map (\<lambda>w. [ucast (drop_bit 24 w), ucast (drop_bit 16 w),
      ucast (drop_bit 8 w), ucast w]) (m_state (pad h)))"
    using revert_bytes by blast+
  then show ?thesis
    by (simp add: digest_def fips_sha256_def h_def)
qed

lemma sha256_of_fips: "sha256_of msg = fips_sha256 msg"
  by (simp add: sha256_of_def digest_update)

lemma length_digest: "length (sha256_of msg) = 32"
  by (simp add: sha256_of_def digest_def revert_def)

text \<open>
  C9: the incremental hasher is SHA-256. Whatever the uninitialised block buffer holds, feeding a
  message in two pieces and asking for the digest gives the FIPS 180-4 hash of their concatenation,
  for every split and every length, the lengths at which the padding needs a second block included.
\<close>

theorem sha256_incremental:
  assumes "length junk = 64"
  shows "digest (update b (update a (sha256_init junk))) = fips_sha256 (a @ b)"
  using digest_update [OF assms, of "a @ b"] by (simp add: update_def)

theorem sha256_incremental_witness:
  "digest (update [2, 3] (update [1] (sha256_init (replicate 64 0xff)))) = fips_sha256 [1, 2, 3]"
  using sha256_incremental [of "replicate 64 0xff" "[2, 3]" "[1]"] by simp

end
