(* ===== verification/Util.thy ===== *)
theory Util
  imports Rng Sha256
begin

text \<open>
  src/src/util.cpp: room ids, tokens and peer ids cut from the random generator, the peer id that
  is derived from an access token, base64 in both directions and the constant-time comparison. The
  clock \<open>nowSeconds\<close> is an input of the operations that read it.
\<close>

unbundle bit_operations_syntax

section \<open>Alphabets and identifiers\<close>

definition kRoomAlphabet :: string where
  "kRoomAlphabet = ''ABCDEFGHIJKLMNOPQRSTUVWXYZabcdefghijklmnopqrstuvwxyz0123456789_-''"

definition kHex :: string where
  "kHex = ''0123456789abcdef''"

definition kB64 :: string where
  "kB64 = ''ABCDEFGHIJKLMNOPQRSTUVWXYZabcdefghijklmnopqrstuvwxyz0123456789+/''"

text \<open>The loops that write \<open>s[2 * i]\<close> and \<open>s[2 * i + 1]\<close> from byte \<open>i\<close>.\<close>

definition hex_byte :: "byte \<Rightarrow> string" where
  "hex_byte b = [kHex ! unat (drop_bit 4 b), kHex ! unat (b AND 0x0F)]"

definition hex_string :: "byte list \<Rightarrow> string" where
  "hex_string bs = concat (map hex_byte bs)"

definition randomRoomId :: "mt \<Rightarrow> string \<times> mt" where
  "randomRoomId g =
     (let (bytes, g') = randomBytes 8 g
      in (map (\<lambda>b. kRoomAlphabet ! unat (b AND 0x3F)) bytes, g'))"

definition randomTokenHex :: "mt \<Rightarrow> string \<times> mt" where
  "randomTokenHex g = (let (bytes, g') = randomBytes 32 g in (hex_string bytes, g'))"

definition randomPeerId :: "mt \<Rightarrow> string \<times> mt" where
  "randomPeerId g = (let (bytes, g') = randomBytes 8 g in (hex_string bytes, g'))"

definition peerIdFromToken :: "string \<Rightarrow> string" where
  "peerIdFromToken token = hex_string (take 8 (sha256_of (bytes_of_string token)))"

definition randomBytesVec :: "nat \<Rightarrow> mt \<Rightarrow> byte list \<times> mt" where
  "randomBytesVec n g = randomBytes n g"

section \<open>Base64\<close>

definition b64_char :: "u32 \<Rightarrow> char" where
  "b64_char v = kB64 ! unat (v AND 0x3F)"

fun base64Encode :: "byte list \<Rightarrow> string" where
  "base64Encode (a # b # c # bytes) =
     (let v = push_bit 16 (ucast a) OR push_bit 8 (ucast b) OR ucast c
      in [b64_char (drop_bit 18 v), b64_char (drop_bit 12 v), b64_char (drop_bit 6 v), b64_char v]
         @ base64Encode bytes)"
| "base64Encode [a, b] =
     (let v = push_bit 16 (ucast a) OR push_bit 8 (ucast b)
      in [b64_char (drop_bit 18 v), b64_char (drop_bit 12 v), b64_char (drop_bit 6 v), CHR ''=''])"
| "base64Encode [a] =
     (let v = push_bit 16 (ucast a)
      in [b64_char (drop_bit 18 v), b64_char (drop_bit 12 v), CHR ''='', CHR ''=''])"
| "base64Encode [] = []"

text \<open>The decoder's table: -1 but at the characters of the alphabet.\<close>

definition b64_table :: "char \<Rightarrow> int" where
  "b64_table = fold (\<lambda>i t. t(kB64 ! i := int i)) [0..<64] (\<lambda>_. -1)"

fun base64Decode_loop :: "u32 \<Rightarrow> nat \<Rightarrow> byte list \<Rightarrow> string \<Rightarrow> byte list option" where
  "base64Decode_loop buf bits out [] = Some out"
| "base64Decode_loop buf bits out (c # s) =
     (if c = CHR ''='' then Some out
      else if c = CHR 0x0A \<or> c = CHR 0x0D \<or> c = CHR '' '' \<or> c = CHR 0x09
      then base64Decode_loop buf bits out s
      else let v = b64_table c
        in if v < 0 then None
           else let buf' = push_bit 6 buf OR word_of_int v; bits' = bits + 6
             in if 8 \<le> bits'
                then base64Decode_loop buf' (bits' - 8)
                       (out @ [ucast (drop_bit (bits' - 8) buf' AND 0xFF)]) s
                else base64Decode_loop buf' bits' out s)"

definition base64Decode :: "string \<Rightarrow> byte list option" where
  "base64Decode s = base64Decode_loop 0 0 [] s"

section \<open>Constant-time comparison\<close>

definition ctEqual :: "byte list \<Rightarrow> byte list \<Rightarrow> bool" where
  "ctEqual a b =
     (if length a \<noteq> length b then False
      else fold (\<lambda>i diff. diff OR (a ! i XOR b ! i)) [0..<length a] 0 = 0)"

lemma xor_eq_0 [simp]: "a XOR b = 0 \<longleftrightarrow> a = (b :: byte)"
proof
  assume "a XOR b = 0"
  then have "a XOR (b XOR b) = b" by (metis xor.assoc xor.left_neutral)
  then show "a = b" by simp
qed simp

lemma or_fold_zero:
  "fold (\<lambda>i diff. diff OR f i) ks d = (0 :: byte) \<longleftrightarrow> d = 0 \<and> (\<forall>i \<in> set ks. f i = 0)"
proof (induction ks arbitrary: d)
  case Nil
  then show ?case by simp
next
  case (Cons k ks)
  have "(d OR f k = 0) = (d = 0 \<and> f k = 0)" by (rule or_eq_0_iff)
  with Cons show ?case by simp
qed

lemma ctEqual_eq: "ctEqual a b \<longleftrightarrow> a = b"
proof (cases "length a = length b")
  case True
  then have "ctEqual a b \<longleftrightarrow> (\<forall>i < length a. a ! i = b ! i)"
    by (auto simp: ctEqual_def or_fold_zero)
  with True show ?thesis by (simp add: list_eq_iff_nth_eq)
next
  case False
  then show ?thesis by (auto simp: ctEqual_def)
qed

section \<open>Base64 round trip\<close>

lemma length_kB64 [simp]: "length kB64 = 64"
  by (simp add: kB64_def)

lemma distinct_kB64: "distinct kB64"
  by (simp add: kB64_def)

lemma table_fold:
  "distinct xs \<Longrightarrow> n \<le> length xs \<Longrightarrow> k < n \<Longrightarrow>
   fold (\<lambda>i t. t(xs ! i := int i)) [0..<n] t0 (xs ! k) = int k"
proof (induction n)
  case 0
  then show ?case by simp
next
  case (Suc n)
  then show ?case by (cases "k = n") (auto simp: nth_eq_iff_index_eq)
qed

lemma b64_table_kB64: "k < 64 \<Longrightarrow> b64_table (kB64 ! k) = int k"
  unfolding b64_table_def using table_fold [OF distinct_kB64, of 64 k] by simp

lemma table_fold_other:
  "c \<notin> set (take n xs) \<Longrightarrow> n \<le> length xs \<Longrightarrow>
   fold (\<lambda>i t. t(xs ! i := int i)) [0..<n] t0 c = t0 c"
proof (induction n)
  case 0
  then show ?case by simp
next
  case (Suc n)
  then show ?case by (auto simp: take_Suc_conv_app_nth)
qed

lemma b64_table_other: "c \<notin> set kB64 \<Longrightarrow> b64_table c = -1"
  unfolding b64_table_def using table_fold_other [of c 64 kB64] by simp

lemma b64_value: "c \<in> set kB64 \<longleftrightarrow> 0 \<le> b64_table c"
  using b64_table_kB64 b64_table_other by (force simp: in_set_conv_nth)

lemma kB64_not_special:
  "c \<in> set kB64 \<Longrightarrow> c \<noteq> CHR ''='' \<and> c \<noteq> CHR 0x0A \<and> c \<noteq> CHR 0x0D \<and> c \<noteq> CHR '' '' \<and> c \<noteq> CHR 0x09"
  by (auto simp: kB64_def)

lemma unat_and_3F: "unat (v AND 0x3F :: u32) < 64"
proof -
  have "v AND 0x3F = take_bit 6 v"
    by (simp add: take_bit_eq_mask mask_eq_exp_minus_1)
  then show ?thesis by (simp add: unsigned_take_bit_eq take_bit_nat_less_exp [of 6, simplified])
qed

lemma b64_char_in: "b64_char v \<in> set kB64"
  unfolding b64_char_def using unat_and_3F [of v] by (intro nth_mem) simp

text \<open>The decoder's buffer after one more character, and the byte it hands out.\<close>

definition acc6 :: "u32 \<Rightarrow> u32 \<Rightarrow> u32" where
  "acc6 buf v = push_bit 6 buf OR (v AND 0x3F)"

definition byte_at :: "nat \<Rightarrow> u32 \<Rightarrow> byte" where
  "byte_at k buf = ucast (drop_bit k buf AND 0xFF)"

lemma decode_char:
  "base64Decode_loop buf bits out (b64_char v # s) =
     (if 2 \<le> bits
      then base64Decode_loop (acc6 buf v) (bits - 2) (out @ [byte_at (bits - 2) (acc6 buf v)]) s
      else base64Decode_loop (acc6 buf v) (bits + 6) out s)"
proof -
  have "b64_table (b64_char v) = int (unat (v AND 0x3F))"
    unfolding b64_char_def using unat_and_3F by (rule b64_table_kB64)
  then show ?thesis
    using kB64_not_special [OF b64_char_in, of v] by (simp add: Let_def acc6_def byte_at_def)
qed

lemma decode_pad: "base64Decode_loop buf bits out (CHR ''='' # s) = Some out"
  by simp

lemma byte_eqI:
  "(\<And>i. i \<in> {0, 1, 2, 3, 4, 5, 6, 7} \<Longrightarrow> bit v i = bit w i) \<Longrightarrow> v = (w :: byte)"
  by (rule bit_eqI) (auto simp: less_Suc_eq numeral_eq_Suc)

lemma bit_byte_high [simp]: "8 \<le> n \<Longrightarrow> \<not> bit (w :: byte) n"
  using bit_imp_le_length [of w n] by auto

text \<open>The byte that two neighbouring six-bit groups give back, whatever the buffer held above them.\<close>

lemma quad_bytes:
  fixes a b c :: byte and buf v :: u32
  assumes "v = push_bit 16 (ucast a) OR push_bit 8 (ucast b) OR ucast c"
  shows "byte_at 4 (acc6 (acc6 buf (drop_bit 18 v)) (drop_bit 12 v)) = a"
    and "byte_at 2 (acc6 (acc6 (acc6 buf (drop_bit 18 v)) (drop_bit 12 v)) (drop_bit 6 v)) = b"
    and "byte_at 0 (acc6 (acc6 (acc6 (acc6 buf (drop_bit 18 v)) (drop_bit 12 v)) (drop_bit 6 v)) v) = c"
  unfolding assms byte_at_def acc6_def
  by (rule byte_eqI, elim insertE emptyE; simp add: bit_simps)+

lemma decode_encode_loop:
  "base64Decode_loop buf 0 out (base64Encode bs) = Some (out @ bs)"
proof (induction bs arbitrary: buf out rule: base64Encode.induct)
  case (1 a b c bytes)
  define v :: u32 where "v = push_bit 16 (ucast a) OR push_bit 8 (ucast b) OR ucast c"
  have enc: "base64Encode (a # b # c # bytes)
      = b64_char (drop_bit 18 v) # b64_char (drop_bit 12 v) # b64_char (drop_bit 6 v) # b64_char v
        # base64Encode bytes"
    by (simp only: base64Encode.simps Let_def v_def append.simps)
  show ?case
    using 1 unfolding enc by (simp add: decode_char quad_bytes [OF v_def] del: base64Decode_loop.simps)
next
  case (2 a b)
  define v :: u32 where "v = push_bit 16 (ucast a) OR push_bit 8 (ucast b) OR ucast (0 :: byte)"
  have enc: "base64Encode [a, b]
      = [b64_char (drop_bit 18 v), b64_char (drop_bit 12 v), b64_char (drop_bit 6 v), CHR ''='']"
    by (simp only: base64Encode.simps Let_def v_def) simp
  show ?case
    unfolding enc by (simp add: decode_char decode_pad quad_bytes [OF v_def] del: base64Decode_loop.simps)
next
  case (3 a)
  define v :: u32 where "v = push_bit 16 (ucast a) OR push_bit 8 (ucast (0 :: byte)) OR ucast (0 :: byte)"
  have enc: "base64Encode [a] = [b64_char (drop_bit 18 v), b64_char (drop_bit 12 v), CHR ''='', CHR ''='']"
    by (simp only: base64Encode.simps Let_def v_def) simp
  show ?case
    unfolding enc by (simp add: decode_char decode_pad quad_bytes [OF v_def] del: base64Decode_loop.simps)
next
  case 4
  then show ?case by simp
qed

text \<open>
  C18: base64 round trip. Decoding what \<open>base64Encode\<close> wrote returns the bytes, for every byte
  sequence, the one- and two-byte tails with their padding included.
\<close>

theorem base64_roundtrip: "base64Decode (base64Encode bs) = Some bs"
  using decode_encode_loop [of 0 "[]" bs] by (simp add: base64Decode_def)

lemma length_base64Encode: "length (base64Encode bs) = 4 * ((length bs + 2) div 3)"
  by (induction bs rule: base64Encode.induct) (simp_all add: Let_def, presburger)

lemma set_base64Encode: "set (base64Encode bs) \<subseteq> set kB64 \<union> {CHR ''=''}"
  by (induction bs rule: base64Encode.induct) (auto simp: Let_def b64_char_in)

lemma NUL_notin_kB64 [simp]: "NUL \<notin> set kB64"
  by (simp add: kB64_def NUL_def)

lemma NUL_notin_base64 [simp]: "NUL \<notin> set (base64Encode bs)"
  using set_base64Encode [of bs] NUL_notin_kB64 by (auto simp: NUL_def)

section \<open>The shape of the identifiers\<close>

lemma length_kHex [simp]: "length kHex = 16"
  by (simp add: kHex_def)

lemma length_kRoomAlphabet [simp]: "length kRoomAlphabet = 64"
  by (simp add: kRoomAlphabet_def)

lemma unat_byte_3F: "unat (b AND 0x3F :: byte) < 64"
proof -
  have "b AND 0x3F = take_bit 6 b"
    by (simp add: take_bit_eq_mask mask_eq_exp_minus_1)
  then show ?thesis by (simp add: unsigned_take_bit_eq take_bit_nat_less_exp [of 6, simplified])
qed

lemma unat_nibble_low: "unat (b AND 0x0F :: byte) < 16"
proof -
  have "b AND 0x0F = take_bit 4 b"
    by (simp add: take_bit_eq_mask mask_eq_exp_minus_1)
  then show ?thesis by (simp add: unsigned_take_bit_eq take_bit_nat_less_exp [of 4, simplified])
qed

lemma unat_nibble_high: "unat (drop_bit 4 b :: byte) < 16"
proof -
  have "unat (drop_bit 4 b) = unat b div 16"
    by (simp only: unat_drop_bit_eq) (simp only: drop_bit_eq_div, simp)
  then show ?thesis using unat_byte_less [of b] by linarith
qed

lemma set_hex_string: "set (hex_string bs) \<subseteq> set kHex"
  using unat_nibble_low unat_nibble_high by (auto simp: hex_string_def hex_byte_def)

lemma length_hex_string [simp]: "length (hex_string bs) = 2 * length bs"
  by (induction bs) (auto simp: hex_string_def hex_byte_def)

lemma NUL_notin_hex [simp]: "NUL \<notin> set (hex_string bs)"
  using set_hex_string [of bs] by (auto simp: kHex_def NUL_def)

lemma distinct_kHex: "distinct kHex"
  by (simp add: kHex_def)

lemma hex_byte_inject: "hex_byte a = hex_byte b \<longleftrightarrow> a = b"
proof
  assume "hex_byte a = hex_byte b"
  then have "unat (drop_bit 4 a) = unat (drop_bit 4 b)" and "unat (a AND 0x0F) = unat (b AND 0x0F)"
    using unat_nibble_high unat_nibble_low
    by (auto simp: hex_byte_def nth_eq_iff_index_eq [OF distinct_kHex])
  then have hi: "drop_bit 4 a = drop_bit 4 b" and lo: "a AND 0x0F = b AND 0x0F"
    by (simp_all only: unsigned_word_eqI)
  have "bit a i = bit b i" if "i \<in> {0, 1, 2, 3, 4, 5, 6, 7}" for i
    using that arg_cong [OF hi, where f = "\<lambda>w. bit w (i - 4)"] arg_cong [OF lo, where f = "\<lambda>w. bit w i"]
    by (auto simp: bit_simps)
  then show "a = b" by (rule byte_eqI)
qed simp

lemma hex_string_inject: "hex_string as = hex_string bs \<longleftrightarrow> as = bs"
proof
  assume "hex_string as = hex_string bs"
  then show "as = bs"
  proof (induction as arbitrary: bs)
    case Nil
    then show ?case by (cases bs) (auto simp: hex_string_def hex_byte_def)
  next
    case (Cons a as)
    then obtain b bs' where bs: "bs = b # bs'"
      by (cases bs) (auto simp: hex_string_def hex_byte_def)
    with Cons.prems have "hex_byte a = hex_byte b" and "hex_string as = hex_string bs'"
      by (auto simp: hex_string_def hex_byte_def)
    then show ?case using Cons.IH bs by (simp add: hex_byte_inject)
  qed
qed simp

lemma length_peerIdFromToken [simp]: "length (peerIdFromToken t) = 16"
  by (simp add: peerIdFromToken_def length_digest)

lemma NUL_notin_peerIdFromToken [simp]: "NUL \<notin> set (peerIdFromToken t)"
  by (simp add: peerIdFromToken_def)

text \<open>
  C19: the shape of the identifiers, for every state of the generator. A room id is eight characters
  of the URL-safe alphabet, an access token 64 and a peer id 16 lower-case hexadecimal digits, and the
  token writes the 32 random bytes injectively.
\<close>

theorem identifier_shapes:
  "length (fst (randomRoomId g)) = 8 \<and> set (fst (randomRoomId g)) \<subseteq> set kRoomAlphabet \<and>
   length (fst (randomTokenHex g)) = 64 \<and> set (fst (randomTokenHex g)) \<subseteq> set kHex \<and>
   length (fst (randomPeerId g)) = 16 \<and> set (fst (randomPeerId g)) \<subseteq> set kHex \<and>
   (fst (randomTokenHex g) = fst (randomTokenHex g') \<longleftrightarrow> fst (randomBytes 32 g) = fst (randomBytes 32 g'))"
  using unat_byte_3F set_hex_string
  by (auto simp: randomRoomId_def randomTokenHex_def randomPeerId_def split_beta hex_string_inject)

text \<open>
  Every draw the process ever makes is a function of the 32-bit seed, so at most \<open>2 ^ 32\<close> different
  tokens can come out of any fixed position of the generator, whatever their length.
\<close>

lemma token_seed_entropy:
  "card (range (\<lambda>seed. fst (randomTokenHex (((snd \<circ> mt_next) ^^ n) (rng_instance seed))))) \<le> 2 ^ 32"
proof -
  have "card (range (\<lambda>seed :: u32. fst (randomTokenHex (((snd \<circ> mt_next) ^^ n) (rng_instance seed)))))
      \<le> card (UNIV :: u32 set)"
    by (rule card_image_le) simp
  then show ?thesis by (simp add: card_word)
qed

end
