(* ===== verification/Crow_Util.thy ===== *)
theory Crow_Util
  imports Util Clib
begin

text \<open>
  src/src/crowlib/crow/utility.h: the text helpers of the web framework, base64 in both directions,
  comparison of header values, trimming and splitting. A \<open>size_t\<close> that can wrap is a word, and
  \<open>std::string::resize\<close> throws where the size is beyond \<open>max_size\<close>.
\<close>

unbundle bit_operations_syntax

section \<open>Base64\<close>

definition b64_key :: string where
  "b64_key = ''ABCDEFGHIJKLMNOPQRSTUVWXYZabcdefghijklmnopqrstuvwxyz0123456789+/''"

definition b64_urlsafe_key :: string where
  "b64_urlsafe_key = ''ABCDEFGHIJKLMNOPQRSTUVWXYZabcdefghijklmnopqrstuvwxyz0123456789-_''"

text \<open>The first sextet of a group, the second of two bytes and the third; the last is of one byte.\<close>

definition sextet1 :: "byte \<Rightarrow> nat" where
  "sextet1 a = unat (drop_bit 2 (a AND 0xFC))"

definition sextet2 :: "byte \<Rightarrow> byte \<Rightarrow> nat" where
  "sextet2 a b = unat (push_bit 4 (a AND 0x03) OR drop_bit 4 (b AND 0xF0))"

definition sextet3 :: "byte \<Rightarrow> byte \<Rightarrow> nat" where
  "sextet3 b c = unat (push_bit 2 (b AND 0x0F) OR drop_bit 6 (c AND 0xC0))"

fun base64encode :: "string \<Rightarrow> byte list \<Rightarrow> string" where
  "base64encode key (a # b # c # data) =
     [key ! sextet1 a, key ! sextet2 a b, key ! sextet3 b c, key ! unat (c AND 0x3F)] @ base64encode key data"
| "base64encode key [a] = [key ! sextet1 a, key ! unat (push_bit 4 (a AND 0x03)), CHR ''='', CHR ''='']"
| "base64encode key [a, b] = [key ! sextet1 a, key ! sextet2 a b, key ! unat (push_bit 2 (b AND 0x0F)), CHR ''='']"
| "base64encode key [] = []"

definition base64encode_urlsafe :: "byte list \<Rightarrow> string" where
  "base64encode_urlsafe data = base64encode b64_urlsafe_key data"

text \<open>The value of a character, zero where it is in neither alphabet.\<close>

definition b64_value_of :: "char \<Rightarrow> byte" where
  "b64_value_of c =
     (if char_between (CHR ''A'') (CHR ''Z'') c then word_of_nat (of_char c - 65)
      else if char_between (CHR ''a'') (CHR ''z'') c then word_of_nat (of_char c - 97 + 26)
      else if char_between (CHR ''0'') (CHR ''9'') c then word_of_nat (of_char c - 48 + 52)
      else if c = CHR ''+'' \<or> c = CHR ''-'' then 62
      else if c = CHR ''/'' \<or> c = CHR ''_'' then 63
      else 0)"

text \<open>The size of the result, \<open>size_t\<close> arithmetic.\<close>

definition decoded_size :: "string \<Rightarrow> u64" where
  "decoded_size data =
     (let sz = length data; groups = word_of_nat (sz div 4) * 3
      in if sz mod 4 = 2 then groups + 1
         else if sz mod 4 = 3 then groups + 2
         else if 2 \<le> sz \<and> data ! (sz - 2) = CHR ''='' then groups - 2
         else if 1 \<le> sz \<and> data ! (sz - 1) = CHR ''='' then groups - 1
         else groups)"

definition joined1 :: "byte \<Rightarrow> byte \<Rightarrow> byte" where
  "joined1 o1 e1 = push_bit 2 o1 OR drop_bit 4 (e1 AND 0x30)"

definition joined2 :: "byte \<Rightarrow> byte \<Rightarrow> byte" where
  "joined2 e1 o1 = push_bit 4 (e1 AND 0x0F) OR drop_bit 2 (o1 AND 0x3C)"

definition joined3 :: "byte \<Rightarrow> byte \<Rightarrow> byte" where
  "joined3 o1 e1 = push_bit 6 (o1 AND 0x03) OR e1"

text \<open>The loop, \<open>n\<close> bytes to go; \<open>peek\<close> reads the terminator after the data.\<close>

fun decode_groups :: "nat \<Rightarrow> string \<Rightarrow> byte list" where
  "decode_groups (Suc (Suc (Suc n))) (c1 # c2 # c3 # c4 # data) =
     (let v1 = b64_value_of c1; v2 = b64_value_of c2; v3 = b64_value_of c3; v4 = b64_value_of c4
      in [joined1 v1 v2, joined2 v2 v3, joined3 v3 v4] @ decode_groups n data)"
| "decode_groups (Suc (Suc 0)) (c1 # c2 # c3 # data) =
     (let v2 = b64_value_of c2 in [joined1 (b64_value_of c1) v2, joined2 v2 (b64_value_of c3)])"
| "decode_groups (Suc 0) (c1 # c2 # data) = [joined1 (b64_value_of c1) (b64_value_of c2)]"
| "decode_groups n data = []"

text \<open>
  \<open>std::string::max_size\<close> is \<open>2 ^ 63 - 1\<close> or less in the common libraries; \<open>None\<close> is the
  \<open>length_error\<close> of a larger \<open>resize\<close>.
\<close>

definition string_max_size :: u64 where
  "string_max_size = 2 ^ 63 - 1"

definition base64decode :: "string \<Rightarrow> byte list option" where
  "base64decode data =
     (if string_max_size < decoded_size data then None
      else Some (decode_groups (unat (decoded_size data)) data))"

section \<open>Paths and comparison\<close>

definition normalize_path :: "string \<Rightarrow> string" where
  "normalize_path p =
     (let q = map (\<lambda>c. if c = CHR 0x5C then CHR ''/'' else c) p
      in if q \<noteq> [] \<and> last q \<noteq> CHR ''/'' then q @ ''/'' else q)"

fun chars_equal :: "bool \<Rightarrow> string \<Rightarrow> string \<Rightarrow> bool" where
  "chars_equal case_sensitive (a # l) (b # r) =
     (if case_sensitive then (if a \<noteq> b then False else chars_equal case_sensitive l r)
      else (if to_upper a \<noteq> to_upper b then False else chars_equal case_sensitive l r))"
| "chars_equal case_sensitive l r = True"

definition string_equals :: "string \<Rightarrow> string \<Rightarrow> bool \<Rightarrow> bool" where
  "string_equals l r case_sensitive = (if length l \<noteq> length r then False else chars_equal case_sensitive l r)"

section \<open>Trimming and splitting\<close>

fun first_not_space :: "string \<Rightarrow> nat \<Rightarrow> nat option" where
  "first_not_space [] i = None"
| "first_not_space (c # v) i = (if \<not> is_space c then Some i else first_not_space v (i + 1))"

fun last_not_space :: "string \<Rightarrow> nat \<Rightarrow> nat option" where
  "last_not_space v 0 = None"
| "last_not_space v (Suc i) = (if \<not> is_space (v ! i) then Some (Suc i) else last_not_space v i)"

definition trim :: "string \<Rightarrow> string" where
  "trim v =
     (if v = [] then []
      else case first_not_space v 0 of
          None \<Rightarrow> []
        | Some begin' \<Rightarrow>
            let end' = (case last_not_space v (length v) of None \<Rightarrow> length v | Some i \<Rightarrow> i)
            in take (end' - begin') (drop begin' v))"

text \<open>\<open>std::string::find\<close> of a text.\<close>

fun find_text :: "string \<Rightarrow> string \<Rightarrow> nat option" where
  "find_text sep v =
     (if take (length sep) v = sep then Some 0
      else case v of [] \<Rightarrow> None | c # cs \<Rightarrow> map_option Suc (find_text sep cs))"

declare find_text.simps [simp del]

text \<open>With an empty separator the loop never ends.\<close>

partial_function (option) split_text :: "string \<Rightarrow> string \<Rightarrow> string list option" where
  "split_text sep v =
     (case find_text sep v of
        None \<Rightarrow> Some [v]
      | Some i \<Rightarrow> Option.bind (split_text sep (drop (i + length sep) v)) (\<lambda>r. Some (take i v # r)))"

declare split_text.simps [code]

definition find_first_of :: "'a list \<Rightarrow> 'a list \<Rightarrow> 'a list" where
  "find_first_of xs ys = dropWhile (\<lambda>x. x \<notin> set ys) xs"

section \<open>Properties\<close>

lemma b64_key_kB64: "b64_key = kB64"
  by (simp add: b64_key_def kB64_def)

lemma mask_forms:
  "0xFC = push_bit 2 (mask 6 :: byte)" "0xF0 = push_bit 4 (mask 4 :: byte)" "0xC0 = push_bit 6 (mask 2 :: byte)"
  "0x03 = (mask 2 :: byte)" "0x0F = (mask 4 :: byte)" "0x3F = (mask 6 :: byte)" "0x3F = (mask 6 :: u32)"
  by (simp_all add: mask_eq_exp_minus_1)

lemma unat_ucast_u32: "unat (ucast (x :: byte) :: u32) = unat x"
proof -
  have "unat x < 2 ^ 32" using unat_byte_less [of x] by (rule less_trans) simp
  then show ?thesis by (simp add: unsigned_ucast_eq take_bit_nat_eq_self)
qed

lemma sextets:
  fixes v :: u32
  assumes "v = push_bit 16 (ucast a) OR push_bit 8 (ucast b) OR ucast c"
  shows "sextet1 a = unat (drop_bit 18 v AND 0x3F)" "sextet2 a b = unat (drop_bit 12 v AND 0x3F)"
    "sextet3 b c = unat (drop_bit 6 v AND 0x3F)" "unat (c AND 0x3F) = unat (v AND 0x3F)"
proof -
  have "ucast (drop_bit 2 (a AND 0xFC)) = drop_bit 18 v AND (0x3F :: u32)"
    "ucast (push_bit 4 (a AND 0x03) OR drop_bit 4 (b AND 0xF0)) = drop_bit 12 v AND 0x3F"
    "ucast (push_bit 2 (b AND 0x0F) OR drop_bit 6 (c AND 0xC0)) = drop_bit 6 v AND 0x3F"
    "ucast (c AND 0x3F) = v AND (0x3F :: u32)"
    unfolding assms mask_forms by (rule bit_word_eqI; auto simp: bit_simps)+
  then show "sextet1 a = unat (drop_bit 18 v AND 0x3F)" "sextet2 a b = unat (drop_bit 12 v AND 0x3F)"
    "sextet3 b c = unat (drop_bit 6 v AND 0x3F)" "unat (c AND 0x3F) = unat (v AND 0x3F)"
    unfolding sextet1_def sextet2_def sextet3_def by (simp_all only: unat_ucast_u32 [symmetric])
qed

lemma base64encode_eq: "base64encode b64_key data = base64Encode data"
proof (induction data rule: base64Encode.induct)
  case (1 a b c bytes)
  then show ?case
    using sextets [of "push_bit 16 (ucast a) OR push_bit 8 (ucast b) OR ucast c" a b c, OF refl]
    by (simp only: b64_char_def b64_key_kB64 Let_def base64encode.simps base64Encode.simps)
next
  case (2 a b)
  have z: "push_bit 2 (b AND 0x0F) = push_bit 2 (b AND 0x0F) OR drop_bit 6 (0 AND 0xC0 :: byte)" by simp
  show ?case
    using sextets [of "push_bit 16 (ucast a) OR push_bit 8 (ucast b)" a b 0]
    by (simp add: b64_char_def b64_key_kB64 Let_def sextet3_def)
next
  case (3 a)
  show ?case
    using sextets [of "push_bit 16 (ucast a)" a 0 0]
    by (simp add: b64_char_def b64_key_kB64 Let_def sextet2_def)
qed simp

lemma equal_chars: "length l = length r \<Longrightarrow> chars_equal b l r \<longleftrightarrow> map (if b then id else to_upper) l = map (if b then id else to_upper) r"
  by (induction l r rule: list_induct2) auto

lemma string_equals_iff: "string_equals l r b \<longleftrightarrow> map (if b then id else to_upper) l = map (if b then id else to_upper) r"
  using equal_chars [of l r b] map_eq_imp_length_eq [of _ l _ r] by (auto simp: string_equals_def simp del: map_eq_conv)

lemma find_text_bound: "find_text sep v = Some i \<Longrightarrow> i + length sep \<le> length v"
proof (induction v arbitrary: i)
  case Nil
  then show ?case by (subst (asm) find_text.simps) (auto split: if_splits)
next
  case (Cons c cs)
  from Cons.prems show ?case
    by (subst (asm) find_text.simps) (auto split: if_splits dest!: Cons.IH dest: arg_cong [of "take _ _" _ length])
qed

lemma split_text_total: "sep \<noteq> [] \<Longrightarrow> \<exists>ps. split_text sep v = Some ps"
proof (induction v rule: length_induct)
  case (1 v)
  show ?case
  proof (cases "find_text sep v")
    case None
    then show ?thesis by (simp add: split_text.simps [of sep v])
  next
    case (Some i)
    then have "length (drop (i + length sep) v) < length v" using find_text_bound [OF Some] 1(2) by (cases sep) auto
    then obtain ps where "split_text sep (drop (i + length sep) v) = Some ps" using 1 by blast
    then show ?thesis using Some by (simp add: split_text.simps [of sep v])
  qed
qed

end
