(* ===== verification/Sha1.thy ===== *)
theory Sha1
  imports Sha256 "HOL-Library.While_Combinator"
begin

text \<open>
  src/src/crowlib/crow/TinySHA1.hpp, the hash in the WebSocket handshake: bytes go into a 64-byte block
  one at a time, and the digest appends the padding in the same way. Below it SHA-1 of FIPS 180-4 on
  the whole message, and the proof that the code computes it for messages below \<open>2 ^ 29\<close> bytes; of the
  length only the low 32 bits are written.
\<close>

unbundle bit_operations_syntax

section \<open>The hasher\<close>

record sha1 =
  m_digest :: "u32 list"
  m_block :: "byte list"
  m_blockByteIndex :: nat
  m_byteCount :: u64

definition LeftRotate :: "u32 \<Rightarrow> nat \<Rightarrow> u32" where
  "LeftRotate v n = push_bit n v XOR drop_bit (32 - n) v"

definition sha1_H0 :: "u32 list" where
  "sha1_H0 = [0x67452301, 0xEFCDAB89, 0x98BADCFE, 0x10325476, 0xC3D2E1F0]"

text \<open>The constructor calls \<open>reset\<close>, which leaves the block: \<open>junk\<close> is what it holds.\<close>

definition sha1_reset :: "sha1 \<Rightarrow> sha1" where
  "sha1_reset h = h\<lparr>m_digest := sha1_H0, m_blockByteIndex := 0, m_byteCount := 0\<rparr>"

definition sha1_init :: "byte list \<Rightarrow> sha1" where
  "sha1_init junk = sha1_reset \<lparr>m_digest = [], m_block = junk, m_blockByteIndex = 0, m_byteCount = 0\<rparr>"

definition w_step :: "nat \<Rightarrow> u32 list \<Rightarrow> u32 list" where
  "w_step i w = w @ [LeftRotate (w ! (i - 3) XOR w ! (i - 8) XOR w ! (i - 14) XOR w ! (i - 16)) 1]"

definition block_words :: "byte list \<Rightarrow> u32 list" where
  "block_words m = fold w_step [16..<80] (map (\<lambda>i. block_word m (i * 4)) [0..<16])"

definition sha1_round :: "u32 list \<Rightarrow> nat \<Rightarrow> u32 \<times> u32 \<times> u32 \<times> u32 \<times> u32 \<Rightarrow> u32 \<times> u32 \<times> u32 \<times> u32 \<times> u32" where
  "sha1_round w i = (\<lambda>(a, b, c, d, e).
     let (f, k) =
           (if i < 20 then ((b AND c) OR (NOT b AND d), 0x5A827999)
            else if i < 40 then (b XOR c XOR d, 0x6ED9EBA1)
            else if i < 60 then ((b AND c) OR (b AND d) OR (c AND d), 0x8F1BBCDC)
            else (b XOR c XOR d, 0xCA62C1D6));
         temp = LeftRotate a 5 + f + e + k + w ! i
     in (temp, a, LeftRotate b 30, c, d))"

definition processBlock :: "sha1 \<Rightarrow> sha1" where
  "processBlock h =
     (let w = block_words (m_block h);
          s = m_digest h;
          (a, b, c, d, e) = fold (sha1_round w) [0..<80] (s ! 0, s ! 1, s ! 2, s ! 3, s ! 4)
      in h\<lparr>m_digest := [s ! 0 + a, s ! 1 + b, s ! 2 + c, s ! 3 + d, s ! 4 + e]\<rparr>)"

definition processByte :: "byte \<Rightarrow> sha1 \<Rightarrow> sha1" where
  "processByte octet h =
     (let h = h\<lparr>m_block := (m_block h)[m_blockByteIndex h := octet], m_blockByteIndex := m_blockByteIndex h + 1,
                m_byteCount := m_byteCount h + 1\<rparr>
      in if m_blockByteIndex h = 64 then processBlock (h\<lparr>m_blockByteIndex := 0\<rparr>) else h)"

definition processBytes :: "byte list \<Rightarrow> sha1 \<Rightarrow> sha1" where
  "processBytes data h = fold processByte data h"

definition fill_to_56 :: "sha1 \<Rightarrow> sha1" where
  "fill_to_56 h = while (\<lambda>h. m_blockByteIndex h < 56) (processByte 0) h"

definition fill_block :: "sha1 \<Rightarrow> sha1" where
  "fill_block h = while (\<lambda>h. m_blockByteIndex h \<noteq> 0) (processByte 0) h"

definition getDigest :: "sha1 \<Rightarrow> sha1" where
  "getDigest h =
     (let bitCount = m_byteCount h * 8;
          h = processByte 0x80 h;
          h = (if 56 < m_blockByteIndex h then fill_to_56 (fill_block h) else fill_to_56 h)
      in processBytes [0, 0, 0, 0, ucast (drop_bit 24 bitCount), ucast (drop_bit 16 bitCount),
           ucast (drop_bit 8 bitCount), ucast bitCount] h)"

definition getDigestBytes :: "sha1 \<Rightarrow> byte list" where
  "getDigestBytes h =
     concat (map (\<lambda>w. [ucast (drop_bit 24 w), ucast (drop_bit 16 w), ucast (drop_bit 8 w), ucast w])
       (m_digest (getDigest h)))"

section \<open>FIPS 180-4\<close>

definition Rotl :: "nat \<Rightarrow> u32 \<Rightarrow> u32" where
  "Rotl n x = push_bit n x OR drop_bit (32 - n) x"

fun sha1_W :: "byte list \<Rightarrow> nat \<Rightarrow> u32" where
  "sha1_W blk t =
     (if t < 16 then block_word blk (4 * t)
      else Rotl 1 (sha1_W blk (t - 3) XOR sha1_W blk (t - 8) XOR sha1_W blk (t - 14) XOR sha1_W blk (t - 16)))"

declare sha1_W.simps [simp del]

definition sha1_f :: "nat \<Rightarrow> u32 \<Rightarrow> u32 \<Rightarrow> u32 \<Rightarrow> u32" where
  "sha1_f t x y z =
     (if t < 20 then (x AND y) XOR (NOT x AND z)
      else if 40 \<le> t \<and> t < 60 then (x AND y) XOR (x AND z) XOR (y AND z)
      else x XOR y XOR z)"

definition sha1_K :: "nat \<Rightarrow> u32" where
  "sha1_K t = [0x5A827999, 0x6ED9EBA1, 0x8F1BBCDC, 0xCA62C1D6] ! (t div 20)"

fun sha1_rounds :: "byte list \<Rightarrow> nat \<Rightarrow> u32 list \<Rightarrow> u32 list" where
  "sha1_rounds blk 0 st = st"
| "sha1_rounds blk (Suc t) st =
     (case sha1_rounds blk t st of
        [a, b, c, d, e] \<Rightarrow> [Rotl 5 a + sha1_f t b c d + e + sha1_K t + sha1_W blk t, a, Rotl 30 b, c, d]
      | _ \<Rightarrow> st)"

definition sha1_compress :: "byte list \<Rightarrow> u32 list \<Rightarrow> u32 list" where
  "sha1_compress blk H = map2 (+) H (sha1_rounds blk 80 H)"

definition fips_sha1 :: "byte list \<Rightarrow> byte list" where
  "fips_sha1 msg =
     concat (map (\<lambda>w. [ucast (drop_bit 24 w), ucast (drop_bit 16 w), ucast (drop_bit 8 w), ucast w])
       (fold sha1_compress (blocks64 (fips_pad msg)) sha1_H0))"

section \<open>The code computes it\<close>

lemma LeftRotate_Rotl: "n < 32 \<Longrightarrow> LeftRotate v n = Rotl n v"
  unfolding LeftRotate_def Rotl_def by (rule bit_word_eqI) (auto simp: bit_simps dest: bit_imp_le_length)

lemma w_prefix:
  "length (fold w_step [16..<16 + n] (map (\<lambda>i. block_word d (i * 4)) [0..<16])) = 16 + n \<and>
   (\<forall>t < 16 + n. fold w_step [16..<16 + n] (map (\<lambda>i. block_word d (i * 4)) [0..<16]) ! t = sha1_W d t)"
  (is "length (?m n) = _ \<and> _")
proof (induction n)
  case 0
  then show ?case by (simp add: sha1_W.simps mult.commute)
next
  case (Suc n)
  have "[16..<16 + Suc n] = [16..<16 + n] @ [16 + n]"
    using upt_Suc_append [of 16 "16 + n"] by simp
  then have step: "?m (Suc n) = w_step (16 + n) (?m n)" by (simp only: fold_append fold_simps comp_apply)
  have "w_step (16 + n) (?m n) ! t = sha1_W d t" if "t < 17 + n" for t
    using that Suc.IH
    by (cases "t = 16 + n") (auto simp: w_step_def nth_append sha1_W.simps [of d "16 + n"] LeftRotate_Rotl)
  moreover have "length (w_step (16 + n) (?m n)) = 17 + n" using Suc.IH by (simp add: w_step_def)
  ultimately show ?case unfolding step by simp
qed

lemma block_words_W: "t < 80 \<Longrightarrow> block_words d ! t = sha1_W d t"
  using w_prefix [of 64 d] by (simp add: block_words_def)


lemma choose_or: "(b AND c) OR (NOT b AND d) = (b AND c) XOR (NOT b AND d)" for b c d :: u32
  by (rule bit_eqI) (auto simp: bit_simps)

lemma majority_or: "(b AND c) OR (b AND d) OR (c AND d) = (b AND c) XOR (b AND d) XOR (c AND d)" for b c d :: u32
  by (rule bit_eqI) (auto simp: bit_simps)

lemma round_K: "t < 80 \<Longrightarrow> sha1_K t = (if t < 20 then 0x5A827999 else if t < 40 then 0x6ED9EBA1 else if t < 60 then 0x8F1BBCDC else 0xCA62C1D6)"
proof -
  assume "t < 80"
  then have "t div 20 = (if t < 20 then 0 else if t < 40 then 1 else if t < 60 then 2 else 3)" by auto
  then show ?thesis by (simp add: sha1_K_def)
qed

lemma round_step:
  "i < 80 \<Longrightarrow> sha1_round (block_words m) i (a, b, c, d, e) =
     (Rotl 5 a + sha1_f i b c d + e + sha1_K i + sha1_W m i, a, Rotl 30 b, c, d)"
  by (simp add: sha1_round_def round_K sha1_f_def choose_or majority_or LeftRotate_Rotl block_words_W)

lemma rounds_prefix:
  "n \<le> 80 \<Longrightarrow> \<exists>a' b' c' d' e'. fold (sha1_round (block_words m)) [0..<n] (a, b, c, d, e) = (a', b', c', d', e')
     \<and> sha1_rounds m n [a, b, c, d, e] = [a', b', c', d', e']"
proof (induction n)
  case 0
  then show ?case by simp
next
  case (Suc n)
  then obtain a' b' c' d' e' where "fold (sha1_round (block_words m)) [0..<n] (a, b, c, d, e) = (a', b', c', d', e')"
    "sha1_rounds m n [a, b, c, d, e] = [a', b', c', d', e']" by auto
  then show ?case using Suc.prems by (simp add: round_step)
qed

lemma list5: "length xs = 5 \<Longrightarrow> \<exists>a b c d e. xs = [a, b, c, d, e]"
  by (auto simp: length_Suc_conv numeral_eq_Suc)

lemma processBlock_compress:
  assumes "length (m_digest h) = 5"
  shows "processBlock h = h\<lparr>m_digest := sha1_compress (m_block h) (m_digest h)\<rparr>"
proof -
  obtain a b c d e where s: "m_digest h = [a, b, c, d, e]" using list5 [OF assms] by blast
  show ?thesis
    using rounds_prefix [of 80 "m_block h" a b c d e] by (auto simp: processBlock_def sha1_compress_def s)
qed

lemma length_sha1_compress: "length H = 5 \<Longrightarrow> length (sha1_compress blk H) = 5"
proof -
  assume "length H = 5"
  then obtain a b c d e where "H = [a, b, c, d, e]" using list5 by blast
  then show ?thesis using rounds_prefix [of 80 blk a b c d e] by (auto simp: sha1_compress_def)
qed

lemma length_fold_sha1: "length H = 5 \<Longrightarrow> length (fold sha1_compress bs H) = 5"
  by (rule fold_invariant_pres) (auto simp: length_sha1_compress)

text \<open>What the fields hold after \<open>msg\<close> has gone in.\<close>

definition taken :: "byte list \<Rightarrow> sha1 \<Rightarrow> bool" where
  "taken msg h \<longleftrightarrow>
     length (m_block h) = 64 \<and> m_blockByteIndex h = length msg mod 64
     \<and> take (m_blockByteIndex h) (m_block h) = drop (64 * (length msg div 64)) msg
     \<and> m_byteCount h = of_nat (length msg)
     \<and> m_digest h = fold sha1_compress (blocks64 (take (64 * (length msg div 64)) msg)) sha1_H0"

lemma taken_init: "length junk = 64 \<Longrightarrow> taken [] (sha1_init junk)"
  by (simp add: taken_def sha1_init_def sha1_reset_def)

lemma taken_digest: "taken msg h \<Longrightarrow> length (m_digest h) = 5"
  by (simp add: taken_def length_fold_sha1 sha1_H0_def)

lemma taken_byte:
  assumes "taken msg h"
  shows "taken (msg @ [b]) (processByte b h)"
proof -
  define k where "k = length msg div 64"
  define i where "i = m_blockByteIndex h"
  define tl where "tl = drop (64 * k) msg"
  have len: "length msg = 64 * k + i" "i < 64" and ltl: "length tl = i" and split: "msg = take (64 * k) msg @ tl"
    using assms by (auto simp: taken_def k_def i_def tl_def minus_mult_div_eq_mod)
  have f: "take i (m_block h) = tl" "length (m_block h) = 64" "m_byteCount h = of_nat (length msg)"
    "m_digest h = fold sha1_compress (blocks64 (take (64 * k) msg)) sha1_H0"
    using assms by (auto simp: taken_def k_def i_def tl_def)
  have upd: "take (Suc i) ((m_block h)[i := b]) = tl @ [b]"
    using len(2) f(1,2) by (simp add: take_Suc_conv_app_nth)
  show ?thesis
  proof (cases "i = 63")
    case False
    then have "length (msg @ [b]) div 64 = k" "length (msg @ [b]) mod 64 = Suc i" using len by auto
    then show ?thesis using False upd f len by (simp add: taken_def processByte_def i_def [symmetric] tl_def Let_def)
  next
    case True
    have "blocks64 (msg @ [b]) = blocks64 (take (64 * k) msg @ (tl @ [b]))" by (metis split append_assoc)
    also have "\<dots> = blocks64 (take (64 * k) msg) @ [tl @ [b]]"
      using len True ltl by (subst blocks64_append [of _ k]) auto
    finally have "blocks64 (msg @ [b]) = blocks64 (take (64 * k) msg) @ [tl @ [b]]" .
    moreover have "length (msg @ [b]) div 64 = Suc k" "length (msg @ [b]) mod 64 = 0" using len True by auto
    moreover have "(m_block h)[i := b] = tl @ [b]" using upd f(2) True by simp
    ultimately show ?thesis
      using True f len ltl taken_digest [OF assms]
      by (simp add: taken_def processByte_def i_def [symmetric] Let_def processBlock_compress)
  qed
qed

lemma taken_bytes: "taken msg h \<Longrightarrow> taken (msg @ data) (processBytes data h)"
proof (induction data arbitrary: msg h)
  case Nil
  then show ?case by (simp add: processBytes_def)
next
  case (Cons b data)
  then have "taken ((msg @ [b]) @ data) (processBytes data (processByte b h))" by (blast intro: taken_byte)
  then show ?case by (simp add: processBytes_def)
qed

section \<open>The padding\<close>

lemma taken_index: "taken msg h \<Longrightarrow> m_blockByteIndex h = length msg mod 64"
  by (simp add: taken_def)

lemma next_index: "taken msg h \<Longrightarrow> m_blockByteIndex (processByte b h) = (m_blockByteIndex h + 1) mod 64"
  using taken_index [OF taken_byte [of msg h b]] by (simp add: taken_index mod_Suc_eq)

lemma processBytes_Cons: "processBytes (b # bs) h = processBytes bs (processByte b h)"
  by (simp add: processBytes_def)

lemma processBytes_append: "processBytes (as @ bs) h = processBytes bs (processBytes as h)"
  by (simp add: processBytes_def)

lemma fill_to_56_zeros:
  "taken msg h \<Longrightarrow> m_blockByteIndex h + n = 56 \<Longrightarrow> fill_to_56 h = processBytes (replicate n 0) h"
proof (induction n arbitrary: msg h)
  case 0
  then show ?case by (simp add: fill_to_56_def while_unfold processBytes_def)
next
  case (Suc n)
  have "fill_to_56 h = fill_to_56 (processByte 0 h)"
    using Suc.prems(2) by (simp add: fill_to_56_def while_unfold [of _ _ h])
  also have "\<dots> = processBytes (replicate n 0) (processByte 0 h)"
    using Suc.prems next_index [OF Suc.prems(1)] by (intro Suc.IH [OF taken_byte]) auto
  finally show ?case by (simp add: processBytes_Cons)
qed

lemma fill_block_zeros:
  "taken msg h \<Longrightarrow> m_blockByteIndex h + n = 64 \<Longrightarrow> 0 < m_blockByteIndex h \<Longrightarrow>
   fill_block h = processBytes (replicate n 0) h"
proof (induction n arbitrary: msg h)
  case 0
  then show ?case using taken_index [of msg h] by simp
next
  case (Suc n)
  have step: "fill_block h = fill_block (processByte 0 h)"
    using Suc.prems(3) by (simp add: fill_block_def while_unfold [of _ _ h])
  show ?case
  proof (cases n)
    case 0
    then have "m_blockByteIndex (processByte 0 h) = 0" using Suc.prems next_index [OF Suc.prems(1), of 0] by simp
    then have "fill_block (processByte 0 h) = processByte 0 h" by (simp add: fill_block_def while_unfold)
    then show ?thesis using step by (simp add: 0 processBytes_def)
  next
    case (Suc m)
    then have "fill_block (processByte 0 h) = processBytes (replicate n 0) (processByte 0 h)"
      using Suc.prems next_index [OF Suc.prems(1)] by (intro Suc.IH [OF taken_byte]) auto
    then show ?thesis using step by (simp add: processBytes_Cons)
  qed
qed

lemma getDigest_padding:
  assumes "taken msg h"
  shows "getDigest h = processBytes ([0x80] @ replicate ((119 - length msg mod 64) mod 64) 0
     @ [0, 0, 0, 0, ucast (drop_bit 24 (m_byteCount h * 8)), ucast (drop_bit 16 (m_byteCount h * 8)),
        ucast (drop_bit 8 (m_byteCount h * 8)), ucast (m_byteCount h * 8)]) h"
proof -
  define i where "i = length msg mod 64"
  define h1 where "h1 = processByte 0x80 h"
  have i: "i < 64" by (simp add: i_def)
  have t1: "taken (msg @ [0x80]) h1" unfolding h1_def by (rule taken_byte [OF assms])
  have x1: "m_blockByteIndex h1 = (i + 1) mod 64"
    unfolding h1_def using next_index [OF assms] taken_index [OF assms] by (simp add: i_def)
  have fill: "(if 56 < m_blockByteIndex h1 then fill_to_56 (fill_block h1) else fill_to_56 h1)
    = processBytes (replicate ((119 - i) mod 64) 0) h1"
  proof -
    consider "i = 63" | "i < 56" | "56 \<le> i" "i < 63" using i by linarith
    then show ?thesis
    proof cases
      case 1
      then show ?thesis using fill_to_56_zeros [OF t1, of 56] x1 by simp
    next
      case 2
      then have "(119 - i) mod 64 = 55 - i" by (simp add: mod_if)
      then show ?thesis using 2 fill_to_56_zeros [OF t1, of "55 - i"] x1 by simp
    next
      case 3
      define h2 where "h2 = processBytes (replicate (63 - i) 0) h1"
      have b: "fill_block h1 = h2" unfolding h2_def using 3 x1 by (intro fill_block_zeros [OF t1]) auto
      have t2: "taken ((msg @ [0x80]) @ replicate (63 - i) 0) h2" unfolding h2_def by (rule taken_bytes [OF t1])
      have "n = 64 * k + i \<Longrightarrow> n + (64 - i) = 64 * Suc k" for n k using i by simp
      from this [of "length msg" "length msg div 64"]
      have "length msg + (64 - i) = 64 * Suc (length msg div 64)" by (simp only: i_def mult_div_mod_eq)
      then have "(length msg + (64 - i)) mod 64 = 0" by (simp only: mod_mult_self1_is_0)
      moreover have "length ((msg @ [0x80]) @ replicate (63 - i) (0 :: byte)) = length msg + (64 - i)" using 3 by simp
      ultimately have "m_blockByteIndex h2 = 0" using taken_index [OF t2] by (simp only:)
      then have "fill_to_56 h2 = processBytes (replicate 56 0) h2" by (intro fill_to_56_zeros [OF t2]) simp
      moreover have m: "(119 - i) mod 64 = (63 - i) + 56" using 3 by simp
      have "replicate ((119 - i) mod 64) (0 :: byte) = replicate (63 - i) 0 @ replicate 56 0"
        unfolding m by (rule replicate_add)
      ultimately show ?thesis using 3 x1 b by (simp only: h2_def processBytes_append) simp
    qed
  qed
  show ?thesis
    unfolding getDigest_def Let_def h1_def [symmetric] fill
    by (simp add: processBytes_append processBytes_Cons h1_def i_def processBytes_def)
qed

lemma length_bytes:
  assumes "n < 2 ^ 29"
  shows "fips_be64 (8 * of_nat n) = [0, 0, 0, 0, ucast (drop_bit 24 (of_nat n * 8 :: u64)),
    ucast (drop_bit 16 (of_nat n * 8 :: u64)), ucast (drop_bit 8 (of_nat n * 8 :: u64)), ucast (of_nat n * 8 :: u64)]"
proof -
  have "8 * n < 2 ^ 32" using assms by simp
  then have u: "unat (of_nat (8 * n) :: u64) = 8 * n" by (simp add: unat_of_nat take_bit_nat_eq_self del: of_nat_mult)
  have "drop_bit k (8 * of_nat n :: u64) = 0" if "32 \<le> k" for k
  proof -
    have "(2 :: nat) ^ 32 \<le> 2 ^ k" using that by (rule power_increasing) simp
    then have "8 * n < 2 ^ k" using \<open>8 * n < 2 ^ 32\<close> by (rule less_le_trans [rotated])
    then have "unat (drop_bit k (8 * of_nat n :: u64)) = 0"
      unfolding unat_drop_bit_eq using u by (simp add: drop_bit_eq_div)
    then show ?thesis by (simp only: unat_eq_0)
  qed
  then show ?thesis by (simp add: fips_be64_def upt_rec mult.commute)
qed

lemma length_fips_pad: "length (fips_pad msg) mod 64 = 0"
proof -
  define i where "i = length msg mod 64"
  define k where "k = length msg div 64"
  have m: "length msg = 64 * k + i" "i < 64" by (simp_all add: i_def k_def)
  have "(119 - i) mod 64 = (if i < 56 then 55 - i else 119 - i)" using m(2) by (simp add: mod_if)
  then have "length (fips_pad msg) = 64 * (if i < 56 then k + 1 else k + 2)"
    using m by (simp add: fips_pad_def flip: i_def)
  then show ?thesis by simp
qed

text \<open>
  The hash of the handshake is SHA-1. Whatever the block first holds, feeding a message of less
  than \<open>2 ^ 29\<close> bytes and asking for the digest gives the hash of FIPS 180-4.
\<close>

lemma sha1_correct:
  assumes "length junk = 64" and "length msg < 2 ^ 29"
  shows "getDigestBytes (processBytes msg (sha1_init junk)) = fips_sha1 msg"
proof -
  define h where "h = processBytes msg (sha1_init junk)"
  have t: "taken msg h" unfolding h_def using taken_bytes [OF taken_init [OF assms(1)]] by simp
  then have "m_byteCount h = of_nat (length msg)" by (simp add: taken_def)
  then have "getDigest h = processBytes (drop (length msg) (fips_pad msg)) h"
    unfolding getDigest_padding [OF t] by (simp add: fips_pad_def length_bytes [OF assms(2)])
  then have "taken (fips_pad msg) (getDigest h)"
    using taken_bytes [OF t, of "drop (length msg) (fips_pad msg)"] by (simp add: fips_pad_def)
  moreover have "length (fips_pad msg) mod 64 = 0" by (rule length_fips_pad)
  ultimately have "m_digest (getDigest h) = fold sha1_compress (blocks64 (fips_pad msg)) sha1_H0"
    by (simp add: taken_def flip: minus_mod_eq_mult_div)
  then show ?thesis by (simp add: getDigestBytes_def fips_sha1_def flip: h_def)
qed

end
