(* ===== verification/Ws_Frame.thy ===== *)
theory Ws_Frame
  imports Clib
begin

text \<open>
  src/src/crowlib/crow/websocket.h: the frames under the WebSocket handlers. \<open>Connection\<close> reads a
  header, a length, a key and a payload with one asynchronous read at a time and hands a message to
  the handler when its last fragment is in; and it puts a header before what it sends. The build
  defines \<open>CROW_ENFORCE_WS_SPEC\<close>; the machine is little-endian. A completion of a read or a write is
  one call, and what it does outside the object is a list of effects, in the order of the code.
\<close>

unbundle bit_operations_syntax

section \<open>State and effects\<close>

type_synonym u16 = "16 word"

datatype WebSocketReadState = MiniHeader | Len16 | Len64 | Mask | Payload

datatype CloseStatusCode =
    NormalClosure | EndpointGoingAway | ProtocolError | UnacceptableData | InconsistentData | PolicyViolated
  | MessageTooBig | ExtensionsNotNegotiated | UnexpectedCondition | NoStatusCodePresent | ClosedAbnormally
  | TLSHandshakeFailure | StartStatusCodesForLibraries | StartStatusCodesForPrivateUse | StartStatusCodes
  | EndStatusCodes

primrec status_value :: "CloseStatusCode \<Rightarrow> u16" where
  "status_value NormalClosure = 1000"
| "status_value EndpointGoingAway = 1001"
| "status_value ProtocolError = 1002"
| "status_value UnacceptableData = 1003"
| "status_value InconsistentData = 1007"
| "status_value PolicyViolated = 1008"
| "status_value MessageTooBig = 1009"
| "status_value ExtensionsNotNegotiated = 1010"
| "status_value UnexpectedCondition = 1011"
| "status_value NoStatusCodePresent = 1005"
| "status_value ClosedAbnormally = 1006"
| "status_value TLSHandshakeFailure = 1015"
| "status_value StartStatusCodesForLibraries = 3000"
| "status_value StartStatusCodesForPrivateUse = 4000"
| "status_value StartStatusCodes = 1000"
| "status_value EndStatusCodes = 4999"

text \<open>
  The members of \<open>Connection\<close>; \<open>mask_key\<close> holds the four bytes of \<open>mask_\<close> in the order of memory and
  \<open>posted\<close> the \<open>SendMessageType\<close> tasks given to the event loop.
\<close>

record ws_conn =
  is_binary :: bool
  message :: "byte list"
  fragment :: "byte list"
  read_state :: WebSocketReadState
  remaining_length16 :: u16
  remaining_length :: u64
  max_payload_bytes :: u64
  subprotocol :: "byte list"
  close_connection :: bool
  is_reading :: bool
  has_mask :: bool
  mask_key :: "byte list"
  mini_header :: u16
  has_sent_close :: bool
  has_recv_close :: bool
  pong_received :: bool
  is_close_handler_called :: bool
  sending_buffers :: "byte list list"
  write_buffers :: "byte list list"
  posted :: "(nat \<times> byte list) list"

datatype ws_effect =
    Async_Read nat
  | Async_Read_Some nat
  | Async_Write "byte list list"
  | Open_Handler
  | Message_Handler "byte list" bool
  | Close_Handler "byte list" u16
  | Error_Handler string
  | Shutdown_Socket
  | Close_Socket
  | Remove_Websocket
  | Delete_This

type_synonym ws_step = "ws_effect list \<times> ws_conn"

section \<open>Bytes in memory and on the wire\<close>

definition load16 :: "byte list \<Rightarrow> u16" where
  "load16 bs = ucast (bs ! 0) OR push_bit 8 (ucast (bs ! 1))"

definition store16 :: "u16 \<Rightarrow> byte list" where
  "store16 w = [ucast w, ucast (drop_bit 8 w)]"

definition load64 :: "byte list \<Rightarrow> u64" where
  "load64 bs = ucast (bs ! 0) OR push_bit 8 (ucast (bs ! 1)) OR push_bit 16 (ucast (bs ! 2))
     OR push_bit 24 (ucast (bs ! 3)) OR push_bit 32 (ucast (bs ! 4)) OR push_bit 40 (ucast (bs ! 5))
     OR push_bit 48 (ucast (bs ! 6)) OR push_bit 56 (ucast (bs ! 7))"

definition store64 :: "u64 \<Rightarrow> byte list" where
  "store64 w = map (\<lambda>i. ucast (drop_bit (8 * i) w)) [0..<8]"

text \<open>\<open>ntohs\<close> and \<open>htons\<close>, \<open>ntohl\<close> and \<open>htonl\<close> swap the bytes.\<close>

definition ntohs :: "u16 \<Rightarrow> u16" where
  "ntohs w = push_bit 8 w OR drop_bit 8 w"

definition ntohl :: "u32 \<Rightarrow> u32" where
  "ntohl w = push_bit 24 (take_bit 8 w) OR push_bit 16 (take_bit 8 (drop_bit 8 w))
     OR push_bit 8 (take_bit 8 (drop_bit 16 w)) OR drop_bit 24 w"

definition swap64 :: "u64 \<Rightarrow> u64" where
  "swap64 w = push_bit 32 (ucast (ntohl (ucast (take_bit 32 w)))) OR ucast (ntohl (ucast (drop_bit 32 w)))"

section \<open>Writing\<close>

definition build_header :: "nat \<Rightarrow> nat \<Rightarrow> byte list" where
  "build_header opcode sz =
     (let b0 = 0x80 + word_of_nat opcode
      in if sz < 126 then [b0, word_of_nat sz]
         else if sz < 0x10000 then [b0, 126] @ store16 (ntohs (word_of_nat sz))
         else [b0, 127] @ store64 (swap64 (word_of_nat sz)))"

definition do_write :: "ws_conn \<Rightarrow> ws_step" where
  "do_write c =
     (if sending_buffers c = []
      then ([Async_Write (write_buffers c)], c\<lparr>sending_buffers := write_buffers c, write_buffers := []\<rparr>)
      else ([], c))"

text \<open>Every handler of the program's route is set.\<close>

definition check_destroy :: "CloseStatusCode \<Rightarrow> ws_conn \<Rightarrow> ws_effect list" where
  "check_destroy code c =
     (if is_close_handler_called c then [] else [Close_Handler (bytes_of_string ''uncleanly'') (status_value code)])
     @ [Remove_Websocket]
     @ (if sending_buffers c = [] \<and> \<not> is_reading c then [Delete_This] else [])"

text \<open>The completion of \<open>async_write\<close>.\<close>

definition on_written :: "bool \<Rightarrow> ws_conn \<Rightarrow> ws_step" where
  "on_written ok c =
     (if ok \<and> \<not> close_connection c
      then let c = c\<lparr>sending_buffers := []\<rparr>;
               (evs, c) = (if write_buffers c \<noteq> [] then do_write c else ([], c))
           in (evs, if has_sent_close c then c\<lparr>close_connection := True\<rparr> else c)
      else let c = c\<lparr>sending_buffers := [], close_connection := True\<rparr>
           in (check_destroy ClosedAbnormally c, c))"

definition send_data_impl :: "nat \<Rightarrow> byte list \<Rightarrow> ws_conn \<Rightarrow> ws_step" where
  "send_data_impl opcode payload c =
     do_write (c\<lparr>write_buffers := write_buffers c @ [build_header opcode (length payload), payload]\<rparr>)"

definition send_data :: "nat \<Rightarrow> byte list \<Rightarrow> ws_conn \<Rightarrow> ws_conn" where
  "send_data opcode msg c = c\<lparr>posted := posted c @ [(opcode, msg)]\<rparr>"

definition send_text :: "byte list \<Rightarrow> ws_conn \<Rightarrow> ws_conn" where
  "send_text msg c = send_data 0x1 msg c"

definition send_binary :: "byte list \<Rightarrow> ws_conn \<Rightarrow> ws_conn" where
  "send_binary msg c = send_data 0x2 msg c"

definition send_ping :: "byte list \<Rightarrow> ws_conn \<Rightarrow> ws_conn" where
  "send_ping msg c = send_data 0x9 msg c"

definition send_pong :: "byte list \<Rightarrow> ws_conn \<Rightarrow> ws_conn" where
  "send_pong msg c = send_data 0xA msg c"

text \<open>\<open>close\<close>, where its body runs at once: \<open>asio::dispatch\<close> on the thread of the event loop.\<close>

definition close_conn :: "byte list \<Rightarrow> u16 \<Rightarrow> ws_conn \<Rightarrow> ws_step" where
  "close_conn msg status_code c =
     (let c = c\<lparr>has_sent_close := True\<rparr>;
          called = has_recv_close c \<and> \<not> is_close_handler_called c;
          evs = (if called then [Close_Handler msg status_code] else []);
          c = (if called then c\<lparr>is_close_handler_called := True\<rparr> else c);
          c = c\<lparr>write_buffers := write_buffers c
                  @ [build_header 0x8 (length msg + 2), store16 (ntohs status_code), msg]\<rparr>;
          (evs', c) = do_write c
      in (evs @ evs', c))"

section \<open>Reading\<close>

definition buffer_size :: nat where
  "buffer_size = 4096"

text \<open>\<open>do_read\<close> starts the next read; an unmasked frame would go on from \<open>Mask\<close> to \<open>Payload\<close> at once.\<close>

definition read_payload :: "ws_conn \<Rightarrow> ws_step" where
  "read_payload c =
     (let to_read = word_of_nat buffer_size;
          to_read = (if remaining_length c < to_read then remaining_length c else to_read)
      in ([Async_Read_Some (unat to_read)], c))"

definition do_read :: "ws_conn \<Rightarrow> ws_step" where
  "do_read c =
     (if has_sent_close c \<and> has_recv_close c
      then let c = c\<lparr>close_connection := True\<rparr>
           in ([Shutdown_Socket, Close_Socket] @ check_destroy ClosedAbnormally c, c)
      else let c = c\<lparr>is_reading := True\<rparr>
        in case read_state c of
             MiniHeader \<Rightarrow> ([Async_Read_Some 2], c\<lparr>mini_header := 0\<rparr>)
           | Len16 \<Rightarrow> ([Async_Read 2], c\<lparr>remaining_length := 0, remaining_length16 := 0\<rparr>)
           | Len64 \<Rightarrow> ([Async_Read 8], c)
           | Mask \<Rightarrow>
               if max_payload_bytes c < remaining_length c
               then let c = c\<lparr>close_connection := True\<rparr>
                    in ([Close_Socket, Error_Handler ''Message length exceeds maximum payload.'']
                          @ check_destroy MessageTooBig c, c)
               else if has_mask c then ([Async_Read 4], c)
               else read_payload (c\<lparr>read_state := Payload\<rparr>)
           | Payload \<Rightarrow> read_payload c)"

definition is_FIN :: "ws_conn \<Rightarrow> bool" where
  "is_FIN c \<longleftrightarrow> mini_header c AND 0x8000 \<noteq> 0"

definition opcode :: "ws_conn \<Rightarrow> nat" where
  "opcode c = unat (drop_bit 8 (mini_header c AND 0x0F00))"

definition unmask :: "byte list \<Rightarrow> byte list \<Rightarrow> byte list" where
  "unmask key bs = map (\<lambda>i. bs ! i XOR key ! (i mod 4)) [0..<length bs]"

text \<open>
  What the message handler does to its own connection while it runs: sends, which are posted, and
  closes, which take effect at once.
\<close>

datatype ws_call = Call_Text "byte list" | Call_Close "byte list" u16

primrec apply_call :: "ws_call \<Rightarrow> ws_conn \<Rightarrow> ws_step" where
  "apply_call (Call_Text msg) c = ([], send_text msg c)"
| "apply_call (Call_Close msg code) c = close_conn msg code c"

fun apply_calls :: "ws_call list \<Rightarrow> ws_conn \<Rightarrow> ws_step" where
  "apply_calls [] c = ([], c)"
| "apply_calls (k # ks) c =
     (let (evs, c) = apply_call k c; (evs', c) = apply_calls ks c in (evs @ evs', c))"

text \<open>A data frame joins the message; the last one hands it over. The handler makes the calls \<open>ks\<close>.\<close>

definition data_frame :: "ws_call list \<Rightarrow> ws_conn \<Rightarrow> ws_step" where
  "data_frame ks c =
     (let c = c\<lparr>message := message c @ fragment c\<rparr>
      in if is_FIN c
         then let (evs, c') = apply_calls ks c
              in (Message_Handler (message c) (is_binary c) # evs, c'\<lparr>message := []\<rparr>)
         else ([], c))"

definition close_frame :: "ws_conn \<Rightarrow> bool \<times> ws_step" where
  "close_frame c =
     (let c = c\<lparr>has_recv_close := True\<rparr>;
          (message_start, status_code) =
            (if 2 \<le> length (fragment c) then (2, ntohs (load16 (fragment c))) else (0, status_value NoStatusCodePresent))
      in if \<not> has_sent_close c
         then (True, close_conn (drop message_start (fragment c)) status_code c)
         else let c = c\<lparr>close_connection := True\<rparr>;
                  evs = (if is_close_handler_called c then []
                         else [Close_Handler (drop message_start (fragment c)) status_code]);
                  c = c\<lparr>is_close_handler_called := True\<rparr>
              in (False, evs @ [Shutdown_Socket, Close_Socket] @ check_destroy ClosedAbnormally c, c))"

definition handle_fragment :: "ws_call list \<Rightarrow> ws_conn \<Rightarrow> bool \<times> ws_step" where
  "handle_fragment ks c =
     (let c = (if has_mask c then c\<lparr>fragment := unmask (mask_key c) (fragment c)\<rparr> else c);
          (go, evs, c) =
            (if opcode c = 0 then (True, data_frame ks c)
             else if opcode c = 1 then (True, data_frame ks (c\<lparr>is_binary := False\<rparr>))
             else if opcode c = 2 then (True, data_frame ks (c\<lparr>is_binary := True\<rparr>))
             else if opcode c = 0x8 then close_frame c
             else if opcode c = 0x9 then (True, [], send_pong (fragment c) c)
             else if opcode c = 0xA then (True, [], c\<lparr>pong_received := True\<rparr>)
             else (True, [], c))
      in if go then (True, evs, c\<lparr>fragment := []\<rparr>) else (False, evs, c))"

text \<open>A step, then what follows it.\<close>

definition then_do :: "ws_effect list \<Rightarrow> ws_step \<Rightarrow> ws_step" where
  "then_do evs r = (evs @ fst r, snd r)"

text \<open>
  The completions of the reads: \<open>bs\<close> is what arrived, and the header's two bytes were zero before. A
  frame without a mask ends the connection, but the code then goes on with it.
\<close>

definition read_failed :: "ws_conn \<Rightarrow> ws_step" where
  "read_failed c =
     (let c = c\<lparr>close_connection := True\<rparr>
      in (if read_state c = Mask \<or> read_state c = Payload
          then [Error_Handler ''error'', Shutdown_Socket, Close_Socket] @ check_destroy ClosedAbnormally c
          else [Shutdown_Socket, Close_Socket, Error_Handler ''error''] @ check_destroy ClosedAbnormally c, c))"

definition on_mini_header :: "byte list \<Rightarrow> ws_conn \<Rightarrow> ws_step" where
  "on_mini_header bs c =
     (let c = c\<lparr>mini_header := ntohs (load16 (bs @ [0, 0]))\<rparr>;
          masked = mini_header c AND 0x80 = 0x80;
          c = (if masked then c\<lparr>has_mask := True\<rparr> else c\<lparr>close_connection := True\<rparr>);
          evs = (if masked then []
                 else [Shutdown_Socket, Close_Socket, Error_Handler ''Client connection not masked.'']
                   @ check_destroy UnacceptableData c);
          len = mini_header c AND 0x7F;
          c = (if len = 127 then c\<lparr>read_state := Len64\<rparr>
               else if len = 126 then c\<lparr>read_state := Len16\<rparr>
               else c\<lparr>remaining_length := ucast len, read_state := Mask\<rparr>)
      in then_do evs (do_read c))"

definition on_payload :: "ws_call list \<Rightarrow> byte list \<Rightarrow> ws_conn \<Rightarrow> ws_step" where
  "on_payload ks bs c =
     (let c = c\<lparr>fragment := fragment c @ bs, remaining_length := remaining_length c - word_of_nat (length bs)\<rparr>
      in if remaining_length c = 0
         then let (go, evs, c) = handle_fragment ks c
              in if go then then_do evs (do_read (c\<lparr>read_state := MiniHeader\<rparr>)) else (evs, c)
         else do_read c)"

definition on_read :: "ws_call list \<Rightarrow> byte list option \<Rightarrow> ws_conn \<Rightarrow> ws_step" where
  "on_read ks result c =
     (let c = c\<lparr>is_reading := False\<rparr>
      in case result of
           None \<Rightarrow> read_failed c
         | Some bs \<Rightarrow>
             (case read_state c of
                MiniHeader \<Rightarrow> on_mini_header bs c
              | Len16 \<Rightarrow>
                  let n = ntohs (load16 bs)
                  in do_read (c\<lparr>remaining_length16 := n, remaining_length := ucast n, read_state := Mask\<rparr>)
              | Len64 \<Rightarrow> do_read (c\<lparr>remaining_length := swap64 (load64 bs), read_state := Mask\<rparr>)
              | Mask \<Rightarrow> do_read (c\<lparr>mask_key := bs, read_state := Payload\<rparr>)
              | Payload \<Rightarrow> on_payload ks bs c))"

section \<open>Opening\<close>

text \<open>
  A new connection: \<open>b\<close>, \<open>key\<close> and \<open>w\<close> stand for the members the constructor leaves unset. The answer to
  the upgrade goes out before the open handler runs, which makes the calls \<open>ks\<close>; then reading starts.
\<close>

definition new_connection :: "u64 \<Rightarrow> byte list \<Rightarrow> bool \<Rightarrow> byte list \<Rightarrow> u16 \<Rightarrow> ws_conn" where
  "new_connection max_payload protocol b key w =
     \<lparr>is_binary = b, message = [], fragment = [], read_state = MiniHeader, remaining_length16 = 0,
      remaining_length = 0, max_payload_bytes = max_payload, subprotocol = protocol, close_connection = False,
      is_reading = False, has_mask = False, mask_key = key, mini_header = w, has_sent_close = False,
      has_recv_close = False, pong_received = False, is_close_handler_called = False, sending_buffers = [],
      write_buffers = [], posted = []\<rparr>"

definition crlf :: string where
  "crlf = [CHR 0x0D, CHR 0x0A]"

definition upgrade_header :: string where
  "upgrade_header = ''HTTP/1.1 101 Switching Protocols'' @ crlf @ ''Upgrade: websocket'' @ crlf
     @ ''Connection: Upgrade'' @ crlf @ ''Sec-WebSocket-Accept: ''"

definition start :: "ws_call list \<Rightarrow> string \<Rightarrow> ws_conn \<Rightarrow> ws_step" where
  "start ks hello c =
     (let c = c\<lparr>write_buffers := write_buffers c @ map bytes_of_string [upgrade_header, hello, crlf]\<rparr>;
          c = (if subprotocol c \<noteq> []
               then c\<lparr>write_buffers := write_buffers c
                        @ [bytes_of_string ''Sec-WebSocket-Protocol: '', subprotocol c, bytes_of_string crlf]\<rparr>
               else c);
          c = c\<lparr>write_buffers := write_buffers c @ [bytes_of_string crlf]\<rparr>;
          (evs, c) = do_write c;
          (evs', c) = apply_calls ks c
      in then_do (evs @ Open_Handler # evs') (do_read c))"

section \<open>Network order\<close>

lemma store16_net: "store16 (ntohs w) = [ucast (drop_bit 8 w), ucast w]"
  by (auto simp: store16_def ntohs_def bit_simps intro!: bit_word_eqI)

lemma load16_net: "ntohs (load16 [ucast (drop_bit 8 w), ucast w]) = (w :: u16)"
  by (rule bit_word_eqI) (auto simp: load16_def ntohs_def bit_simps)

lemma bit_ntohl:
  "bit (ntohl w) n \<longleftrightarrow> (if n < 8 then bit w (24 + n) else if n < 16 then bit w (n + 8)
     else if n < 24 then bit w (n - 8) else n < 32 \<and> bit w (n - 24))"
  by (auto simp: ntohl_def bit_simps add.commute dest: bit_imp_le_length)

lemma bit_swap64:
  "bit (swap64 w) n \<longleftrightarrow> (if n < 32 then bit (ntohl (ucast (drop_bit 32 w))) n
     else n < 64 \<and> bit (ntohl (ucast w)) (n - 32))"
  by (auto simp: swap64_def bit_simps)  (auto simp: bit_ntohl bit_simps)

lemma less_8_cases: "k < 8 \<longleftrightarrow> k = 0 \<or> k = 1 \<or> k = 2 \<or> k = 3 \<or> k = 4 \<or> k = 5 \<or> k = 6 \<or> k = (7 :: nat)"
  by auto

lemma swap64_byte:
  assumes "k < 8" "m < 8"
  shows "bit (swap64 w) (8 * k + m) = bit w (8 * (7 - k) + m)"
  using assms unfolding less_8_cases [of k] by (auto simp: bit_swap64 bit_ntohl bit_simps)

lemma u64_byteI:
  assumes "\<And>k m. k < 8 \<Longrightarrow> m < 8 \<Longrightarrow> bit v (8 * k + m) = bit w (8 * k + m)"
  shows "v = (w :: u64)"
proof (rule bit_word_eqI)
  fix n assume "n < LENGTH(64)"
  then show "bit v n = bit w n" using assms [of "n div 8" "n mod 8"] by (simp add: div_less_iff_less_mult)
qed

definition net64 :: "u64 \<Rightarrow> byte list" where
  "net64 w = map (\<lambda>k. ucast (drop_bit (8 * (7 - k)) w)) [0..<8]"

lemma nth_net64: "k < 8 \<Longrightarrow> net64 w ! k = ucast (drop_bit (8 * (7 - k)) w)"
  by (simp only: net64_def nth_map length_upt nth_upt) simp

lemma length_net64 [simp]: "length (net64 w) = 8"
  by (simp add: net64_def)

lemma store64_net: "store64 (swap64 w) = net64 w"
  by (auto simp: store64_def net64_def bit_simps swap64_byte intro!: bit_word_eqI)

lemma bit_high_byte [simp]: "8 \<le> n \<Longrightarrow> \<not> bit (b :: byte) n"
  by (auto dest: bit_imp_le_length)

lemma bit_load64:
  assumes "k < 8" "m < 8"
  shows "bit (load64 bs) (8 * k + m) = bit (bs ! k) m"
  using assms unfolding less_8_cases [of k] by (elim disjE) (simp_all add: load64_def bit_simps)

lemma load64_net: "swap64 (load64 (net64 w)) = w"
  by (rule u64_byteI) (simp add: swap64_byte bit_load64 nth_net64 bit_simps)

section \<open>Headers\<close>

lemma header_word: "ntohs (load16 [b0, b1]) = push_bit 8 (ucast b0) OR ucast b1"
  by (rule bit_word_eqI) (auto simp: load16_def ntohs_def bit_simps)

text \<open>
  The first two bytes of a frame, RFC 6455 section 5.2: the final bit, three zero bits and the opcode;
  the mask bit and seven bits of length.
\<close>

definition first_byte :: "bool \<Rightarrow> nat \<Rightarrow> byte" where
  "first_byte fin op = (if fin then 0x80 else 0) + word_of_nat op"

definition second_byte :: "bool \<Rightarrow> nat \<Rightarrow> byte" where
  "second_byte masked n = (if masked then 0x80 else 0) + word_of_nat n"

lemma header_nat: "ntohs (load16 [b0, b1]) = word_of_nat (256 * unat b0 + unat b1)"
proof -
  have "ntohs (load16 [b0, b1]) = push_bit 8 (ucast b0) + ucast b1"
    unfolding header_word by (rule disjunctive_add [symmetric]) (auto simp: bit_simps)
  then show ?thesis by (simp add: push_bit_eq_mult mult.commute)
qed

lemma header_unat: "unat (ntohs (load16 [b0, b1])) = 256 * unat b0 + unat b1"
proof -
  have "m < 256 \<Longrightarrow> n < 256 \<Longrightarrow> 256 * m + n < 65536" for m n :: nat by simp
  from this [OF unat_byte_less [of b0] unat_byte_less [of b1]]
  show ?thesis unfolding header_nat by (simp add: unat_of_nat take_bit_nat_eq_self del: of_nat_add of_nat_mult)
qed

lemma header_word_unat:
  assumes "op < 16" "n < 128"
  shows "unat (ntohs (load16 [first_byte fin op, second_byte masked n]))
    = (if fin then 0x8000 else 0) + 256 * op + (if masked then 0x80 else 0) + n"
  using assms by (auto simp: header_unat first_byte_def second_byte_def unat_word_ariths unat_of_nat)

lemma odd_unat: "odd (unat (w :: u16) div 2 ^ n) \<longleftrightarrow> bit w n"
  by (simp add: bit_unsigned_iff flip: bit_iff_odd)

lemma mask_bit_unat: "w AND 0x80 = 0x80 \<longleftrightarrow> odd (unat (w :: u16) div 128)"
proof -
  have "w AND push_bit 7 1 = push_bit 7 1 \<longleftrightarrow> bit w 7"
    by (subst bit_eq_iff) (auto simp: bit_and_iff bit_push_bit_iff bit_1_iff simp del: push_bit_of_1 dest: spec [of _ 7])
  then show ?thesis using odd_unat [of w 7] by simp
qed

lemma fin_bit_unat: "w AND 0x8000 \<noteq> 0 \<longleftrightarrow> odd (unat (w :: u16) div 0x8000)"
  using odd_unat [of w 15] and_exp_eq_0_iff_not_bit [of w 15] by simp

lemma unat_and_mask: "unat (w AND mask n :: u16) = unat w mod 2 ^ n"
  unfolding take_bit_eq_mask [symmetric] unsigned_take_bit_eq by (rule take_bit_eq_mod)

lemma length_unat: "unat (w AND 0x7F :: u16) = unat w mod 128"
  using unat_and_mask [of w 7] by (simp add: mask_eq_exp_minus_1)

lemma opcode_unat: "unat (drop_bit 8 (w AND 0x0F00) :: u16) = unat w div 256 mod 16"
proof -
  have "drop_bit 8 (w AND 0x0F00) = drop_bit 8 w AND mask 4"
    unfolding drop_bit_and by (simp add: mask_eq_exp_minus_1)
  then show ?thesis by (simp only: unat_and_mask unat_drop_bit_eq) (simp add: drop_bit_eq_div)
qed

section \<open>Frames as RFC 6455 writes them\<close>

datatype frame = Frame (fin: bool) (op: nat) (key: "byte list option") (payload: "byte list")

primrec be_bytes :: "nat \<Rightarrow> nat \<Rightarrow> byte list" where
  "be_bytes 0 n = []"
| "be_bytes (Suc k) n = word_of_nat (n div 256 ^ k) # be_bytes k n"

definition len7 :: "nat \<Rightarrow> nat" where
  "len7 n = (if n < 126 then n else if n < 65536 then 126 else 127)"

definition extended_length :: "nat \<Rightarrow> byte list" where
  "extended_length n = (if n < 126 then [] else if n < 65536 then be_bytes 2 n else be_bytes 8 n)"

text \<open>Octet \<open>i\<close> of the masked payload is octet \<open>i\<close> of the payload, xor octet \<open>i\<close> of the key written over and over.\<close>

definition mask_octets :: "byte list \<Rightarrow> byte list \<Rightarrow> byte list" where
  "mask_octets k bs = map2 (XOR) bs (concat (replicate (length bs) k))"

definition frame_body :: "frame \<Rightarrow> byte list" where
  "frame_body f = (case key f of None \<Rightarrow> payload f | Some k \<Rightarrow> k @ mask_octets k (payload f))"

definition encode_frame :: "frame \<Rightarrow> byte list" where
  "encode_frame f =
     [first_byte (fin f) (op f), second_byte (key f \<noteq> None) (len7 (length (payload f)))]
     @ extended_length (length (payload f)) @ frame_body f"

lemma length_be_bytes [simp]: "length (be_bytes k n) = k"
  by (induction k) auto

lemma byte_of_word: "j + 8 \<le> LENGTH('a) \<Longrightarrow> ucast (drop_bit j (word_of_nat n :: 'a :: len word)) = (word_of_nat (n div 2 ^ j) :: byte)"
  by (rule bit_word_eqI) (auto simp: bit_simps simp flip: drop_bit_eq_div)

lemma be_bytes_2: "be_bytes 2 n = [ucast (drop_bit 8 (word_of_nat n :: u16)), ucast (word_of_nat n :: u16)]"
proof -
  have "be_bytes 2 n = [word_of_nat (n div 256), word_of_nat n]" by (simp add: numeral_2_eq_2)
  then show ?thesis
    using byte_of_word [where 'a = 16 and j = 8 and n = n] byte_of_word [where 'a = 16 and j = 0 and n = n] by simp
qed

lemma be_bytes_8: "be_bytes 8 n = net64 (word_of_nat n)"
proof (rule nth_equalityI)
  have nth: "i < k \<Longrightarrow> be_bytes k n ! i = word_of_nat (n div 256 ^ (k - 1 - i))" for k i
    by (induction k arbitrary: i) (auto simp: nth_Cons split: nat.split)
  fix i assume "i < length (be_bytes 8 n)"
  then have i: "i < 8" by simp
  then have "(256 :: nat) ^ (7 - i) = 2 ^ (8 * (7 - i))" by (simp add: power_mult)
  then show "be_bytes 8 n ! i = net64 (word_of_nat n) ! i"
    using nth [OF i] byte_of_word [where 'a = 64 and j = "8 * (7 - i)" and n = n] i by (simp add: nth_net64)
qed simp

lemma extended_16: "ntohs (load16 (be_bytes 2 n)) = word_of_nat n"
  by (simp add: be_bytes_2 load16_net)

lemma extended_64: "swap64 (load64 (be_bytes 8 n)) = word_of_nat n"
  by (simp add: be_bytes_8 load64_net)

lemma build_header_frame:
  assumes "opc < 16"
  shows "build_header opc (length pl) @ pl = encode_frame (Frame True opc None pl)"
  by (simp add: build_header_def encode_frame_def first_byte_def second_byte_def len7_def extended_length_def
      frame_body_def be_bytes_2 be_bytes_8 store16_net store64_net Let_def)

lemma length_unmask [simp]: "length (unmask k bs) = length bs"
  by (simp add: unmask_def)

lemma repeated_key: "length k = 4 \<Longrightarrow> i < 4 * n \<Longrightarrow> concat (replicate n k) ! i = k ! (i mod 4)"
  by (induction n arbitrary: i) (auto simp: nth_append le_mod_geq)

lemma mask_octets_unmask [simp]: "length k = 4 \<Longrightarrow> mask_octets k bs = unmask k bs"
  by (rule nth_equalityI) (simp_all add: mask_octets_def unmask_def length_concat sum_list_replicate repeated_key)

lemma unmask_unmask [simp]: "unmask k (unmask k bs) = bs"
  by (rule nth_equalityI) (simp_all add: unmask_def xor.assoc)

end
