(* ===== verification/Ws_Stream.thy ===== *)
theory Ws_Stream
  imports Ws_Frame
begin

text \<open>
  A WebSocket connection over time: its reads, writes, posted sends and closes in any order. What the
  message handler is given is what the client's frames carry; what the program sends goes out whole and
  in order; how a close frame is answered; and what an unmasked frame does.
\<close>

section \<open>A connection's life\<close>

text \<open>
  What can happen to a connection besides its reads: a write completes, a posted send runs, the
  program sends or closes.
\<close>

inductive ws_other :: "ws_conn \<Rightarrow> ws_effect list \<Rightarrow> ws_conn \<Rightarrow> bool" where
  written: "sending_buffers c \<noteq> [] \<Longrightarrow> on_written ok c = (evs, c') \<Longrightarrow> ws_other c evs c'"
| runs_posted: "posted c = (opc, msg) # ts \<Longrightarrow> send_data_impl opc msg (c\<lparr>posted := ts\<rparr>) = (evs, c') \<Longrightarrow> ws_other c evs c'"
| called: "apply_call k c = (evs, c') \<Longrightarrow> ws_other c evs c'"

text \<open>
  The bytes one read can bring: \<open>async_read\<close> all it asks for, \<open>async_read_some\<close> at least one byte of
  them unless none is asked for. The two bytes of the header are taken to come together.
\<close>

definition fits :: "ws_conn \<Rightarrow> byte list \<Rightarrow> bool" where
  "fits c bs \<longleftrightarrow>
     (case read_state c of
        MiniHeader \<Rightarrow> length bs = 2
      | Len16 \<Rightarrow> length bs = 2
      | Len64 \<Rightarrow> length bs = 8
      | Mask \<Rightarrow> length bs = 4
      | Payload \<Rightarrow> length bs \<le> unat (remaining_length c) \<and> length bs \<le> buffer_size
          \<and> (bs = [] \<longrightarrow> remaining_length c = 0))"

inductive ws_run :: "ws_conn \<Rightarrow> byte list \<Rightarrow> ws_effect list \<Rightarrow> ws_conn \<Rightarrow> bool" where
  run_end: "ws_run c [] [] c"
| run_read: "is_reading c \<Longrightarrow> fits c bs \<Longrightarrow> on_read ks (Some bs) c = (evs, c1) \<Longrightarrow> ws_run c1 inp evs' c'
    \<Longrightarrow> ws_run c (bs @ inp) (evs @ evs') c'"
| run_other: "ws_other c evs c1 \<Longrightarrow> ws_run c1 inp evs' c' \<Longrightarrow> ws_run c inp (evs @ evs') c'"

definition handled :: "ws_effect list \<Rightarrow> (byte list \<times> bool) list" where
  "handled evs = concat (map (\<lambda>ev. case ev of Message_Handler m b \<Rightarrow> [(m, b)] | _ \<Rightarrow> []) evs)"

lemma handled_simps [simp]:
  "handled [] = []" "handled (xs @ ys) = handled xs @ handled ys"
  "handled (Message_Handler m b # evs) = (m, b) # handled evs"
  "\<forall>m b. ev \<noteq> Message_Handler m b \<Longrightarrow> handled (ev # evs) = handled evs"
  by (auto simp: handled_def split: ws_effect.split)

text \<open>What reading depends on, which nothing else changes.\<close>

definition reader :: "ws_conn \<Rightarrow> _" where
  "reader c = (is_binary c, message c, fragment c, read_state c, remaining_length c, max_payload_bytes c,
     is_reading c, has_mask c, mask_key c, mini_header c, has_recv_close c)"

lemma reader_do_write [simp]: "reader (snd (do_write c)) = reader c" "handled (fst (do_write c)) = []"
  by (simp_all add: do_write_def reader_def)

lemma handled_check_destroy [simp]: "handled (check_destroy code c) = []"
  by (simp add: check_destroy_def)

lemma reader_on_written [simp]: "reader (snd (on_written ok c)) = reader c" "handled (fst (on_written ok c)) = []"
  by (auto simp: on_written_def Let_def split_beta) (auto simp: reader_def do_write_def)

lemma reader_send_impl [simp]:
  "reader (snd (send_data_impl opc pl c)) = reader c" "handled (fst (send_data_impl opc pl c)) = []"
  by (auto simp: send_data_impl_def) (simp add: reader_def)

lemma reader_close_conn [simp]: "reader (snd (close_conn msg code c)) = reader c" "handled (fst (close_conn msg code c)) = []"
  by (auto simp: close_conn_def Let_def split_beta) (simp_all add: reader_def)

lemma reader_apply_call [simp]: "reader (snd (apply_call k c)) = reader c" "handled (fst (apply_call k c)) = []"
  by (cases k; simp; simp add: reader_def send_text_def send_data_def)+

lemma reader_apply_calls [simp]: "reader (snd (apply_calls ks c)) = reader c" "handled (fst (apply_calls ks c)) = []"
  by (induction ks arbitrary: c) (simp_all add: split_beta Let_def)

lemma reader_other: "ws_other c evs c' \<Longrightarrow> reader c' = reader c \<and> handled evs = []"
proof (induction rule: ws_other.induct)
  case (written c ok evs c')
  then show ?case using reader_on_written [of ok c] by simp
next
  case (runs_posted c opc msg ts evs c')
  then show ?case using reader_send_impl [of opc msg "c\<lparr>posted := ts\<rparr>"] by (simp add: reader_def)
next
  case (called k c evs c')
  then show ?case using reader_apply_call [of k c] by simp
qed

section \<open>Delivery\<close>

text \<open>The messages that a sequence of frames completes, after the fragments \<open>buf\<close>.\<close>

fun assemble :: "byte list \<Rightarrow> bool \<Rightarrow> frame list \<Rightarrow> (byte list \<times> bool) list" where
  "assemble buf bin [] = []"
| "assemble buf bin (f # fs) =
     (if op f \<le> 2
      then let bin = (if op f = 0 then bin else op f = 2); buf = buf @ payload f
           in if fin f then (buf, bin) # assemble [] bin fs else assemble buf bin fs
      else assemble buf bin fs)"

definition valid_frame :: "u64 \<Rightarrow> frame \<Rightarrow> bool" where
  "valid_frame m f \<longleftrightarrow> op f < 16 \<and> op f \<noteq> 8 \<and> length (payload f) \<le> unat m \<and> (\<exists>k. key f = Some k \<and> length k = 4)"

text \<open>Where a connection stands in the frame it reads, \<open>bs\<close> being what is still to come of it.\<close>

definition in_frame :: "ws_conn \<Rightarrow> frame \<Rightarrow> byte list \<Rightarrow> bool" where
  "in_frame c f bs \<longleftrightarrow>
     (is_FIN c \<longleftrightarrow> fin f) \<and> opcode c = op f \<and> has_mask c
     \<and> (let n = length (payload f); masked = unmask (the (key f)) (payload f)
        in case read_state c of
             MiniHeader \<Rightarrow> False
           | Len16 \<Rightarrow> fragment c = [] \<and> n < 65536 \<and> bs = be_bytes 2 n @ frame_body f
           | Len64 \<Rightarrow> fragment c = [] \<and> bs = be_bytes 8 n @ frame_body f
           | Mask \<Rightarrow> fragment c = [] \<and> unat (remaining_length c) = n \<and> bs = frame_body f
           | Payload \<Rightarrow> key f = Some (mask_key c)
               \<and> (\<exists>k \<le> n. fragment c = take k masked \<and> unat (remaining_length c) = n - k \<and> bs = drop k masked))"

definition stream_of :: "frame list \<Rightarrow> byte list" where
  "stream_of fs = concat (map encode_frame fs)"

definition position :: "ws_conn \<Rightarrow> byte list \<Rightarrow> frame list \<Rightarrow> bool" where
  "position c inp fs \<longleftrightarrow>
     \<not> has_recv_close c \<and> is_reading c \<and> list_all (valid_frame (max_payload_bytes c)) fs
     \<and> (read_state c = MiniHeader \<and> fragment c = [] \<and> inp = stream_of fs
        \<or> (\<exists>f fs' bs. fs = f # fs' \<and> in_frame c f bs \<and> inp = bs @ stream_of fs'))"

lemma position_reader:
  assumes "reader c' = reader c" shows "position c' inp fs = position c inp fs"
proof -
  have "in_frame c' f bs = in_frame c f bs" for f bs
    using assms by (cases "read_state c") (simp_all add: in_frame_def reader_def is_FIN_def opcode_def)
  then show ?thesis using assms by (simp add: position_def reader_def)
qed

lemma len7_less: "len7 n < 128"
  by (simp add: len7_def)

lemma header_arith:
  fixes v x r n :: nat
  assumes "v = 32768 * x + 256 * r + 128 + n" "x \<le> 1" "r < 16" "n < 128"
  shows "v div 32768 = x" "v div 256 mod 16 = r" "odd (v div 128)" "v mod 128 = n"
proof -
  show "v div 32768 = x" by (rule div_nat_eqI) (use assms in auto)
  have "v div 256 = r + 16 * (8 * x)" by (rule div_nat_eqI) (use assms in auto)
  then show "v div 256 mod 16 = r" using assms(3) by (metis mod_less mod_mult_self2)
  have q: "v div 128 = 256 * x + 2 * r + 1" by (rule div_nat_eqI) (use assms in auto)
  then show "odd (v div 128)" by simp
  show "v mod 128 = n" using assms(1) q by (simp flip: minus_div_mult_eq_mod)
qed

lemma length_two: "length bs = 2 \<Longrightarrow> bs = [bs ! 0, bs ! 1]"
  by (rule nth_equalityI) (auto simp: less_2_cases_iff)

lemma header_fields:
  assumes "op f < 16" and "mini_header c = ntohs (load16 [first_byte (fin f) (op f), second_byte True n])" and "n < 128"
  shows "is_FIN c = fin f" "opcode c = op f" "mini_header c AND 0x80 = 0x80" "unat (mini_header c AND 0x7F) = n"
proof -
  have v: "unat (mini_header c) = 32768 * of_bool (fin f) + 256 * op f + 128 + n"
    using header_word_unat [OF assms(1,3), of "fin f" True] by (simp add: assms(2))
  note a = header_arith [OF v _ assms(1,3)]
  show "is_FIN c = fin f" unfolding is_FIN_def fin_bit_unat using a(1) by simp
  show "opcode c = op f" unfolding opcode_def opcode_unat using a(2) by simp
  show "mini_header c AND 0x80 = 0x80" unfolding mask_bit_unat using a(3) by simp
  show "unat (mini_header c AND 0x7F) = n" unfolding length_unat using a(4) by simp
qed

text \<open>Each kind of read takes the connection on in its frame.\<close>

lemma do_read_mask:
  assumes "\<not> has_recv_close d" "read_state d = Mask" "has_mask d" "unat (remaining_length d) \<le> unat (max_payload_bytes d)"
  shows "do_read d = ([Async_Read 4], d\<lparr>is_reading := True\<rparr>)"
  using assms by (simp add: do_read_def Let_def word_less_nat_alt)

lemma step_header:
  assumes "position c (bs @ inp) fs" and "read_state c = MiniHeader" and "length bs = 2"
    and "on_read ks (Some bs) c = (evs, c')"
  shows "position c' inp fs \<and> handled evs = [] \<and> message c' = message c \<and> is_binary c' = is_binary c"
proof -
  from assms(1,2) have p: "\<not> has_recv_close c" "is_reading c" "list_all (valid_frame (max_payload_bytes c)) fs"
    "fragment c = []" "bs @ inp = stream_of fs"
    by (auto simp: position_def in_frame_def Let_def)
  from p(5) assms(3) obtain f fs' where fs: "fs = f # fs'" by (cases fs) (auto simp: stream_of_def)
  define n where "n = length (payload f)"
  obtain k where f: "op f < 16" "op f \<noteq> 8" "n \<le> unat (max_payload_bytes c)" "key f = Some k" "length k = 4"
    using p(3) fs by (auto simp: valid_frame_def n_def)
  obtain b0 b1 where b: "bs = [b0, b1]"
    using length_two [OF assms(3)] by blast
  have bs: "bs = [first_byte (fin f) (op f), second_byte True (len7 n)]"
    and inp: "inp = extended_length n @ frame_body f @ stream_of fs'"
    using p(5) f(4) by (auto simp: fs stream_of_def encode_frame_def n_def b)
  define w where "w = ntohs (load16 (bs @ [0, 0]))"
  have w: "w = ntohs (load16 [first_byte (fin f) (op f), second_byte True (len7 n)])"
    by (simp add: w_def bs load16_def)
  have h: "is_FIN d = fin f" "opcode d = op f" if "mini_header d = w" for d
    using header_fields(1,2) [OF f(1) _ len7_less, of d n] that w by auto
  have m: "w AND 0x80 = 0x80" and l: "unat (w AND 0x7F) = len7 n"
    using header_fields(3,4) [OF f(1) _ len7_less, of "c\<lparr>mini_header := w\<rparr>" n] w by auto
  have lw: "w AND 0x7F = 127 \<longleftrightarrow> len7 n = 127" "w AND 0x7F = 126 \<longleftrightarrow> len7 n = 126"
    "unat (ucast (w AND 0x7F) :: u64) = len7 n"
    using len7_less [of n] by (simp_all add: word_unat_eq_iff l unsigned_ucast_eq take_bit_nat_eq_self)
  define c1 where "c1 = c\<lparr>is_reading := False, mini_header := w, has_mask := True\<rparr>"
  have run: "(evs, c') = do_read (if len7 n = 127 then c1\<lparr>read_state := Len64\<rparr> else if len7 n = 126 then c1\<lparr>read_state := Len16\<rparr>
     else c1\<lparr>remaining_length := ucast (w AND 0x7F), read_state := Mask\<rparr>)"
    using assms(4) by (simp add: on_read_def assms(2) on_mini_header_def then_do_def m lw(1,2) c1_def flip: w_def)
      (auto simp: lw(2) split: if_splits)
  have rc: "\<not> has_recv_close c1" using p(1) by (simp add: c1_def)
  have fc: "is_FIN c1 = fin f" "opcode c1 = op f" "has_mask c1" "fragment c1 = []"
    using h(1,2) [of c1] p(4) by (simp_all add: c1_def)
  have "reader c' = reader (c1\<lparr>is_reading := True, read_state := read_state c', remaining_length := remaining_length c'\<rparr>)
      \<and> in_frame c' f (extended_length n @ frame_body f) \<and> handled evs = []"
  proof (cases "n < 126")
    case True
    then have "len7 n = n" by (simp add: len7_def)
    then have s: "unat (remaining_length (c1\<lparr>remaining_length := ucast (w AND 0x7F), read_state := Mask\<rparr>)) = n" 
       using lw(3) by simp
    have "unat (remaining_length (c1\<lparr>remaining_length := ucast (w AND 0x7F), read_state := Mask\<rparr>)) \<le> unat (max_payload_bytes c1)"
      using lw(3) f(3) \<open>len7 n = n\<close> by (simp add: c1_def)
    then have "(evs, c') = ([Async_Read 4], c1\<lparr>is_reading := True, remaining_length := ucast (w AND 0x7F), read_state := Mask\<rparr>)"
      using run rc True fc(3) \<open>len7 n = n\<close> by (simp add: do_read_mask)
    then show ?thesis using s fc True by (auto simp: in_frame_def is_FIN_def opcode_def extended_length_def n_def Let_def reader_def)
  next
    case False
    show ?thesis
    proof (cases "n < 65536")
      case True
      then have "(evs, c') = ([Async_Read 2], c1\<lparr>is_reading := True, read_state := Len16, remaining_length := 0, remaining_length16 := 0\<rparr>)"
        using run rc False by (simp add: do_read_def Let_def len7_def)
      then show ?thesis using fc True False by (auto simp: in_frame_def is_FIN_def opcode_def extended_length_def n_def Let_def reader_def)
    next
      case f2: False
      then have "(evs, c') = ([Async_Read 8], c1\<lparr>is_reading := True, read_state := Len64\<rparr>)"
        using run rc False by (simp add: do_read_def Let_def len7_def)
      then show ?thesis using fc f2 by (auto simp: in_frame_def is_FIN_def opcode_def extended_length_def n_def Let_def reader_def)
    qed
  qed
  then show ?thesis
    using p f fs inp by (auto simp: position_def c1_def reader_def)
qed

lemma step_length:
  assumes "position c (bs @ inp) fs" and "read_state c = Len16 \<and> length bs = 2 \<or> read_state c = Len64 \<and> length bs = 8"
    and "on_read ks (Some bs) c = (evs, c')"
  shows "position c' inp fs \<and> handled evs = [] \<and> message c' = message c \<and> is_binary c' = is_binary c"
proof -
  from assms(1,2) obtain f fs' rest where p: "\<not> has_recv_close c" "fs = f # fs'" "in_frame c f rest" "bs @ inp = rest @ stream_of fs'"
    "list_all (valid_frame (max_payload_bytes c)) fs"
    by (auto simp: position_def)
  define n where "n = length (payload f)"
  have n: "n \<le> unat (max_payload_bytes c)" using p(2,5) by (simp add: valid_frame_def n_def)
  have small: "n < 2 ^ LENGTH(64)" using n unsigned_less [of "max_payload_bytes c"] by (rule le_less_trans)
  have frame: "is_FIN c = fin f" "opcode c = op f" "has_mask c" "fragment c = []"
    using p(3) assms(2) by (auto simp: in_frame_def Let_def)
  define d where "d = (if read_state c = Len16
     then c\<lparr>is_reading := False, remaining_length16 := ntohs (load16 bs), remaining_length := ucast (ntohs (load16 bs)), read_state := Mask\<rparr>
     else c\<lparr>is_reading := False, remaining_length := swap64 (load64 bs), read_state := Mask\<rparr>)"
  have run: "do_read d = (evs, c')"
    using assms(2,3) by (auto simp: on_read_def d_def Let_def)
  have len: "unat (remaining_length d) = n \<and> inp = frame_body f @ stream_of fs'"
  proof (cases "read_state c = Len16")
    case True
    then have "n < 65536" "bs = be_bytes 2 n" "inp = frame_body f @ stream_of fs'"
      using p(3,4) assms(2) by (auto simp: in_frame_def Let_def n_def append_eq_append_conv)
    then show ?thesis
      using True by (simp add: d_def extended_16 unsigned_ucast_eq unat_of_nat take_bit_nat_eq_self)
  next
    case False
    then have "bs = be_bytes 8 n" "inp = frame_body f @ stream_of fs'"
      using p(3,4) assms(2) by (auto simp: in_frame_def Let_def n_def append_eq_append_conv)
    then show ?thesis
      using False small by (simp add: d_def extended_64 unat_of_nat)
  qed
  have d: "\<not> has_recv_close d" "read_state d = Mask" "has_mask d" "max_payload_bytes d = max_payload_bytes c"
    "fragment d = []" "mini_header d = mini_header c" "message d = message c" "is_binary d = is_binary c"
    using p(1) frame(3,4) by (simp_all add: d_def)
  have "(evs, c') = ([Async_Read 4], d\<lparr>is_reading := True\<rparr>)"
    using run do_read_mask [OF d(1,2,3)] len n d(4) by simp
  then show ?thesis
    using p(1,2,5) frame(1,2) len d n_def by (simp add: position_def in_frame_def is_FIN_def opcode_def)
qed

lemma data_frame_effect:
  assumes "data_frame ks c = (evs, c')"
  shows "handled evs = (if is_FIN c then [(message c @ fragment c, is_binary c)] else [])"
    "reader c' = reader (c\<lparr>message := if is_FIN c then [] else message c @ fragment c\<rparr>)"
proof -
  let ?d = "c\<lparr>message := message c @ fragment c\<rparr>"
  have "reader (snd (apply_calls ks ?d)) = reader ?d" by simp
  then show "handled evs = (if is_FIN c then [(message c @ fragment c, is_binary c)] else [])"
    "reader c' = reader (c\<lparr>message := if is_FIN c then [] else message c @ fragment c\<rparr>)"
    using assms reader_apply_calls(2) [of ks ?d]
    by (auto simp: data_frame_def Let_def split_beta is_FIN_def reader_def split: if_splits)
qed

lemma handle_fragment_frame:
  assumes "handle_fragment ks c = (go, evs, c')" and "has_mask c" and "fragment c = unmask (mask_key c) pl" and "opcode c \<noteq> 8"
  shows "go \<and> (if opcode c \<le> 2
    then let bin = (if opcode c = 0 then is_binary c else opcode c = 2); buf = message c @ pl
      in handled evs = (if is_FIN c then [(buf, bin)] else [])
        \<and> reader c' = reader (c\<lparr>message := if is_FIN c then [] else buf, is_binary := bin, fragment := []\<rparr>)
    else handled evs = [] \<and> reader c' = reader (c\<lparr>fragment := []\<rparr>))"
proof -
  define d where "d = c\<lparr>fragment := pl\<rparr>"
  have d: "is_FIN d = is_FIN c" "message d = message c" "fragment d = pl" "is_binary d = is_binary c" "opcode d = opcode c"
    by (simp_all add: d_def is_FIN_def opcode_def)
  have run: "handle_fragment ks c = (let (go, evs, c) =
            (if opcode c = 0 then (True, data_frame ks d)
             else if opcode c = 1 then (True, data_frame ks (d\<lparr>is_binary := False\<rparr>))
             else if opcode c = 2 then (True, data_frame ks (d\<lparr>is_binary := True\<rparr>))
             else if opcode c = 0x9 then (True, [], send_pong (fragment d) d)
             else if opcode c = 0xA then (True, [], d\<lparr>pong_received := True\<rparr>)
             else (True, [], d)) in (True, evs, c\<lparr>fragment := []\<rparr>))"
    using assms(2-4) by (simp add: handle_fragment_def Let_def d_def opcode_def)
  note eff = data_frame_effect [OF surjective_pairing, of ks]
  consider "opcode c = 0" | "opcode c = 1" | "opcode c = 2" | "2 < opcode c" by linarith
  then show ?thesis
  proof cases
    case 1
    then show ?thesis
      using run assms(1) eff [of d] d by (auto simp: split_beta Let_def reader_def d_def is_FIN_def)
  next
    case 2
    then show ?thesis
      using run assms(1) eff [of "d\<lparr>is_binary := False\<rparr>"] d by (auto simp: split_beta Let_def reader_def d_def is_FIN_def)
  next
    case 3
    then show ?thesis
      using run assms(1) eff [of "d\<lparr>is_binary := True\<rparr>"] d by (auto simp: split_beta Let_def reader_def d_def is_FIN_def)
  next
    case 4
    then show ?thesis
      using run assms(1) by (auto simp: reader_def d_def send_pong_def send_data_def split: if_splits)
  qed
qed

lemma step_mask:
  assumes "position c (bs @ inp) fs" and "read_state c = Mask" and "length bs = 4" and "on_read ks (Some bs) c = (evs, c')"
  shows "position c' inp fs \<and> handled evs = [] \<and> message c' = message c \<and> is_binary c' = is_binary c"
proof -
  from assms(1,2) obtain f fs' where p: "\<not> has_recv_close c" "fs = f # fs'" "bs @ inp = frame_body f @ stream_of fs'"
    "list_all (valid_frame (max_payload_bytes c)) fs" and frame: "is_FIN c = fin f" "opcode c = op f" "has_mask c"
    "fragment c = []" "unat (remaining_length c) = length (payload f)"
    by (auto simp: position_def in_frame_def Let_def)
  obtain k where k: "key f = Some k" "length k = 4" using p(2,4) by (auto simp: valid_frame_def)
  then have bs: "bs = k" "inp = unmask k (payload f) @ stream_of fs'"
    using p(3) assms(3) by (auto simp: frame_body_def append_eq_append_conv)
  have "c' = c\<lparr>is_reading := True, mask_key := bs, read_state := Payload\<rparr> \<and> handled evs = []"
    using assms(2,4) p(1) by (auto simp: on_read_def do_read_def read_payload_def Let_def)
  then show ?thesis
    using p(1,2,4) frame k bs by (auto simp: position_def in_frame_def is_FIN_def opcode_def Let_def intro!: exI [of _ 0])
qed

lemma step_payload:
  assumes "position c (bs @ inp) fs" and "read_state c = Payload" and "fits c bs" and "on_read ks (Some bs) c = (evs, c')"
  shows "\<exists>fs'. position c' inp fs'
    \<and> handled evs @ assemble (message c') (is_binary c') fs' = assemble (message c) (is_binary c) fs
    \<and> (bs = [] \<longrightarrow> read_state c' = MiniHeader)"
proof -
  from assms(1,2) obtain f fs' k where p: "\<not> has_recv_close c" "fs = f # fs'"
    "list_all (valid_frame (max_payload_bytes c)) fs" and frame: "is_FIN c = fin f" "opcode c = op f" "has_mask c"
    and body: "key f = Some (mask_key c)" "k \<le> length (payload f)"
      "fragment c = take k (unmask (mask_key c) (payload f))" "unat (remaining_length c) = length (payload f) - k"
      "bs @ inp = drop k (unmask (mask_key c) (payload f)) @ stream_of fs'"
    by (auto simp: position_def in_frame_def Let_def)
  define n where "n = length (payload f)"
  define masked where "masked = unmask (mask_key c) (payload f)"
  have lm: "length masked = n" by (simp add: masked_def n_def)
  have fit: "length bs \<le> n - k" "bs = [] \<longrightarrow> k = n" using assms(2,3) body(2,4)
    by (auto simp: fits_def n_def)
  define j where "j = k + length bs"
  have j: "j \<le> n" using fit(1) body(2) by (simp add: j_def n_def)
  have b: "bs = take (length bs) (drop k masked)" "inp = drop (length bs) (drop k masked) @ stream_of fs'"
    using arg_cong [OF body(5), of "take (length bs)"] arg_cong [OF body(5), of "drop (length bs)"] fit(1) lm
    by (simp_all add: masked_def n_def)
  then have bs: "take j masked = fragment c @ bs" "inp = drop j masked @ stream_of fs'"
    using body(3) by (simp_all add: j_def take_add masked_def add.commute)
  define d where "d = c\<lparr>is_reading := False, fragment := take j masked, remaining_length := remaining_length c - word_of_nat (length bs)\<rparr>"
  have l: "length bs \<le> unat (remaining_length c)" using fit(1) body(4) n_def by simp
  then have "length bs < 2 ^ LENGTH(64)" using unsigned_less [of "remaining_length c"] by (rule le_less_trans)
  then have "unat (word_of_nat (length bs) :: u64) = length bs" by (simp add: unat_of_nat take_bit_nat_eq_self)
  then have rem: "unat (remaining_length d) = n - j"
    using l body(4) n_def by (simp add: d_def j_def unat_sub word_le_nat_alt)
  have run: "(evs, c') = (if remaining_length d = 0
      then let (go, evs, c) = handle_fragment ks d in if go then then_do evs (do_read (c\<lparr>read_state := MiniHeader\<rparr>)) else (evs, c)
      else do_read d)"
    using assms(2,4) bs(1) by (auto simp: on_read_def on_payload_def d_def split: if_splits)
  show ?thesis
  proof (cases "j = n")
    case False
    then have "remaining_length d \<noteq> 0" using rem j by auto
    then have "c' = d\<lparr>is_reading := True\<rparr> \<and> handled evs = []"
      using run p(1) assms(2) by (simp add: do_read_def Let_def read_payload_def d_def)
    moreover have "bs \<noteq> []" using fit(2) False by (auto simp: j_def)
    ultimately show ?thesis
      using p frame body(1) rem bs(2) j assms(2)
      by (auto simp: position_def in_frame_def is_FIN_def opcode_def Let_def d_def masked_def n_def intro!: exI [of _ fs] exI [of _ j])
  next
    case True
    obtain go evs1 c1 where h: "handle_fragment ks d = (go, evs1, c1)" by (metis prod_cases3)
    have d: "has_mask d" "fragment d = unmask (mask_key d) (payload f)" "opcode d = op f" "is_FIN d = fin f"
      "message d = message c" "is_binary d = is_binary c" "\<not> has_recv_close d" "max_payload_bytes d = max_payload_bytes c"
      using frame True p(1) lm by (simp_all add: d_def masked_def is_FIN_def opcode_def)
    have valid: "op f < 16" "op f \<noteq> 8" "list_all (valid_frame (max_payload_bytes c)) fs'"
      using p(2,3) by (auto simp: valid_frame_def)
    note eff = handle_fragment_frame [OF h d(1,2), unfolded d(3-6), OF valid(2)]
    have same: "\<not> has_recv_close c1" "max_payload_bytes c1 = max_payload_bytes c" "fragment c1 = []"
      using eff d(7,8) by (auto simp: reader_def Let_def split: if_splits)
    have z: "remaining_length d = 0" using rem True by (simp add: unat_eq_0 flip: unat_0_iff)
    have r: "evs = evs1 @ [Async_Read_Some 2]" "c' = c1\<lparr>read_state := MiniHeader, is_reading := True, mini_header := 0\<rparr>"
      using run h eff same(1) by (simp_all add: z then_do_def do_read_def Let_def)
    have "position c' inp fs'"
      using same valid(3) bs(2) True lm by (simp add: position_def r(2))
    moreover have "handled evs @ assemble (message c') (is_binary c') fs' = assemble (message c) (is_binary c) fs"
      using eff by (auto simp: r p(2) Let_def reader_def d(5,6) split: if_splits)
    moreover have "read_state c' = MiniHeader" by (simp add: r(2))
    ultimately show ?thesis by blast
  qed
qed

lemma step_read:
  assumes "position c (bs @ inp) fs" and "fits c bs" and "on_read ks (Some bs) c = (evs, c')"
  shows "\<exists>fs'. position c' inp fs'
    \<and> handled evs @ assemble (message c') (is_binary c') fs' = assemble (message c) (is_binary c) fs
    \<and> (bs = [] \<longrightarrow> read_state c' = MiniHeader)"
proof (cases "read_state c")
  case MiniHeader
  then show ?thesis using step_header [OF assms(1) _ _ assms(3)] assms(2) by (auto simp: fits_def)
next
  case Mask
  then show ?thesis using step_mask [OF assms(1) _ _ assms(3)] assms(2) by (auto simp: fits_def)
next
  case Payload
  then show ?thesis by (rule step_payload [OF assms(1) _ assms(2,3)])
qed (use step_length [OF assms(1) _ assms(3)] assms(2) in \<open>auto simp: fits_def\<close>)

lemma run_delivers:
  "ws_run c inp evs c' \<Longrightarrow> position c inp fs \<Longrightarrow>
   \<exists>fs'. position c' [] fs' \<and> handled evs @ assemble (message c') (is_binary c') fs' = assemble (message c) (is_binary c) fs"
proof (induction arbitrary: fs rule: ws_run.induct)
  case (run_end c)
  then show ?case by auto
next
  case (run_read c bs ks evs c1 inp evs' c')
  then obtain fs1 where 1: "position c1 inp fs1"
    "handled evs @ assemble (message c1) (is_binary c1) fs1 = assemble (message c) (is_binary c) fs"
    using step_read by blast
  from run_read.IH [OF 1(1)] 1(2) show ?case by (metis append.assoc handled_simps(2))
next
  case (run_other c evs c1 inp evs' c')
  have r: "reader c1 = reader c" "handled evs = []" using reader_other [OF run_other.hyps(1)] by auto
  then have "position c1 inp fs" using run_other.prems position_reader [of c1 c] by simp
  from run_other.IH [OF this] r show ?case by (simp add: reader_def)
qed

text \<open>
  A message is sent in one or more fragments: the first frame has the opcode of its kind, the others
  none, and the last one is final.
\<close>

definition is_data :: "frame \<Rightarrow> bool" where
  "is_data f \<longleftrightarrow> op f \<le> 2"

fun last_final :: "frame list \<Rightarrow> bool" where
  "last_final [] \<longleftrightarrow> False"
| "last_final [f] \<longleftrightarrow> fin f"
| "last_final (f # g # fs) \<longleftrightarrow> \<not> fin f \<and> last_final (g # fs)"

definition fragments_of :: "byte list list \<times> bool \<Rightarrow> frame list \<Rightarrow> bool" where
  "fragments_of m fs \<longleftrightarrow>
     map payload fs = fst m \<and> last_final fs \<and> op (hd fs) = (if snd m then 2 else 1) \<and> list_all (\<lambda>g. op g = 0) (tl fs)"

lemma assemble_data: "assemble buf bin fs = assemble buf bin (filter is_data fs)"
  by (induction buf bin fs rule: assemble.induct) (auto simp: is_data_def Let_def)

lemma assemble_continuation:
  "last_final fs \<Longrightarrow> list_all (\<lambda>g. op g = 0) fs \<Longrightarrow>
   assemble buf bin (fs @ gs) = (buf @ concat (map payload fs), bin) # assemble [] bin gs"
  by (induction fs arbitrary: buf rule: last_final.induct) (simp_all add: Let_def)

lemma assemble_message:
  assumes "fragments_of (pls, b) fs"
  shows "assemble [] bin (fs @ gs) = (concat pls, b) # assemble [] b gs"
proof (cases fs)
  case Nil
  then show ?thesis using assms by (simp add: fragments_of_def)
next
  case (Cons f fs')
  then show ?thesis using assms assemble_continuation [of fs' "payload f" b gs]
    by (cases fs') (auto simp: fragments_of_def Let_def simp del: assemble.simps(2) simp: assemble.simps(2) [of _ _ f])
qed

lemma assemble_messages:
  "list_all2 fragments_of ms fss \<Longrightarrow>
   assemble [] bin (concat fss) = map (\<lambda>(pls, b). (concat pls, b)) ms"
proof (induction ms fss arbitrary: bin rule: list_all2_induct)
  case (Cons m ms fs fss)
  obtain pls b where m: "m = (pls, b)" by fastforce
  show ?case using assemble_message [of pls b fs bin "concat fss"] Cons by (simp add: m)
qed simp

definition at_rest :: "ws_conn \<Rightarrow> bool" where
  "at_rest c \<longleftrightarrow> read_state c = MiniHeader \<and> is_reading c \<and> fragment c = [] \<and> message c = [] \<and> \<not> has_recv_close c"

text \<open>As long as there are bytes, a read can take some of them, so every frame is consumed.\<close>

lemma next_read:
  assumes "position c inp fs" and "read_state c \<noteq> MiniHeader \<or> inp \<noteq> []"
  shows "\<exists>bs rest. inp = bs @ rest \<and> fits c bs \<and> (bs = [] \<longrightarrow> read_state c = Payload)"
proof -
  have part: "?thesis" if "n \<le> length inp" "fits c (take n inp)" "n = 0 \<longrightarrow> read_state c = Payload" for n
    using that by (intro exI [of _ "take n inp"] exI [of _ "drop n inp"]) auto
  show ?thesis
  proof (cases "read_state c")
    case MiniHeader
    then have "inp = stream_of fs" "inp \<noteq> []" using assms by (auto simp: position_def in_frame_def Let_def)
    then have "2 \<le> length inp" by (cases fs) (auto simp: stream_of_def encode_frame_def)
    then show ?thesis using part [of 2] MiniHeader by (simp add: fits_def)
  next
    case Len16
    then show ?thesis using assms part [of 2] by (auto simp: position_def in_frame_def fits_def Let_def)
  next
    case Len64
    then show ?thesis using assms part [of 8] by (auto simp: position_def in_frame_def fits_def Let_def)
  next
    case Mask
    then obtain f fs' where "fs = f # fs'" "inp = frame_body f @ stream_of fs'" "valid_frame (max_payload_bytes c) f"
      using assms(1) by (auto simp: position_def in_frame_def Let_def)
    then show ?thesis using Mask part [of 4] by (auto simp: fits_def valid_frame_def frame_body_def)
  next
    case Payload
    then have "unat (remaining_length c) \<le> length inp"
      using assms(1) by (auto simp: position_def in_frame_def Let_def)
    moreover define n where "n = min buffer_size (unat (remaining_length c))"
    ultimately have len: "n \<le> length inp" "length (take n inp) = n" by simp_all
    have "take n inp = [] \<Longrightarrow> remaining_length c = 0"
      using len(2) by (auto simp: n_def buffer_size_def min_def unat_eq_0 split: if_splits)
    then have "fits c (take n inp)" using Payload len(2) by (simp add: fits_def) (simp add: n_def)
    then show ?thesis using part [OF len(1)] Payload by simp
  qed
qed

lemma frames_consumed:
  "position c inp fs \<Longrightarrow> \<exists>evs c'. ws_run c inp evs c' \<and> read_state c' = MiniHeader"
proof (induction "2 * length inp + of_bool (read_state c \<noteq> MiniHeader)" arbitrary: c inp fs rule: less_induct)
  case less
  show ?case
  proof (cases "read_state c = MiniHeader \<and> inp = []")
    case True
    then show ?thesis using run_end by blast
  next
    case False
    then obtain bs rest where bs: "inp = bs @ rest" "fits c bs" "bs = [] \<longrightarrow> read_state c = Payload"
      using next_read [OF less.prems] by blast
    obtain evs c1 where run: "on_read [] (Some bs) c = (evs, c1)" by fastforce
    then obtain fs1 where 1: "position c1 rest fs1" "bs = [] \<longrightarrow> read_state c1 = MiniHeader"
      using step_read [OF _ bs(2) run] less.prems bs(1) by blast
    have "2 * length rest + of_bool (read_state c1 \<noteq> MiniHeader) < 2 * length inp + of_bool (read_state c \<noteq> MiniHeader)"
      using bs 1(2) by (cases bs) auto
    from less.hyps [OF this 1(1)] obtain evs' c' where "ws_run c1 rest evs' c'" "read_state c' = MiniHeader" by blast
    moreover have "is_reading c" using less.prems by (simp add: position_def)
    ultimately show ?thesis using run_read [OF _ bs(2) run] bs(1) by blast
  qed
qed


lemma do_read_fresh:
  "\<not> has_recv_close c \<Longrightarrow> read_state c = MiniHeader \<Longrightarrow>
   do_read c = ([Async_Read_Some 2], c\<lparr>is_reading := True, mini_header := 0\<rparr>)"
  by (simp add: do_read_def Let_def)

lemma start_at_rest:
  assumes "start ks hello (new_connection m protocol b k w) = (evs, c)"
  shows "at_rest c \<and> max_payload_bytes c = m"
proof -
  define n where "n = new_connection m protocol b k w"
  have w: "reader (d\<lparr>write_buffers := x\<rparr>) = reader d" for d x by (simp add: reader_def)
  have "\<exists>d. c = snd (do_read d) \<and> reader d = reader n"
    using arg_cong [OF assms, of snd] unfolding start_def Let_def split_beta then_do_def n_def [symmetric] snd_conv
    by - (intro exI conjI, erule sym, simp add: w)
  then obtain d where d: "reader d = reader n" "c = snd (do_read d)" by blast
  then have "\<not> has_recv_close d" "read_state d = MiniHeader" by (simp_all add: reader_def n_def new_connection_def)
  then show ?thesis using d do_read_fresh [of d] by (simp add: at_rest_def reader_def n_def new_connection_def)
qed

definition demo_frames :: "frame list" where
  "demo_frames =
     [Frame False 1 (Some [1, 2, 3, 4]) [0x68], Frame True 9 (Some [5, 6, 7, 8]) [], Frame True 0 (Some [0, 0, 0, 1]) [0x69]]"

definition demo_conn :: ws_conn where
  "demo_conn = snd (start [] ''x'' (new_connection 8192 [] False [] 0))"


section \<open>Frames without a mask\<close>

text \<open>
  C32: a frame without a mask makes the code go on with a freed connection. It shuts the socket, calls
  the handlers and deletes the object, and then starts the next read on it. The same happens to a
  client that masks its frames when the first byte of a header comes alone, for the second is then zero.
\<close>

theorem unmasked_use_after_free:
  assumes "at_rest c" and "sending_buffers c = []" and "\<not> is_close_handler_called c"
    and "125 \<le> unat (max_payload_bytes c)" and "bs = [b0] \<or> bs = [b0, b1] \<and> b1 < 0x80"
  shows "\<exists>n. \<exists>next_op \<in> {Async_Read n, Async_Read_Some n}. fst (on_read ks (Some bs) c) =
    [Shutdown_Socket, Close_Socket, Error_Handler ''Client connection not masked.'',
     Close_Handler (bytes_of_string ''uncleanly'') 1003, Remove_Websocket, Delete_This, next_op]"
proof -
  define w where "w = ntohs (load16 (bs @ [0, 0]))"
  obtain l :: byte where l: "unat l < 128" "w = ntohs (load16 [b0, l])"
  proof (cases "bs = [b0]")
    case True
    then show ?thesis using that [of 0] by (simp add: w_def load16_def)
  next
    case False
    then show ?thesis using that [of b1] assms(5) by (simp add: w_def load16_def word_less_nat_alt)
  qed
  have uw: "unat w = 256 * unat b0 + unat l" by (simp add: l(2) header_unat)
  have "unat w div 128 = 2 * unat b0" by (rule div_nat_eqI) (use uw l(1) in auto)
  then have m: "w AND 0x80 \<noteq> 0x80" by (simp add: mask_bit_unat)
  define len where "len = w AND 0x7F"
  have ul: "unat len < 128" by (simp add: len_def length_unat)
  define d where "d = c\<lparr>is_reading := False, mini_header := w, close_connection := True\<rparr>"
  define d' where "d' = (if len = 127 then d\<lparr>read_state := Len64\<rparr> else if len = 126 then d\<lparr>read_state := Len16\<rparr>
     else d\<lparr>remaining_length := ucast len, read_state := Mask\<rparr>)"
  have run: "fst (on_read ks (Some bs) c) = [Shutdown_Socket, Close_Socket, Error_Handler ''Client connection not masked.'',
     Close_Handler (bytes_of_string ''uncleanly'') 1003, Remove_Websocket, Delete_This] @ fst (do_read d')"
    using assms(1-3) m
    by (simp add: on_read_def at_rest_def on_mini_header_def then_do_def check_destroy_def flip: w_def)
       (simp add: Let_def d'_def d_def len_def)
  have rc: "\<not> has_recv_close d" "max_payload_bytes d = max_payload_bytes c"
    using assms(1) by (simp_all add: d_def at_rest_def)
  have "\<exists>n. \<exists>next_op \<in> {Async_Read n, Async_Read_Some n}. fst (do_read d') = [next_op]"
  proof (cases "len = 127 \<or> len = 126")
    case True
    then show ?thesis using rc(1) by (auto simp: do_read_def d'_def Let_def)
  next
    case False
    then have "unat len \<le> 125" using ul by (auto simp: word_unat_eq_iff)
    then have "\<not> max_payload_bytes c < ucast len"
      using assms(4) by (simp add: word_less_nat_alt unsigned_ucast_eq take_bit_nat_eq_self)
    then show ?thesis using rc False by (auto simp: do_read_def d'_def Let_def read_payload_def)
  qed
  then show ?thesis by (auto simp: run)
qed

definition idle_conn :: ws_conn where
  "idle_conn = snd (on_written True demo_conn)"

theorem unmasked_use_after_free_witness:
  "fst (on_read [] (Some [0x81]) idle_conn) =
    [Shutdown_Socket, Close_Socket, Error_Handler ''Client connection not masked.'',
     Close_Handler (bytes_of_string ''uncleanly'') 1003, Remove_Websocket, Delete_This, Async_Read_Some 0]"
proof -
  have "at_rest idle_conn" "sending_buffers idle_conn = []" "\<not> is_close_handler_called idle_conn"
    "max_payload_bytes idle_conn = 8192" by code_simp+
  then have "\<exists>n. \<exists>next_op \<in> {Async_Read n, Async_Read_Some n}. fst (on_read [] (Some [0x81]) idle_conn) =
    [Shutdown_Socket, Close_Socket, Error_Handler ''Client connection not masked.'',
     Close_Handler (bytes_of_string ''uncleanly'') 1003, Remove_Websocket, Delete_This, next_op]"
    by (intro unmasked_use_after_free) simp_all
  moreover have "last (fst (on_read [] (Some [0x81]) idle_conn)) = Async_Read_Some 0" by code_simp
  ultimately show ?thesis by auto
qed

section \<open>Closing\<close>

lemma close_conn_answer:
  "sending_buffers c = [] \<Longrightarrow> has_recv_close c \<Longrightarrow> \<not> is_close_handler_called c \<Longrightarrow> close_conn msg code c =
     ([Close_Handler msg code,
       Async_Write (write_buffers c @ [build_header 8 (length msg + 2), [ucast (drop_bit 8 code), ucast code], msg])],
      c\<lparr>has_sent_close := True, is_close_handler_called := True, write_buffers := [],
        sending_buffers := write_buffers c @ [build_header 8 (length msg + 2), [ucast (drop_bit 8 code), ucast code], msg]\<rparr>)"
  by (simp add: close_conn_def Let_def do_write_def store16_net)



definition closing_conn :: ws_conn where
  "closing_conn = idle_conn\<lparr>read_state := Payload, mini_header := 0x8882, has_mask := True, mask_key := [1, 2, 3, 4],
     remaining_length := 2\<rparr>"


section \<open>Sending\<close>

text \<open>A run of the sending side: a send is posted, a posted send runs, a write completes.\<close>

datatype out_event = Post nat "byte list" | Run_Posted | Write_Done

fun out_step :: "out_event \<Rightarrow> ws_conn \<Rightarrow> ws_step" where
  "out_step (Post opc msg) c = ([], send_data opc msg c)"
| "out_step Run_Posted c =
     (case posted c of [] \<Rightarrow> ([], c) | (opc, msg) # ts \<Rightarrow> send_data_impl opc msg (c\<lparr>posted := ts\<rparr>))"
| "out_step Write_Done c = (if sending_buffers c = [] then ([], c) else on_written True c)"

fun out_run :: "out_event list \<Rightarrow> ws_conn \<Rightarrow> ws_step" where
  "out_run [] c = ([], c)"
| "out_run (ev # evs) c = (let (w, c) = out_step ev c in then_do w (out_run evs c))"

definition written_bytes :: "ws_effect list \<Rightarrow> byte list" where
  "written_bytes evs = concat (map (\<lambda>ev. case ev of Async_Write bufs \<Rightarrow> concat bufs | _ \<Rightarrow> []) evs)"

definition sent_frames :: "(nat \<times> byte list) list \<Rightarrow> byte list" where
  "sent_frames ms = stream_of (map (\<lambda>(opc, msg). Frame True opc None msg) ms)"

definition posts :: "out_event list \<Rightarrow> (nat \<times> byte list) list" where
  "posts evs = concat (map (\<lambda>ev. case ev of Post opc msg \<Rightarrow> [(opc, msg)] | _ \<Rightarrow> []) evs)"

definition sender_ok :: "ws_conn \<Rightarrow> bool" where
  "sender_ok c \<longleftrightarrow> \<not> has_sent_close c \<and> \<not> close_connection c \<and> list_all (\<lambda>(opc, msg). opc < 16) (posted c)
     \<and> (write_buffers c \<noteq> [] \<longrightarrow> sending_buffers c \<noteq> [])"

lemma out_step_ok:
  assumes "sender_ok c" and "out_step ev c = (w, c')" and "list_all (\<lambda>(opc, msg). opc < 16) (posts [ev])"
  shows "sender_ok c' \<and> written_bytes w @ concat (write_buffers c') @ sent_frames (posted c')
    = concat (write_buffers c) @ sent_frames (posted c) @ sent_frames (posts [ev])"
proof (cases ev)
  case (Post opc msg)
  then show ?thesis using assms by (auto simp: send_data_def sender_ok_def sent_frames_def written_bytes_def posts_def stream_of_def)
next
  case Run_Posted
  show ?thesis
  proof (cases "posted c")
    case Nil
    then show ?thesis using assms Run_Posted by (auto simp: written_bytes_def posts_def sent_frames_def stream_of_def)
  next
    case (Cons t ts)
    obtain opc msg where t: "t = (opc, msg)" by fastforce
    then have h: "build_header opc (length msg) @ msg = encode_frame (Frame True opc None msg)"
      using assms(1) Cons by (intro build_header_frame) (simp add: sender_ok_def)
    show ?thesis
      using assms Cons Run_Posted h
      by (auto simp: t send_data_impl_def do_write_def sender_ok_def written_bytes_def posts_def sent_frames_def stream_of_def
          split: if_splits)
  qed
next
  case Write_Done
  then show ?thesis
    using assms
    by (auto simp: on_written_def do_write_def sender_ok_def written_bytes_def posts_def sent_frames_def stream_of_def Let_def
        split: if_splits)
qed



end
