(* ===== verification/Captcha.thy ===== *)
theory Captcha
  imports Util Clib
begin

text \<open>
  src/src/captcha.cpp: the stateless proof-of-work challenges that gate room creation. A challenge
  is \<open>nonce_hex:exp_unix:hmac_hex\<close>; the server keeps no record of it until a proof is accepted,
  when its nonce goes into the single-use ledger until it expires. The state is the process secret,
  its \<open>inited\<close> flag and the ledger \<open>seen\<close>; the mutexes make each operation atomic.
\<close>

unbundle bit_operations_syntax

section \<open>State and results\<close>

record captcha =
  secret :: "byte list"
  inited :: bool
  seen :: "string \<rightharpoonup> int"

datatype verify_result = Ok | Malformed | BadHmac | Expired | BadProof | Reused

definition captcha_start :: captcha where
  "captcha_start = \<lparr>secret = replicate 32 0, inited = False, seen = Map.empty\<rparr>"

definition kSecretBytes :: nat where "kSecretBytes = 32"
definition kBlockBytes :: nat where "kBlockBytes = 64"

section \<open>Operations\<close>

definition toHex :: "byte list \<Rightarrow> string" where
  "toHex data = hex_string data"

definition ctEqualStr :: "string \<Rightarrow> string \<Rightarrow> bool" where
  "ctEqualStr a b =
     (if length a \<noteq> length b then False
      else fold (\<lambda>i diff. diff OR (byte_of_char (a ! i) XOR byte_of_char (b ! i))) [0..<length a] 0 = 0)"

definition hmacSha256 :: "byte list \<Rightarrow> byte list \<Rightarrow> byte list" where
  "hmacSha256 key msg =
     (let kPad =
            (if kBlockBytes < length key
             then let d = sha256_of key
                  in fold (\<lambda>i p. p[i := d ! i]) [0..<length d] (replicate kBlockBytes 0)
             else fold (\<lambda>i p. p[i := key ! i]) [0..<length key] (replicate kBlockBytes 0));
          ipad = map (\<lambda>k. k XOR 0x36) kPad;
          opad = map (\<lambda>k. k XOR 0x5C) kPad;
          innerDigest = digest (update msg (update ipad (sha256_init (replicate 64 0))))
      in digest (update innerDigest (update opad (sha256_init (replicate 64 0)))))"

definition hmacHex :: "captcha \<Rightarrow> string \<Rightarrow> string" where
  "hmacHex st payload = toHex (hmacSha256 (secret st) (bytes_of_string payload))"

text \<open>
  The digest is read byte by byte; an index past its 32 bytes (a configured difficulty above 256)
  is an out-of-bounds read.
\<close>

function zero_prefix_loop :: "nat \<Rightarrow> nat \<Rightarrow> byte list \<Rightarrow> exn + bool" where
  "zero_prefix_loop i full d =
     (if i < full
      then if length d \<le> i then Inl (Undefined ''digest'')
           else if d ! i \<noteq> 0 then Inr False
           else zero_prefix_loop (Suc i) full d
      else Inr True)"
  by pat_completeness auto
termination by (relation "measure (\<lambda>(i, full, d). full - i)") auto

declare zero_prefix_loop.simps [simp del]

definition meetsDifficulty :: "byte list \<Rightarrow> int \<Rightarrow> exn + bool" where
  "meetsDifficulty d bits =
     (let full = c_div bits 8; rem = c_mod bits 8
      in case zero_prefix_loop 0 (nat full) d of
           Inl e \<Rightarrow> Inl e
         | Inr False \<Rightarrow> Inr False
         | Inr True \<Rightarrow>
             if 0 < rem
             then if length d \<le> nat full then Inl (Undefined ''digest'')
                  else let mask = (ucast (push_bit (nat (8 - rem)) (0xFF :: u32)) :: byte)
                    in Inr (d ! nat full AND mask = 0)
             else Inr True)"

text \<open>Split "a:b:c" into three parts; any other number of colons is refused.\<close>

definition split3 :: "string \<Rightarrow> (string \<times> string \<times> string) option" where
  "split3 s =
     (case find_char (CHR '':'') 0 s of
        None \<Rightarrow> None
      | Some p1 \<Rightarrow>
          (case find_char (CHR '':'') (p1 + 1) s of
             None \<Rightarrow> None
           | Some p2 \<Rightarrow>
               if find_char (CHR '':'') (p2 + 1) s \<noteq> None then None
               else Some (substr 0 p1 s, substr (p1 + 1) (p2 - p1 - 1) s, drop (p2 + 1) s)))"

definition gcLocked :: "(string \<rightharpoonup> int) \<Rightarrow> int \<Rightarrow> (string \<rightharpoonup> int)" where
  "gcLocked m now = (\<lambda>k. case m k of None \<Rightarrow> None | Some e \<Rightarrow> if e \<le> now then None else Some e)"

definition init :: "captcha \<Rightarrow> mt \<Rightarrow> captcha \<times> mt" where
  "init st g =
     (if inited st then (st, g)
      else let (bytes, g') = randomBytesVec kSecretBytes g
           in (st\<lparr>secret := bytes, inited := True\<rparr>, g'))"

definition issueChallenge :: "captcha \<Rightarrow> int \<Rightarrow> int \<Rightarrow> mt \<Rightarrow> string \<times> mt" where
  "issueChallenge st validityWindowSeconds now g =
     (let (nonceBytes, g') = randomBytesVec 16 g;
          nonceHex = toHex nonceBytes;
          exp = now + validityWindowSeconds;
          payload = nonceHex @ '':'' @ to_string exp
      in (payload @ '':'' @ hmacHex st payload, g'))"

definition verifyChallenge ::
    "captcha \<Rightarrow> string \<Rightarrow> string \<Rightarrow> int \<Rightarrow> int \<Rightarrow> exn + (verify_result \<times> captcha)" where
  "verifyChallenge st challenge nonce difficultyBits now =
     (case split3 challenge of
        None \<Rightarrow> Inr (Malformed, st)
      | Some (nonceHex, expStr, macHex) \<Rightarrow>
          if nonceHex = [] \<or> expStr = [] \<or> macHex = [] then Inr (Malformed, st)
          else let payload = nonceHex @ '':'' @ expStr;
                   expected = hmacHex st payload
            in if \<not> ctEqualStr expected macHex then Inr (BadHmac, st)
               else case stoll expStr of
                 None \<Rightarrow> Inr (Malformed, st)
               | Some exp \<Rightarrow>
                   if exp \<le> now then Inr (Expired, st)
                   else case meetsDifficulty
                       (digest (update (bytes_of_string nonce)
                         (update (bytes_of_string challenge) (sha256_init (replicate 64 0)))))
                       difficultyBits of
                     Inl e \<Rightarrow> Inl e
                   | Inr False \<Rightarrow> Inr (BadProof, st)
                   | Inr True \<Rightarrow>
                       let m = gcLocked (seen st) now
                       in case m nonceHex of
                            Some _ \<Rightarrow> Inr (Reused, st\<lparr>seen := m\<rparr>)
                          | None \<Rightarrow> Inr (Ok, st\<lparr>seen := m(nonceHex \<mapsto> exp)\<rparr>))"


section \<open>HMAC\<close>

text \<open>RFC 2104 over FIPS 180-4's SHA-256, as functions of the whole key and message.\<close>

definition rfc2104_key :: "byte list \<Rightarrow> byte list" where
  "rfc2104_key key =
     (let k = (if 64 < length key then fips_sha256 key else key) in k @ replicate (64 - length k) 0)"

definition rfc2104_hmac :: "byte list \<Rightarrow> byte list \<Rightarrow> byte list" where
  "rfc2104_hmac key msg =
     fips_sha256 (map (\<lambda>k. k XOR 0x5C) (rfc2104_key key)
       @ fips_sha256 (map (\<lambda>k. k XOR 0x36) (rfc2104_key key) @ msg))"

lemma copy_into:
  "length d \<le> n \<Longrightarrow>
   fold (\<lambda>i p. p[i := d ! i]) [0..<length d] (replicate n x) = d @ replicate (n - length d) x"
proof -
  assume le: "length d \<le> n"
  have "fold (\<lambda>i p. p[i := d ! i]) [0..<m] (replicate n x) = take m d @ replicate (n - m) x"
    if "m \<le> length d" for m
    using that
  proof (induction m)
    case 0
    then show ?case by simp
  next
    case (Suc m)
    then have "replicate (n - m) x = x # replicate (n - Suc m) x"
      using le by (metis Suc_diff_le Suc_le_lessD diff_Suc_Suc le_trans replicate_Suc)
    with Suc show ?case
      by (simp add: list_update_append take_Suc_conv_app_nth)
  qed
  from this [of "length d"] show ?thesis by simp
qed

lemma digest_zero_init: "digest (update b (update a (sha256_init (replicate 64 0)))) = fips_sha256 (a @ b)"
  using digest_update [of "replicate 64 0" "a @ b"] by (simp add: update_def)

lemma length_fips: "length (fips_sha256 msg) = 32"
  using length_digest [of msg] by (simp add: sha256_of_fips)

text \<open>
  C10: \<open>hmacSha256\<close> is RFC 2104's HMAC over SHA-256, for every key, keys longer than a block included,
  and every message.
\<close>

theorem hmacSha256_rfc2104: "hmacSha256 key msg = rfc2104_hmac key msg"
proof -
  have "fold (\<lambda>i p. p[i := key ! i]) [0..<length key] (replicate 64 0) = rfc2104_key key"
    if "\<not> 64 < length key"
    using that copy_into [of key 64 "0 :: byte"] by (simp add: rfc2104_key_def)
  moreover have "fold (\<lambda>i p. p[i := fips_sha256 key ! i]) [0..<32] (replicate 64 0) = rfc2104_key key"
    if "64 < length key"
    using that copy_into [of "fips_sha256 key" 64 "0 :: byte"] by (simp add: rfc2104_key_def length_fips)
  ultimately show ?thesis
    by (simp add: hmacSha256_def kBlockBytes_def rfc2104_hmac_def Let_def sha256_of_fips length_fips
        digest_zero_init)
qed

lemma length_hmac: "length (hmacSha256 key msg) = 32"
  by (simp add: hmacSha256_def Let_def digest_def revert_def)

lemma hmacHex_shape [simp]:
  "hmacHex st p \<noteq> []" "CHR '':'' \<notin> set (hmacHex st p)" "NUL \<notin> set (hmacHex st p)"
proof -
  have "length (hmacHex st p) = 64"
    by (simp add: hmacHex_def toHex_def length_hmac)
  then show "hmacHex st p \<noteq> []" by auto
  show "CHR '':'' \<notin> set (hmacHex st p)" "NUL \<notin> set (hmacHex st p)"
    using set_hex_string by (auto simp: hmacHex_def toHex_def kHex_def NUL_def)
qed

lemma ctEqualStr_eq: "ctEqualStr a b \<longleftrightarrow> a = b"
proof (cases "length a = length b")
  case True
  then have "ctEqualStr a b \<longleftrightarrow> (\<forall>i < length a. a ! i = b ! i)"
    by (auto simp: ctEqualStr_def or_fold_zero)
  with True show ?thesis by (simp add: list_eq_iff_nth_eq)
next
  case False
  then show ?thesis by (auto simp: ctEqualStr_def)
qed

section \<open>Difficulty\<close>

text \<open>Bit \<open>i\<close> of the digest, counted from the most significant bit of its first byte.\<close>

definition digest_bit :: "byte list \<Rightarrow> nat \<Rightarrow> bool" where
  "digest_bit d i = bit (d ! (i div 8)) (7 - i mod 8)"

lemma byte_zero_bits: "(w :: byte) = 0 \<longleftrightarrow> (\<forall>j < 8. \<not> bit w (7 - j))"
proof
  assume z: "\<forall>j < 8. \<not> bit w (7 - j)"
  show "w = 0"
  proof (rule bit_eqI)
    fix n assume "possible_bit TYPE(byte) n"
    then have "n < 8" by (simp add: possible_bit_word)
    moreover from this have "7 - n < 8" by simp
    then have "\<not> bit w (7 - (7 - n))" using z by blast
    ultimately show "bit w n = bit 0 n" by simp
  qed
qed simp

lemma zero_prefix_loop_bytes:
  "full \<le> length d \<Longrightarrow> i \<le> full \<Longrightarrow>
   zero_prefix_loop i full d = Inr (\<forall>k. i \<le> k \<and> k < full \<longrightarrow> d ! k = 0)"
proof (induction i full d rule: zero_prefix_loop.induct)
  case (1 i full d)
  show ?case
  proof (cases "i < full")
    case True
    then have "(\<forall>k. i \<le> k \<and> k < full \<longrightarrow> d ! k = 0) \<longleftrightarrow> d ! i = 0 \<and> (\<forall>k. Suc i \<le> k \<and> k < full \<longrightarrow> d ! k = 0)"
      by (metis Suc_leD le_antisym not_less_eq_eq)
    with True 1 show ?thesis by (simp add: zero_prefix_loop.simps [of i])
  next
    case False
    then show ?thesis by (auto simp: zero_prefix_loop.simps [of i])
  qed
qed

lemma mask_bits:
  "0 < r \<Longrightarrow> r < 8 \<Longrightarrow>
   (w AND ucast (push_bit (8 - r) (0xFF :: u32)) = (0 :: byte)) \<longleftrightarrow> (\<forall>j < r. \<not> bit w (7 - j))"
proof -
  assume r: "0 < r" "r < 8"
  have b: "bit (w AND ucast (push_bit (8 - r) (0xFF :: u32))) n \<longleftrightarrow> bit w n \<and> 8 - r \<le> n" if "n < 8" for n
  proof -
    have "(0xFF :: u32) = mask 8" by (simp add: mask_eq_exp_minus_1)
    moreover have "n - (8 - r) < 8" using that by simp
    ultimately have "bit (0xFF :: u32) (n - (8 - r))" by (simp only: bit_mask_iff) simp
    then show ?thesis using that by (auto simp: bit_simps)
  qed
  show ?thesis
  proof
    assume z: "w AND ucast (push_bit (8 - r) (0xFF :: u32)) = (0 :: byte)"
    show "\<forall>j < r. \<not> bit w (7 - j)"
    proof (intro allI impI)
      fix j assume "j < r"
      then have "7 - j < 8" "8 - r \<le> 7 - j" using r by auto
      then show "\<not> bit w (7 - j)" using b [of "7 - j"] by (simp add: z)
    qed
  next
    assume z: "\<forall>j < r. \<not> bit w (7 - j)"
    show "w AND ucast (push_bit (8 - r) (0xFF :: u32)) = (0 :: byte)"
    proof (rule bit_eqI)
      fix n assume "possible_bit TYPE(byte) n"
      then have n: "n < 8" by (simp add: possible_bit_word)
      have "\<not> (bit w n \<and> 8 - r \<le> n)"
      proof
        assume "bit w n \<and> 8 - r \<le> n"
        moreover from this have "7 - n < r" using n r by linarith
        then have "\<not> bit w (7 - (7 - n))" using z by blast
        ultimately show False using n by simp
      qed
      then show "bit (w AND ucast (push_bit (8 - r) (0xFF :: u32))) n = bit 0 n" using b [OF n] by simp
    qed
  qed
qed

lemma all_bits_split:
  "(\<forall>i < 8 * n + r. \<not> digest_bit d i) \<longleftrightarrow>
   (\<forall>k < n. \<forall>j < 8. \<not> bit (d ! k) (7 - j)) \<and> (\<forall>j < r. \<not> digest_bit d (8 * n + j))"
proof -
  have "(\<forall>i < 8 * n. \<not> digest_bit d i) \<longleftrightarrow> (\<forall>k < n. \<forall>j < 8. \<not> bit (d ! k) (7 - j))"
  proof (intro iffI allI impI)
    fix k j :: nat assume "\<forall>i < 8 * n. \<not> digest_bit d i" "k < n" "j < 8"
    moreover have "8 * k + j < 8 * n" using \<open>k < n\<close> \<open>j < 8\<close> by linarith
    ultimately have "\<not> digest_bit d (8 * k + j)" by blast
    then show "\<not> bit (d ! k) (7 - j)" using \<open>j < 8\<close> by (simp add: digest_bit_def)
  next
    fix i assume "\<forall>k < n. \<forall>j < 8. \<not> bit (d ! k) (7 - j)" "i < 8 * n"
    then show "\<not> digest_bit d i" by (simp add: digest_bit_def less_mult_imp_div_less mult.commute)
  qed
  moreover have "(\<forall>i < 8 * n + r. P i) \<longleftrightarrow> (\<forall>i < 8 * n. P i) \<and> (\<forall>j < r. P (8 * n + j))" for P
  proof (intro iffI conjI allI impI)
    fix i assume all: "(\<forall>i < 8 * n. P i) \<and> (\<forall>j < r. P (8 * n + j))" and "i < 8 * n + r"
    show "P i"
    proof (cases "i < 8 * n")
      case False
      then have "i = 8 * n + (i - 8 * n)" and "i - 8 * n < r" using \<open>i < 8 * n + r\<close> by auto
      then show ?thesis using all by metis
    qed (use all in blast)
  qed auto
  ultimately show ?thesis by simp
qed

text \<open>
  C11: the difficulty test counts leading zero bits. On a 32-byte digest and a difficulty between 0
  and 256 it reads inside the digest and answers whether the first \<open>bits\<close> bits, most significant
  first, are all zero.
\<close>

theorem meetsDifficulty_leading_zeros:
  assumes "length d = 32" and "0 \<le> bits" and "bits \<le> 256"
  shows "meetsDifficulty d bits = Inr (\<forall>i < nat bits. \<not> digest_bit d i)"
proof -
  define n r where "n = nat bits div 8" and "r = nat bits mod 8"
  have bits: "nat bits = 8 * n + r" and r: "r < 8" by (simp_all add: n_def r_def)
  have full: "nat (c_div bits 8) = n" and rem: "c_mod bits 8 = int r"
    using assms(2) by (simp_all add: c_div_nonneg c_mod_nonneg n_def r_def nat_div_distrib zmod_int)
  have n: "n \<le> 32" "0 < r \<Longrightarrow> n < 32" using assms(3) bits by auto
  have loop: "zero_prefix_loop 0 n d = Inr (\<forall>k < n. \<forall>j < 8. \<not> bit (d ! k) (7 - j))"
    using n assms(1) by (simp add: zero_prefix_loop_bytes byte_zero_bits)
  have last: "(\<forall>j < r. \<not> digest_bit d (8 * n + j)) \<longleftrightarrow> (\<forall>j < r. \<not> bit (d ! n) (7 - j))"
    using r by (simp add: digest_bit_def)
  have shift: "nat (8 - int r) = 8 - r" by simp
  show ?thesis
  proof (cases "r = 0")
    case True
    then show ?thesis
      unfolding bits all_bits_split
      by (simp add: meetsDifficulty_def full rem loop Let_def split: bool.split)
  next
    case False
    then have m: "(d ! n AND ucast (push_bit (8 - r) (0xFF :: u32)) = 0) \<longleftrightarrow> (\<forall>j < r. \<not> bit (d ! n) (7 - j))"
      using mask_bits r by blast
    show ?thesis
      using False n assms(1)
      unfolding bits all_bits_split
      by (simp add: meetsDifficulty_def full rem loop Let_def shift m last del: unsigned_push_bit_eq split: bool.split)
  qed
qed

theorem meetsDifficulty_leading_zeros_witness:
  "meetsDifficulty ([0, 0x0f] @ replicate 30 0xff) 12 =
     Inr (\<forall>i < nat 12. \<not> digest_bit ([0, 0x0f] @ replicate 30 0xff) i)"
  by (rule meetsDifficulty_leading_zeros) simp_all

section \<open>Issuing and verifying\<close>

lemma split3_join:
  assumes "CHR '':'' \<notin> set a" "CHR '':'' \<notin> set b" "CHR '':'' \<notin> set c"
  shows "split3 (a @ '':'' @ b @ '':'' @ c) = Some (a, b, c)"
proof -
  let ?s = "a @ CHR '':'' # b @ CHR '':'' # c"
  have p1: "find_char (CHR '':'') 0 ?s = Some (length a)"
    using find_char_append [of "CHR '':''" a "[]" "b @ CHR '':'' # c"] assms by simp
  have p2: "find_char (CHR '':'') (Suc (length a)) ?s = Some (Suc (length a + length b))"
    using find_char_append [of "CHR '':''" b "a @ '':''" c] assms by simp
  have p3: "find_char (CHR '':'') (Suc (Suc (length a + length b))) ?s = None"
    using assms by (simp add: find_char_def Let_def)
  show ?thesis
    using p1 p2 p3 by (simp add: split3_def substr_def)
qed

lemma split3_SomeD:
  assumes "split3 s = Some (a, b, c)"
  shows "s = a @ '':'' @ b @ '':'' @ c \<and> CHR '':'' \<notin> set a \<and> CHR '':'' \<notin> set b \<and> CHR '':'' \<notin> set c"
proof -
  obtain p1 p2 where p1: "find_char (CHR '':'') 0 s = Some p1"
    and p2: "find_char (CHR '':'') (p1 + 1) s = Some p2"
    and p3: "find_char (CHR '':'') (p2 + 1) s = None"
    and abc: "a = substr 0 p1 s" "b = substr (p1 + 1) (p2 - p1 - 1) s" "c = drop (p2 + 1) s"
    using assms by (auto simp: split3_def split: option.splits if_splits)
  have A: "p1 < length s \<and> CHR '':'' \<notin> set a \<and> s = a @ CHR '':'' # drop (p1 + 1) s"
    using find_char_SomeD [OF p1] abc(1) by (simp add: substr_def)
  then have "p1 + 1 \<le> length s" by simp
  from find_char_SomeD [OF p2 this] have B: "CHR '':'' \<notin> set b \<and> drop (p1 + 1) s = b @ CHR '':'' # c"
    using abc(2,3) by (simp add: substr_def)
  have C: "CHR '':'' \<notin> set c"
    using find_char_NoneD [OF p3] abc(3) by simp
  have "s = a @ CHR '':'' # b @ CHR '':'' # c" using A B by metis
  then show ?thesis using A B C by simp
qed

text \<open>What \<open>verifyChallenge\<close> hashes for the proof.\<close>

definition proof_digest :: "string \<Rightarrow> string \<Rightarrow> byte list" where
  "proof_digest challenge nonce = fips_sha256 (bytes_of_string challenge @ bytes_of_string nonce)"

lemma verifyChallenge_proof:
  "digest (update (bytes_of_string nonce) (update (bytes_of_string challenge) (sha256_init (replicate 64 0))))
   = proof_digest challenge nonce"
  by (simp add: proof_digest_def digest_zero_init)

lemma gcLocked_None:
  "gcLocked m now k = None \<longleftrightarrow> (\<forall>e. m k = Some e \<longrightarrow> e \<le> now)"
  by (auto simp: gcLocked_def split: option.splits)

lemma gcLocked_Some [simp]: "gcLocked m now k = Some e \<longleftrightarrow> m k = Some e \<and> now < e"
  by (auto simp: gcLocked_def split: option.splits)

lemma verify_Ok_cases:
  assumes "verifyChallenge st challenge nonce bits now = Inr (Ok, st')"
  obtains nonceHex expStr exp where
    "challenge = nonceHex @ '':'' @ expStr @ '':'' @ hmacHex st (nonceHex @ '':'' @ expStr)"
    "split3 challenge = Some (nonceHex, expStr, hmacHex st (nonceHex @ '':'' @ expStr))"
    "nonceHex \<noteq> []" "expStr \<noteq> []" "stoll expStr = Some exp" "now < exp"
    "meetsDifficulty (proof_digest challenge nonce) bits = Inr True"
    "gcLocked (seen st) now nonceHex = None"
    "st' = st\<lparr>seen := (gcLocked (seen st) now)(nonceHex \<mapsto> exp)\<rparr>"
proof -
  obtain nonceHex expStr macHex where s: "split3 challenge = Some (nonceHex, expStr, macHex)"
    using assms by (auto simp: verifyChallenge_def split: option.splits)
  note v = assms [unfolded verifyChallenge_def s option.case prod.case verifyChallenge_proof Let_def ctEqualStr_eq]
  have mac: "macHex = hmacHex st (nonceHex @ '':'' @ expStr)" and ne: "nonceHex \<noteq> []" "expStr \<noteq> []"
    using v by (auto split: if_splits)
  obtain exp where e: "stoll expStr = Some exp" "now < exp"
    using v by (auto split: if_splits option.splits)
  have d: "meetsDifficulty (proof_digest challenge nonce) bits = Inr True"
    using v by (auto split: if_splits option.splits sum.splits bool.splits)
  have l: "gcLocked (seen st) now nonceHex = None"
    "st' = st\<lparr>seen := (gcLocked (seen st) now)(nonceHex \<mapsto> exp)\<rparr>"
    using v e d by (auto split: if_splits option.splits)
  show ?thesis
    using that split3_SomeD [OF s] s mac ne e d l by blast
qed

lemma verify_Ok_intro:
  assumes "challenge = nonceHex @ '':'' @ expStr @ '':'' @ hmacHex st (nonceHex @ '':'' @ expStr)"
    and "CHR '':'' \<notin> set nonceHex" "CHR '':'' \<notin> set expStr"
    and "nonceHex \<noteq> []" "expStr \<noteq> []" "stoll expStr = Some exp" "now < exp"
    and "meetsDifficulty (proof_digest challenge nonce) bits = Inr True"
    and "gcLocked (seen st) now nonceHex = None"
  shows "verifyChallenge st challenge nonce bits now
    = Inr (Ok, st\<lparr>seen := (gcLocked (seen st) now)(nonceHex \<mapsto> exp)\<rparr>)"
proof -
  have s: "split3 challenge = Some (nonceHex, expStr, hmacHex st (nonceHex @ '':'' @ expStr))"
    using split3_join [of nonceHex expStr "hmacHex st (nonceHex @ '':'' @ expStr)"] assms(1-3) by simp
  show ?thesis
    unfolding verifyChallenge_def s option.case prod.case verifyChallenge_proof Let_def ctEqualStr_eq
    using assms by simp
qed

text \<open>
  C3: what an accepted proof is. \<open>verifyChallenge\<close> answers \<open>Ok\<close> exactly for a challenge that carries
  this process's MAC of its nonce and expiry, is unexpired, has a proof of the required difficulty over
  the whole token and whose nonce is not in the ledger; and it then records that nonce with the token's
  own expiry and nothing else changes.
\<close>

theorem verifyChallenge_Ok_iff:
  "verifyChallenge st challenge nonce bits now = Inr (Ok, st') \<longleftrightarrow>
   (\<exists>nonceHex expStr exp.
      challenge = nonceHex @ '':'' @ expStr @ '':'' @ hmacHex st (nonceHex @ '':'' @ expStr)
      \<and> CHR '':'' \<notin> set nonceHex \<and> CHR '':'' \<notin> set expStr \<and> nonceHex \<noteq> [] \<and> expStr \<noteq> []
      \<and> stoll expStr = Some exp \<and> now < exp
      \<and> meetsDifficulty (proof_digest challenge nonce) bits = Inr True
      \<and> gcLocked (seen st) now nonceHex = None
      \<and> st' = st\<lparr>seen := (gcLocked (seen st) now)(nonceHex \<mapsto> exp)\<rparr>)"
  (is "?L = ?R")
proof
  assume ?L
  then show ?R by (rule verify_Ok_cases) (blast dest: split3_SomeD)
next
  assume ?R
  then show ?L by (elim exE conjE) (simp add: verify_Ok_intro)
qed

lemma toHex_no_colon [simp]: "CHR '':'' \<notin> set (toHex d)"
proof -
  have "CHR '':'' \<notin> set kHex" by (simp add: kHex_def)
  then show ?thesis using set_hex_string unfolding toHex_def by blast
qed

lemma meetsDifficulty_0: "meetsDifficulty d 0 = Inr True"
  by (simp add: meetsDifficulty_def c_div_def c_mod_def zero_prefix_loop.simps)

text \<open>
  C12: a challenge is honoured. A token issued at \<open>t0\<close> with window \<open>w\<close> is accepted at any time before
  \<open>t0 + w\<close> with a proof that meets the difficulty, unless its nonce is already in the ledger: it is
  never refused as malformed, forged, expired or for its proof.
\<close>

theorem issued_challenge_accepted:
  assumes "issueChallenge st w t0 g = (challenge, g')"
    and "now < t0 + w" and "int_min64 \<le> t0 + w" and "t0 + w \<le> int_max64"
    and "meetsDifficulty (proof_digest challenge nonce) bits = Inr True"
    and "seen st (toHex (fst (randomBytesVec 16 g))) = None"
  shows "verifyChallenge st challenge nonce bits now
    = Inr (Ok, st\<lparr>seen := (gcLocked (seen st) now)(toHex (fst (randomBytesVec 16 g)) \<mapsto> t0 + w)\<rparr>)"
proof -
  let ?n = "toHex (fst (randomBytesVec 16 g))"
  have c: "challenge = ?n @ '':'' @ to_string (t0 + w) @ '':'' @ hmacHex st (?n @ '':'' @ to_string (t0 + w))"
    using assms(1) by (auto simp: issueChallenge_def Let_def split: prod.splits)
  have "length (fst (randomBytesVec 16 g)) = 16" by (simp add: randomBytesVec_def)
  then have "?n \<noteq> []" unfolding toHex_def by (metis length_hex_string list.size(3) mult_eq_0_iff zero_neq_numeral)
  then show ?thesis
    using assms(2-6) by (intro verify_Ok_intro [OF c]) (simp_all add: stoll_to_string gcLocked_None)
qed

theorem issued_challenge_accepted_witness:
  "verifyChallenge captcha_start (fst (issueChallenge captcha_start 60 1000 (rng_instance 1))) ''x'' 0 1059
    = Inr (Ok, captcha_start\<lparr>seen := (gcLocked (seen captcha_start) 1059)
        (toHex (fst (randomBytesVec 16 (rng_instance 1))) \<mapsto> 1000 + 60)\<rparr>)"
proof (rule issued_challenge_accepted)
  show "issueChallenge captcha_start 60 1000 (rng_instance 1)
    = (fst (issueChallenge captcha_start 60 1000 (rng_instance 1)),
       snd (issueChallenge captcha_start 60 1000 (rng_instance 1)))" by simp
qed (simp_all add: captcha_start_def meetsDifficulty_0 int_min64_def int_max64_def)

section \<open>Single use\<close>

text \<open>The calls a process serves, in order, each with the time it reads.\<close>

record verify_call =
  v_challenge :: string
  v_nonce :: string
  v_bits :: int
  v_now :: int

fun verify_calls :: "captcha \<Rightarrow> verify_call list \<Rightarrow> verify_result option list" where
  "verify_calls st [] = []"
| "verify_calls st (c # cs) =
     (case verifyChallenge st (v_challenge c) (v_nonce c) (v_bits c) (v_now c) of
        Inl e \<Rightarrow> None # verify_calls st cs
      | Inr (r, st') \<Rightarrow> Some r # verify_calls st' cs)"

lemma length_verify_calls [simp]: "length (verify_calls st cs) = length cs"
  by (induction st cs rule: verify_calls.induct) (auto split: sum.splits)

lemma verify_state:
  assumes "verifyChallenge st c n bits now = Inr (r, st')"
  shows "secret st' = secret st
    \<and> (seen st nh = Some e \<and> now < e \<longrightarrow> seen st' nh = Some e)"
proof (cases "r = Ok")
  case True
  then show ?thesis using assms by (auto elim!: verify_Ok_cases simp: gcLocked_None)
next
  case False
  have "st' = st \<or> st' = st\<lparr>seen := gcLocked (seen st) now\<rparr>"
    using assms False
    by (auto simp: verifyChallenge_def Let_def split: option.splits if_splits sum.splits bool.splits)
  then show ?thesis by auto
qed

lemma spent_stays_spent:
  assumes "split3 c = Some (nh, es, mh)" and "stoll es = Some e"
    and "seen st nh = Some e \<or> (\<forall>x \<in> set cs. e \<le> v_now x)" and "sorted (map v_now cs)"
    and "j < length cs" and "v_challenge (cs ! j) = c"
  shows "verify_calls st cs ! j \<noteq> Some Ok"
  using assms(3-)
proof (induction cs arbitrary: st j)
  case (Cons x cs)
  let ?v = "verifyChallenge st (v_challenge x) (v_nonce x) (v_bits x) (v_now x)"
  show ?case
  proof (cases j)
    case 0
    have "?v \<noteq> Inr (Ok, st')" for st'
    proof
      assume "?v = Inr (Ok, st')"
      then show False
      proof (rule verify_Ok_cases)
        fix nh' es' e'
        assume "split3 (v_challenge x) = Some (nh', es', hmacHex st (nh' @ '':'' @ es'))"
          and "stoll es' = Some e'" "v_now x < e'" "gcLocked (seen st) (v_now x) nh' = None"
        then show False using assms(1,2) Cons.prems 0 by (auto simp: gcLocked_None)
      qed
    qed
    then show ?thesis using 0 by (auto split: sum.splits)
  next
    case (Suc k)
    show ?thesis
    proof (cases ?v)
      case (Inl e')
      have "verify_calls st cs ! k \<noteq> Some Ok"
        using Cons.prems Suc by (intro Cons.IH) auto
      then show ?thesis using Inl Suc by simp
    next
      case (Inr p)
      obtain r st' where p: "p = (r, st')" by (cases p)
      have "seen st' nh = Some e \<or> (\<forall>y \<in> set cs. e \<le> v_now y)"
        using verify_state [OF Inr [unfolded p]] Cons.prems(1,2) by fastforce
      then show ?thesis using Cons Suc Inr p by simp
    qed
  qed
qed simp

text \<open>
  C4: a proof of work buys one room. In any run of \<open>verifyChallenge\<close> calls whose clock does not run
  backwards, started from any ledger, no challenge string is accepted twice, whatever proofs and
  difficulties accompany it.
\<close>

theorem challenge_single_use:
  assumes "sorted (map v_now cs)" and "i < j" and "j < length cs"
    and "v_challenge (cs ! i) = v_challenge (cs ! j)"
    and "verify_calls st cs ! i = Some Ok"
  shows "verify_calls st cs ! j \<noteq> Some Ok"
  using assms
proof (induction cs arbitrary: st i j)
  case (Cons x cs)
  let ?v = "verifyChallenge st (v_challenge x) (v_nonce x) (v_bits x) (v_now x)"
  obtain k where j: "j = Suc k" using Cons.prems(2) by (cases j) auto
  show ?case
  proof (cases i)
    case 0
    then obtain st' where v: "?v = Inr (Ok, st')" using Cons.prems(5) by (auto split: sum.splits)
    then obtain nh es e where s: "split3 (v_challenge x) = Some (nh, es, hmacHex st (nh @ '':'' @ es))"
        "stoll es = Some e" "seen st' nh = Some e"
      by (rule verify_Ok_cases) auto
    then have "verify_calls st' cs ! k \<noteq> Some Ok"
      using Cons.prems 0 j by (intro spent_stays_spent [OF s(1,2)]) auto
    then show ?thesis using v j by simp
  next
    case (Suc m)
    then show ?thesis using Cons j by (auto split: sum.splits)
  qed
qed simp

text \<open>A call that presents a token the process signed, with the expiry written in it.\<close>

definition signed_call :: "captcha \<Rightarrow> string \<Rightarrow> int \<Rightarrow> int \<Rightarrow> verify_call" where
  "signed_call st nh e now =
     \<lparr>v_challenge = nh @ '':'' @ to_string e @ '':'' @ hmacHex st (nh @ '':'' @ to_string e),
      v_nonce = ''x'', v_bits = 0, v_now = now\<rparr>"

theorem challenge_single_use_witness:
  "verify_calls captcha_start [signed_call captcha_start ''ab'' 9 3, signed_call captcha_start ''ab'' 9 4] ! 1
    \<noteq> Some Ok"
proof -
  let ?c = "\<lambda>t. signed_call captcha_start ''ab'' 9 t"
  have "verifyChallenge captcha_start (v_challenge (?c 3)) (v_nonce (?c 3)) (v_bits (?c 3)) (v_now (?c 3))
    = Inr (Ok, captcha_start\<lparr>seen := (gcLocked (seen captcha_start) 3)(''ab'' \<mapsto> 9)\<rparr>)"
    unfolding signed_call_def verify_call.select_convs
    by (rule verify_Ok_intro [where expStr = "to_string 9"])
      (simp_all add: stoll_to_string meetsDifficulty_0 captcha_start_def gcLocked_None int_min64_def int_max64_def)
  then have "verify_calls captcha_start [?c 3, ?c 4] ! 0 = Some Ok"
    by simp
  then show ?thesis
    by (intro challenge_single_use [where i = 0]) (simp_all add: signed_call_def)
qed

end
