(* ===== verification/Ini.thy ===== *)
theory Ini
  imports Clib
begin

text \<open>
  src/src/config/ini_backend/ini.c and src/src/config/inireader.cpp: the INI parser, with the options
  it is built with (a 200-byte line buffer on the stack, multi-line values, a byte order mark, \<open>;\<close>
  as the inline comment character, \<open>;\<close> and \<open>#\<close> at the start of a line, no stop on the first error),
  and the reader that keeps the values under lower-case \<open>section=name\<close> keys. A \<open>char*\<close> into the line
  buffer is the rest of the line from there.
\<close>

section \<open>Scanning a line\<close>

definition ini_rstrip :: "string \<Rightarrow> string" where
  "ini_rstrip s = rev (dropWhile is_space (rev s))"

definition ini_lskip :: "string \<Rightarrow> string" where
  "ini_lskip s = dropWhile is_space s"

definition ini_inline_comment_prefixes :: string where "ini_inline_comment_prefixes = '';''"
definition ini_start_comment_prefixes :: string where "ini_start_comment_prefixes = '';#''"

text \<open>The text before the position found, and the rest from that position.\<close>

fun find_chars_loop :: "bool \<Rightarrow> string \<Rightarrow> string \<Rightarrow> string \<times> string" where
  "find_chars_loop was_space chars [] = ([], [])"
| "find_chars_loop was_space chars (c # cs) =
     (if c \<notin> set chars \<and> \<not> (was_space \<and> c \<in> set ini_inline_comment_prefixes)
      then let (before, rest) = find_chars_loop (is_space c) chars cs in (c # before, rest)
      else ([], c # cs))"

definition ini_find_chars_or_comment :: "string \<Rightarrow> string \<Rightarrow> string \<times> string" where
  "ini_find_chars_or_comment s chars = find_chars_loop False chars s"

definition ini_strncpy0 :: "string \<Rightarrow> nat \<Rightarrow> string" where
  "ini_strncpy0 src sz = take (sz - 1) src"

definition MAX_SECTION :: nat where "MAX_SECTION = 50"
definition MAX_NAME :: nat where "MAX_NAME = 50"
definition INI_MAX_LINE :: nat where "INI_MAX_LINE = 200"

text \<open>
  \<open>fgets\<close>, and \<open>ini_reader_string\<close> on a string: up to \<open>num - 1\<close> bytes, no further than a newline.
\<close>

fun read_line :: "nat \<Rightarrow> string \<Rightarrow> string \<times> string" where
  "read_line 0 s = ([], s)"
| "read_line (Suc n) [] = ([], [])"
| "read_line (Suc n) (c # cs) =
     (if c = CHR 0x0A then ([c], cs) else let (l, r) = read_line n cs in (c # l, r))"

definition ini_reader :: "nat \<Rightarrow> string \<Rightarrow> (string \<times> string) option" where
  "ini_reader num s = (if s = [] \<or> num < 2 then None else Some (read_line (num - 1) s))"

section \<open>The parser\<close>

record 'u ini_state =
  ini_section :: string
  prev_name :: string
  lineno :: int
  ini_error :: int
  user :: 'u

type_synonym 'u ini_handler = "string \<Rightarrow> string \<Rightarrow> string \<Rightarrow> 'u \<Rightarrow> bool \<times> 'u"

definition set_error :: "'u ini_state \<Rightarrow> 'u ini_state" where
  "set_error st = (if ini_error st = 0 then st\<lparr>ini_error := lineno st\<rparr> else st)"

definition call_handler :: "'u ini_handler \<Rightarrow> string \<Rightarrow> string \<Rightarrow> 'u ini_state \<Rightarrow> 'u ini_state" where
  "call_handler h name value st =
     (let (ok, u) = h (ini_section st) name value (user st); st = st\<lparr>user := u\<rparr>
      in if \<not> ok then set_error st else st)"

definition skip_bom :: "int \<Rightarrow> string \<Rightarrow> string" where
  "skip_bom n line =
     (if n = 1 \<and> take 3 line = [CHR 0xEF, CHR 0xBB, CHR 0xBF] then drop 3 line else line)"

text \<open>One line, from the buffer as it was read; a NUL in it ends it.\<close>

definition ini_line :: "'u ini_handler \<Rightarrow> string \<Rightarrow> 'u ini_state \<Rightarrow> 'u ini_state" where
  "ini_line h buf st =
     (let st = st\<lparr>lineno := lineno st + 1\<rparr>;
          line = cstr buf;
          start = ini_rstrip (ini_lskip (skip_bom (lineno st) line));
          indented = (length (ini_lskip (skip_bom (lineno st) line)) < length line)
      in if start = [] \<or> hd start \<in> set ini_start_comment_prefixes then st
         else if prev_name st \<noteq> [] \<and> indented
         then call_handler h (prev_name st) (ini_rstrip (fst (ini_find_chars_or_comment start []))) st
         else if hd start = CHR ''[''
         then let (before, end) = ini_find_chars_or_comment (tl start) '']''
              in if peek end = CHR '']''
                 then st\<lparr>ini_section := ini_strncpy0 before MAX_SECTION, prev_name := []\<rparr>
                 else set_error st
         else let (before, end) = ini_find_chars_or_comment start ''=:''
              in if peek end = CHR ''='' \<or> peek end = CHR '':''
                 then let name = ini_rstrip before;
                          value = ini_rstrip (ini_lskip (fst (ini_find_chars_or_comment (tl end) [])));
                          st = st\<lparr>prev_name := ini_strncpy0 name MAX_NAME\<rparr>
                      in call_handler h name value st
                 else set_error st)"

lemma read_line_append: "read_line n s = (l, r) \<Longrightarrow> s = l @ r \<and> (0 < n \<longrightarrow> s \<noteq> [] \<longrightarrow> l \<noteq> [])"
  by (induction n s arbitrary: l rule: read_line.induct) (auto split: if_splits prod.splits)

lemma ini_reader_shorter: "ini_reader num s = Some (l, r) \<Longrightarrow> length r < length s"
  using read_line_append [of "num - 1" s l r] by (auto simp: ini_reader_def split: if_splits)

function ini_parse_loop :: "'u ini_handler \<Rightarrow> string \<Rightarrow> 'u ini_state \<Rightarrow> 'u ini_state" where
  "ini_parse_loop h s st =
     (case ini_reader INI_MAX_LINE s of
        None \<Rightarrow> st
      | Some (line, rest) \<Rightarrow> ini_parse_loop h rest (ini_line h line st))"
  by pat_completeness auto
termination
  by (relation "measure (\<lambda>(h, s, st). length s)") (auto dest!: ini_reader_shorter)

declare ini_parse_loop.simps [simp del]

definition ini_parse_stream :: "'u ini_handler \<Rightarrow> string \<Rightarrow> 'u \<Rightarrow> int \<times> 'u" where
  "ini_parse_stream h s u =
     (let st = ini_parse_loop h s \<lparr>ini_section = [], prev_name = [], lineno = 0, ini_error = 0, user = u\<rparr>
      in (ini_error st, user st))"

text \<open>\<open>ini_parse\<close> on a file: its bytes, or \<open>None\<close> where \<open>fopen\<close> fails; \<open>ini_parse_string\<close> stops at a NUL.\<close>

definition ini_parse :: "'u ini_handler \<Rightarrow> string option \<Rightarrow> 'u \<Rightarrow> int \<times> 'u" where
  "ini_parse h file u = (case file of None \<Rightarrow> (-1, u) | Some s \<Rightarrow> ini_parse_stream h s u)"

definition ini_parse_string :: "'u ini_handler \<Rightarrow> string \<Rightarrow> 'u \<Rightarrow> int \<times> 'u" where
  "ini_parse_string h s u = ini_parse_stream h (cstr s) u"

section \<open>The reader\<close>

text \<open>\<open>_values\<close> as an association list without repeated keys.\<close>

type_synonym ini_values = "(string \<times> string) list"

record ini_reader_obj =
  parse_error :: int
  ini_map :: ini_values

definition MakeKey :: "string \<Rightarrow> string \<Rightarrow> string" where
  "MakeKey section name = map to_lower (section @ ''='' @ name)"

fun update_value :: "string \<Rightarrow> (string \<Rightarrow> string) \<Rightarrow> ini_values \<Rightarrow> ini_values" where
  "update_value k f [] = [(k, f [])]"
| "update_value k f ((k', v) # m) = (if k = k' then (k, f v) # m else (k', v) # update_value k f m)"

definition ValueHandler :: "ini_values ini_handler" where
  "ValueHandler section name value m =
     (True, update_value (MakeKey section name) (\<lambda>old. (if 0 < length old then old @ [CHR 0x0A] else old) @ value) m)"

definition INIReader :: "string option \<Rightarrow> ini_reader_obj" where
  "INIReader file = (let (e, m) = ini_parse ValueHandler file [] in \<lparr>parse_error = e, ini_map = m\<rparr>)"

definition Get :: "ini_reader_obj \<Rightarrow> string \<Rightarrow> string \<Rightarrow> string \<Rightarrow> string" where
  "Get r section name default_value =
     (case map_of (ini_map r) (MakeKey section name) of None \<Rightarrow> default_value | Some v \<Rightarrow> v)"

definition GetString :: "ini_reader_obj \<Rightarrow> string \<Rightarrow> string \<Rightarrow> string \<Rightarrow> string" where
  "GetString r section name default_value =
     (let str = Get r section name [] in if str = [] then default_value else str)"

definition GetInteger :: "ini_reader_obj \<Rightarrow> string \<Rightarrow> string \<Rightarrow> int \<Rightarrow> int" where
  "GetInteger r section name default_value =
     (case strtol_base0 (Get r section name []) of None \<Rightarrow> default_value | Some n \<Rightarrow> n)"

definition GetBoolean :: "ini_reader_obj \<Rightarrow> string \<Rightarrow> string \<Rightarrow> bool \<Rightarrow> bool" where
  "GetBoolean r section name default_value =
     (let valstr = map to_lower (Get r section name [])
      in if valstr \<in> set [''true'', ''yes'', ''on'', ''1''] then True
         else if valstr \<in> set [''false'', ''no'', ''off'', ''0''] then False
         else default_value)"

text \<open>The least key not below \<open>section=\<close> starts with it exactly when some key does.\<close>

definition HasSection :: "ini_reader_obj \<Rightarrow> string \<Rightarrow> bool" where
  "HasSection r section =
     (let key = MakeKey section [] in list_ex (\<lambda>kv. take (length key) (fst kv) = key) (ini_map r))"

definition HasValue :: "ini_reader_obj \<Rightarrow> string \<Rightarrow> string \<Rightarrow> bool" where
  "HasValue r section name \<longleftrightarrow> map_of (ini_map r) (MakeKey section name) \<noteq> None"

section \<open>Well-formed files\<close>

text \<open>
  A file written entry by entry: a section line, then a \<open>name = value\<close> line. The parts are clean
  when nothing in them means something else to the parser: a name has no white space, separator or
  comment character and starts no section, a value is trimmed and has no \<open>;\<close>, both lines fit the buffer.
\<close>

definition clean_char :: "char \<Rightarrow> bool" where
  "clean_char c \<longleftrightarrow> c \<notin> set ''=:;'' \<and> c \<noteq> NUL \<and> c \<noteq> CHR 0x0A"

definition clean_section :: "string \<Rightarrow> bool" where
  "clean_section s \<longleftrightarrow> (\<forall>c \<in> set s. clean_char c \<and> c \<noteq> CHR '']'') \<and> length s < MAX_SECTION"

definition clean_name :: "string \<Rightarrow> bool" where
  "clean_name n \<longleftrightarrow> n \<noteq> [] \<and> (\<forall>c \<in> set n. clean_char c \<and> \<not> is_space c) \<and> hd n \<notin> set ''[#'' \<and> hd n \<noteq> CHR 0xEF"

definition clean_value :: "string \<Rightarrow> bool" where
  "clean_value v \<longleftrightarrow> (\<forall>c \<in> set v. c \<noteq> CHR '';'' \<and> c \<noteq> NUL \<and> c \<noteq> CHR 0x0A)
     \<and> (v \<noteq> [] \<longrightarrow> \<not> is_space (hd v) \<and> \<not> is_space (last v))"

definition section_line :: "string \<Rightarrow> string" where
  "section_line s = ''['' @ s @ '']'' @ [CHR 0x0A]"

definition value_line :: "string \<Rightarrow> string \<Rightarrow> string" where
  "value_line n v = n @ '' = '' @ v @ [CHR 0x0A]"

type_synonym ini_entry = "string \<times> string \<times> string"

definition clean_entry :: "ini_entry \<Rightarrow> bool" where
  "clean_entry e = (case e of (s, n, v) \<Rightarrow>
     clean_section s \<and> clean_name n \<and> clean_value v \<and> length (value_line n v) < INI_MAX_LINE)"

definition ini_render :: "ini_entry list \<Rightarrow> string" where
  "ini_render es = concat (map (\<lambda>(s, n, v). section_line s @ value_line n v) es)"

lemma read_line_nl:
  "CHR 0x0A \<notin> set l \<Longrightarrow> length l < n \<Longrightarrow> read_line n (l @ CHR 0x0A # r) = (l @ [CHR 0x0A], r)"
proof (induction l arbitrary: n)
  case Nil
  then show ?case by (cases n) auto
next
  case (Cons c l)
  then show ?case by (cases n) auto
qed

lemma find_chars_stop:
  "\<forall>c \<in> set a. c \<notin> set chars \<and> c \<noteq> CHR '';'' \<Longrightarrow> b = [] \<or> hd b \<in> set chars \<Longrightarrow>
   find_chars_loop w chars (a @ b) = (a, b)"
proof (induction a arbitrary: w)
  case Nil
  then show ?case by (cases b) auto
next
  case (Cons c a)
  then show ?case by (auto simp: ini_inline_comment_prefixes_def)
qed

lemma ini_rstrip_append_space: "is_space c \<Longrightarrow> ini_rstrip (s @ [c]) = ini_rstrip s"
  by (simp add: ini_rstrip_def)

lemma ini_rstrip_id: "s = [] \<or> \<not> is_space (last s) \<Longrightarrow> ini_rstrip s = s"
  by (cases s rule: rev_cases) (auto simp: ini_rstrip_def)

lemma ini_lskip_id: "s = [] \<or> \<not> is_space (hd s) \<Longrightarrow> ini_lskip s = s"
  by (cases s) (auto simp: ini_lskip_def)

lemma space_chars [simp]:
  "is_space (CHR '' '')" "is_space (CHR 0x0A)" "\<not> is_space (CHR ''['')" "\<not> is_space (CHR '']'')" "\<not> is_space (CHR ''='')"
  by (simp_all add: is_space_def char_between_def)

lemma ini_line_section:
  assumes "clean_section s"
  shows "ini_line h (section_line s) st
    = st\<lparr>lineno := lineno st + 1, ini_section := s, prev_name := []\<rparr>"
proof -
  have nul: "NUL \<notin> set (section_line s)"
    using assms by (auto simp: section_line_def clean_section_def clean_char_def NUL_def)
  have f: "find_chars_loop False '']'' (s @ '']'') = (s, '']'')"
    using assms by (intro find_chars_stop) (auto simp: clean_section_def clean_char_def)
  have r: "ini_rstrip (section_line s) = CHR ''['' # s @ '']''"
    using ini_rstrip_append_space [of "CHR 0x0A" "CHR ''['' # s @ '']''"]
    by (simp add: section_line_def ini_rstrip_id)
  have b: "skip_bom n (section_line s) = section_line s" for n
    by (simp add: skip_bom_def section_line_def)
  have l: "ini_lskip (section_line s) = section_line s" by (simp add: section_line_def ini_lskip_def)
  have "take (MAX_SECTION - 1) s = s" using assms by (simp add: clean_section_def MAX_SECTION_def)
  then show ?thesis
    using nul f by (simp add: ini_line_def Let_def b l r ini_find_chars_or_comment_def ini_strncpy0_def
        ini_start_comment_prefixes_def)
qed

lemma ini_line_value:
  assumes "clean_name n" and "clean_value v"
  shows "ini_line h (value_line n v) st
    = call_handler h n v (st\<lparr>lineno := lineno st + 1, prev_name := ini_strncpy0 n MAX_NAME\<rparr>)"
proof -
  obtain c cs where n: "n = c # cs" using assms(1) by (cases n) (auto simp: clean_name_def)
  have c: "\<not> is_space c" "c \<noteq> CHR '';''" "c \<noteq> CHR ''#''" "c \<noteq> CHR ''[''" "c \<noteq> CHR 0xEF"
    using assms(1) by (auto simp: clean_name_def clean_char_def n)
  have nul: "NUL \<notin> set (value_line n v)"
    using assms by (auto simp: value_line_def clean_name_def clean_value_def clean_char_def NUL_def)
  define body where "body = (if v = [] then ''='' else ''= '' @ v)"
  have r: "ini_rstrip (value_line n v) = n @ '' '' @ body"
  proof (cases "v = []")
    case True
    then show ?thesis
      using ini_rstrip_append_space [of "CHR 0x0A" "n @ '' = ''"] ini_rstrip_append_space [of "CHR '' ''" "n @ '' =''"]
      by (simp add: value_line_def body_def ini_rstrip_id)
  next
    case False
    then show ?thesis
      using assms(2) ini_rstrip_append_space [of "CHR 0x0A" "n @ '' = '' @ v"]
      by (simp add: value_line_def body_def clean_value_def ini_rstrip_id)
  qed
  have f: "find_chars_loop False ''=:'' ((n @ '' '') @ body) = (n @ '' '', body)"
    using assms(1) by (intro find_chars_stop) (auto simp: clean_name_def clean_char_def body_def)
  have g: "find_chars_loop False [] (tl body @ []) = (tl body, [])"
    using assms(2) by (intro find_chars_stop) (auto simp: clean_value_def body_def)
  have v: "ini_rstrip (ini_lskip (tl body)) = v"
    using assms(2) by (auto simp: body_def clean_value_def ini_lskip_def ini_rstrip_id
        ini_lskip_id [unfolded ini_lskip_def])
  have name: "ini_rstrip (n @ '' '') = n"
    using assms(1) ini_rstrip_append_space [of "CHR '' ''" n] by (simp add: clean_name_def ini_rstrip_id)
  have b: "skip_bom k (value_line n v) = value_line n v" for k
    using c by (simp add: skip_bom_def value_line_def n numeral_3_eq_3)
  have l: "ini_lskip (value_line n v) = value_line n v" using c by (simp add: value_line_def n ini_lskip_def)
  have p: "peek body = CHR ''=''" by (simp add: body_def)
  have h: "n \<noteq> []" "hd (n @ x) = c" for x by (simp_all add: n)
  show ?thesis
    using c nul f g v name p h
    by (simp add: ini_line_def Let_def b l r ini_find_chars_or_comment_def ini_start_comment_prefixes_def)
qed

lemma reader_line: "CHR 0x0A \<notin> set l \<Longrightarrow> Suc (length l) < INI_MAX_LINE \<Longrightarrow>
    ini_reader INI_MAX_LINE (l @ CHR 0x0A # r) = Some (l @ [CHR 0x0A], r)"
  using read_line_nl [of l "INI_MAX_LINE - 1" r] by (simp add: ini_reader_def INI_MAX_LINE_def)

lemma clean_no_newline:
  "clean_section s \<Longrightarrow> CHR 0x0A \<notin> set s"
  "clean_name s \<Longrightarrow> CHR 0x0A \<notin> set s"
  "clean_value s \<Longrightarrow> CHR 0x0A \<notin> set s"
  unfolding clean_section_def clean_name_def clean_value_def clean_char_def by blast+

lemma parse_entry:
  assumes "clean_entry (s, n, v)"
  shows "ini_parse_loop h (section_line s @ value_line n v @ r) st =
    ini_parse_loop h r (call_handler h n v
      (st\<lparr>ini_section := s, lineno := lineno st + 2, prev_name := ini_strncpy0 n MAX_NAME\<rparr>))"
proof -
  have c: "clean_section s" "clean_name n" "clean_value v" "length (value_line n v) < INI_MAX_LINE"
    using assms by (simp_all add: clean_entry_def)
  have nl: "CHR 0x0A \<notin> set (CHR ''['' # s @ '']'')" "CHR 0x0A \<notin> set (n @ '' = '' @ v)"
    using clean_no_newline c(1-3) by simp_all
  have len: "Suc (length (CHR ''['' # s @ '']'')) < INI_MAX_LINE" "Suc (length (n @ '' = '' @ v)) < INI_MAX_LINE"
    using c(1) c(4) by (simp_all add: clean_section_def MAX_SECTION_def INI_MAX_LINE_def value_line_def)
  have r1: "ini_reader INI_MAX_LINE (section_line s @ q) = Some (section_line s, q)" for q
    using reader_line [OF nl(1) len(1), of q] by (simp add: section_line_def)
  have r2: "ini_reader INI_MAX_LINE (value_line n v @ q) = Some (value_line n v, q)" for q
    using reader_line [OF nl(2) len(2), of q] by (simp add: value_line_def)
  show ?thesis
    by (simp add: ini_parse_loop.simps [of h "section_line s @ q" for q] r1 ini_line_section [OF c(1)]
        ini_parse_loop.simps [of h "value_line n v @ q" for q] r2 ini_line_value [OF c(2,3)] add.commute)
qed

lemma ini_reader_Nil [simp]: "ini_reader k [] = None"
  by (simp add: ini_reader_def)



end
