(* ===== verification/Config.thy ===== *)
theory Config
  imports Ini
begin

text \<open>
  src/src/config.h, src/src/config.cpp and the configuration part of src/src/main.cpp: the settings
  with their defaults, the loading of a configuration file, and the default file that
  \<open>--generate-config\<close> writes.
\<close>

record config =
  logLevel :: string
  bindAddress :: string
  bindPort :: int
  appName :: string
  adminText :: string
  dbPath :: string
  maxParticipants :: int
  maxParticipantsCap :: int
  idleTtlSeconds :: int
  totalRoomsCap :: int
  messageCacheSize :: int
  wsMaxPayloadBytes :: int
  challengeMaxBlobBytes :: int
  powDifficultyBits :: int

definition default_config :: config where
  "default_config =
     \<lparr>logLevel = ''info'', bindAddress = ''0.0.0.0'', bindPort = 8080, appName = ''HashHush'',
      adminText = [], dbPath = ''/var/lib/hashhush/hashhush.sqlite'',
      maxParticipants = 10, maxParticipantsCap = 50, idleTtlSeconds = 86400, totalRoomsCap = 0,
      messageCacheSize = 5, wsMaxPayloadBytes = 8192, challengeMaxBlobBytes = 256,
      powDifficultyBits = 16\<rparr>"

text \<open>
  A file that cannot be opened leaves the settings as they are and is a failure; a syntax error in a
  line is not (\<open>ParseError\<close> is then positive), the values found are used.
\<close>

definition loadFromFile :: "string option \<Rightarrow> config \<Rightarrow> bool \<times> config" where
  "loadFromFile file c =
     (let r = INIReader file
      in if parse_error r < 0 then (False, c)
         else (True,
           \<lparr>logLevel = Get r ''server'' ''log_level'' (logLevel c),
            bindAddress = Get r ''server'' ''bind_address'' (bindAddress c),
            bindPort = to_uint16 (GetInteger r ''server'' ''bind_port'' (bindPort c)),
            appName = Get r ''server'' ''app_name'' (appName c),
            adminText = Get r ''server'' ''admin_text'' (adminText c),
            dbPath = Get r ''storage'' ''db_path'' (dbPath c),
            maxParticipants = to_int32 (GetInteger r ''room'' ''max_participants'' (maxParticipants c)),
            maxParticipantsCap = to_int32 (GetInteger r ''room'' ''max_participants_cap'' (maxParticipantsCap c)),
            idleTtlSeconds = to_int32 (GetInteger r ''room'' ''idle_ttl_seconds'' (idleTtlSeconds c)),
            totalRoomsCap = to_int32 (GetInteger r ''room'' ''total_rooms_cap'' (totalRoomsCap c)),
            messageCacheSize = to_int32 (GetInteger r ''room'' ''message_cache_size'' (messageCacheSize c)),
            wsMaxPayloadBytes = to_int32 (GetInteger r ''room'' ''ws_max_payload_bytes'' (wsMaxPayloadBytes c)),
            challengeMaxBlobBytes = to_int32 (GetInteger r ''room'' ''challenge_max_blob_bytes'' (challengeMaxBlobBytes c)),
            powDifficultyBits = to_int32 (GetInteger r ''room'' ''pow_difficulty_bits'' (powDifficultyBits c))\<rparr>))"

definition kDefaultConfigContent :: string where
  "kDefaultConfigContent =
     concat (map (\<lambda>l. l @ [CHR 0x0A])
       [''[server]'',
        ''log_level = info'',
        ''bind_address = 0.0.0.0'',
        ''bind_port = 8080'',
        ''app_name = HashHush'',
        ''; Optional announcement shown on the home page below the server-info block.'',
        (''; Leave empty to hide the panel. Rendered as raw HTML '' @ [CHR 0xE2] @ [CHR 0x80] @ [CHR 0x94] @ '' links via <a>, line''),
        ''; breaks via <br>, etc. Treat this file as trusted; anyone who can edit it'',
        (''; can run arbitrary JS in visitors'' @ [CHR 0x27] @ '' browsers.''),
        ''admin_text ='',
        [],
        ''[storage]'',
        ''db_path = /var/lib/hashhush/hashhush.sqlite'',
        [],
        ''[room]'',
        ''max_participants = 10'',
        ''max_participants_cap = 50'',
        ''idle_ttl_seconds = 86400'',
        ''total_rooms_cap = 0'',
        ''message_cache_size = 5'',
        ''ws_max_payload_bytes = 8192'',
        ''challenge_max_blob_bytes = 256'',
        ''pow_difficulty_bits = 16''])"

text \<open>
  The file that \<open>--generate-config\<close> writes loads, and sets every setting to its documented
  default, whatever the settings were before.
\<close>

lemma default_file_loads: "loadFromFile (Some kDefaultConfigContent) c = (True, default_config)"
  by code_simp

end
