(* ===== verification/Sqlite.thy ===== *)
theory Sqlite
  imports Clib
begin

text \<open>
  The boundary with SQLite. The program's statements are the texts in src/src/db.cpp, kept here
  verbatim; the engine that runs them is not part of the repository and is a parameter: a function
  from a statement's text, its bound parameters and the connection's state to a result and a new
  state. What the program relies on is the documented effect of each of its statements on the three
  tables (\<open>exec_stmt\<close>), that a statement that fails has no effect of its own, and that a failure may
  roll an open transaction back.
\<close>

section \<open>The statements\<close>

datatype sql_stmt =
    Schema | Begin | Begin_Immediate | Commit | Rollback
  | Insert_Room | Select_Room | Delete_Room | Count_Rooms | Touch_Room | Idle_Rooms | Activate_Room
  | Insert_Challenge | Count_Unused | Select_Unused | Use_Challenge
  | Insert_Token | Select_Token

definition kSchema :: string where
  "kSchema =
     concat (map (\<lambda>l. l @ [CHR 0x0A])
        [[],
         ''PRAGMA foreign_keys = ON;'',
         ''PRAGMA journal_mode = WAL;'',
         ''PRAGMA synchronous  = NORMAL;'',
         [],
         ''CREATE TABLE IF NOT EXISTS rooms ('',
         ''    id                 TEXT PRIMARY KEY,'',
         ''    name               TEXT NOT NULL,'',
         ''    max_participants   INTEGER NOT NULL,'',
         ''    created_at         INTEGER NOT NULL,'',
         ''    last_active_at     INTEGER NOT NULL,'',
         ''    activated          INTEGER NOT NULL DEFAULT 0,'',
         ''    requires_password  INTEGER NOT NULL DEFAULT 0'',
         '');'',
         [],
         ''CREATE TABLE IF NOT EXISTS challenges ('',
         ''    id           INTEGER PRIMARY KEY AUTOINCREMENT,'',
         ''    room_id      TEXT NOT NULL REFERENCES rooms(id) ON DELETE CASCADE,'',
         ''    plaintext_b64  TEXT NOT NULL,'',
         ''    ciphertext_b64 TEXT NOT NULL,'',
         ''    nonce_b64      TEXT NOT NULL,'',
         ''    used         INTEGER NOT NULL DEFAULT 0'',
         '');'',
         ''CREATE INDEX IF NOT EXISTS idx_challenges_room_unused ON challenges(room_id, used);'',
         [],
         ''CREATE TABLE IF NOT EXISTS access_tokens ('',
         ''    token        TEXT PRIMARY KEY,'',
         ''    room_id      TEXT NOT NULL REFERENCES rooms(id) ON DELETE CASCADE,'',
         ''    created_at   INTEGER NOT NULL'',
         '');'',
         ''CREATE INDEX IF NOT EXISTS idx_tokens_room ON access_tokens(room_id);''])"

text \<open>\<open>strftime('%s','now')\<close>, the engine's own clock in seconds.\<close>

definition sql_now :: string where
  "sql_now = ''strftime('' @ [CHR 0x27] @ ''%s'' @ [CHR 0x27] @ '','' @ [CHR 0x27] @ ''now'' @ [CHR 0x27] @ '')''"

primrec sql_text :: "sql_stmt \<Rightarrow> string" where
  "sql_text Schema = kSchema"
| "sql_text Begin = ''BEGIN''"
| "sql_text Begin_Immediate = ''BEGIN IMMEDIATE''"
| "sql_text Commit = ''COMMIT''"
| "sql_text Rollback = ''ROLLBACK''"
| "sql_text Insert_Room =
     ''INSERT INTO rooms (id, name, max_participants, created_at, last_active_at, activated, requires_password) ''
     @ ''VALUES (?, ?, ?, ?, ?, ?, ?)''"
| "sql_text Select_Room =
     ''SELECT id, name, max_participants, created_at, last_active_at, activated, requires_password ''
     @ ''FROM rooms WHERE id = ?''"
| "sql_text Delete_Room = ''DELETE FROM rooms WHERE id = ?''"
| "sql_text Count_Rooms = ''SELECT COUNT(*) FROM rooms''"
| "sql_text Touch_Room = ''UPDATE rooms SET last_active_at = '' @ sql_now @ '' WHERE id = ?''"
| "sql_text Idle_Rooms = ''SELECT id FROM rooms WHERE last_active_at < ?''"
| "sql_text Activate_Room =
     ''UPDATE rooms SET activated = 1, last_active_at = '' @ sql_now @ '' WHERE id = ?''"
| "sql_text Insert_Challenge =
     ''INSERT INTO challenges (room_id, plaintext_b64, ciphertext_b64, nonce_b64) '' @ ''VALUES (?, ?, ?, ?)''"
| "sql_text Count_Unused = ''SELECT COUNT(*) FROM challenges WHERE room_id = ? AND used = 0''"
| "sql_text Select_Unused =
     ''SELECT id, plaintext_b64, ciphertext_b64, nonce_b64 ''
     @ ''FROM challenges WHERE room_id = ? AND used = 0 ORDER BY id LIMIT 1''"
| "sql_text Use_Challenge = ''UPDATE challenges SET used = 1 WHERE id = ?''"
| "sql_text Insert_Token =
     ''INSERT INTO access_tokens (token, room_id, created_at) '' @ ''VALUES (?, ?, '' @ sql_now @ '')''"
| "sql_text Select_Token = ''SELECT room_id FROM access_tokens WHERE token = ?''"

definition all_stmts :: "sql_stmt list" where
  "all_stmts = [Schema, Begin, Begin_Immediate, Commit, Rollback, Insert_Room, Select_Room, Delete_Room,
     Count_Rooms, Touch_Room, Idle_Rooms, Activate_Room, Insert_Challenge, Count_Unused, Select_Unused,
     Use_Challenge, Insert_Token, Select_Token]"

section \<open>Values, results and engines\<close>

datatype sql_value = SInt int | SText string

text \<open>
  \<open>Done n\<close> is \<open>SQLITE_DONE\<close> with \<open>sqlite3_changes() = n\<close>, \<open>Rows\<close> the rows a query steps through,
  \<open>Failed\<close> any other code, from preparing, binding or stepping.
\<close>

datatype sql_result = Done nat | Rows "sql_value list list" | Failed

type_synonym 'd sql_engine = "string \<Rightarrow> sql_value list \<Rightarrow> 'd \<Rightarrow> sql_result \<times> 'd"

section \<open>The tables\<close>

record room_row =
  r_id :: string
  r_name :: string
  r_max :: int
  r_created :: int
  r_active :: int
  r_activated :: int
  r_password :: int

record challenge_row =
  c_id :: int
  c_room :: string
  c_plain :: string
  c_cipher :: string
  c_nonce :: string
  c_used :: int

record token_row =
  t_token :: string
  t_room :: string
  t_created :: int

record tables =
  rooms :: "room_row list"
  challenges :: "challenge_row list"
  tokens :: "token_row list"
  sequence :: int

text \<open>\<open>saved\<close> holds the tables as they were when the open transaction, if any, began.\<close>

record db =
  tabs :: tables
  saved :: "tables option"

definition empty_db :: db where
  "empty_db = \<lparr>tabs = \<lparr>rooms = [], challenges = [], tokens = [], sequence = 0\<rparr>, saved = None\<rparr>"

section \<open>What the statements do\<close>

definition has_room :: "tables \<Rightarrow> string \<Rightarrow> bool" where
  "has_room t rid \<longleftrightarrow> list_ex (\<lambda>r. r_id r = rid) (rooms t)"

definition insert_room :: "room_row \<Rightarrow> tables \<Rightarrow> (sql_result \<times> tables)" where
  "insert_room r t =
     (if has_room t (r_id r) then (Failed, t) else (Done 1, t\<lparr>rooms := rooms t @ [r]\<rparr>))"

text \<open>Deleting a room deletes its challenges and its tokens (\<open>ON DELETE CASCADE\<close>).\<close>

definition delete_room :: "string \<Rightarrow> tables \<Rightarrow> (sql_result \<times> tables)" where
  "delete_room rid t =
     (Done (length (filter (\<lambda>r. r_id r = rid) (rooms t))),
      t\<lparr>rooms := filter (\<lambda>r. r_id r \<noteq> rid) (rooms t),
        challenges := filter (\<lambda>c. c_room c \<noteq> rid) (challenges t),
        tokens := filter (\<lambda>k. t_room k \<noteq> rid) (tokens t)\<rparr>)"

definition update_room :: "string \<Rightarrow> (room_row \<Rightarrow> room_row) \<Rightarrow> tables \<Rightarrow> (sql_result \<times> tables)" where
  "update_room rid f t =
     (Done (length (filter (\<lambda>r. r_id r = rid) (rooms t))),
      t\<lparr>rooms := map (\<lambda>r. if r_id r = rid then f r else r) (rooms t)\<rparr>)"

definition insert_challenge :: "string \<Rightarrow> string \<Rightarrow> string \<Rightarrow> string \<Rightarrow> tables \<Rightarrow> (sql_result \<times> tables)" where
  "insert_challenge room p c n t =
     (if has_room t room
      then (Done 1, t\<lparr>challenges := challenges t @
             [\<lparr>c_id = sequence t + 1, c_room = room, c_plain = p, c_cipher = c, c_nonce = n, c_used = 0\<rparr>],
           sequence := sequence t + 1\<rparr>)
      else (Failed, t))"

definition unused :: "string \<Rightarrow> tables \<Rightarrow> challenge_row list" where
  "unused room t = filter (\<lambda>c. c_room c = room \<and> c_used c = 0) (challenges t)"

definition use_challenge :: "int \<Rightarrow> tables \<Rightarrow> (sql_result \<times> tables)" where
  "use_challenge cid t =
     (Done (length (filter (\<lambda>c. c_id c = cid) (challenges t))),
      t\<lparr>challenges := map (\<lambda>c. if c_id c = cid then c\<lparr>c_used := 1\<rparr> else c) (challenges t)\<rparr>)"

definition insert_token :: "string \<Rightarrow> string \<Rightarrow> int \<Rightarrow> tables \<Rightarrow> (sql_result \<times> tables)" where
  "insert_token token room now t =
     (if list_ex (\<lambda>k. t_token k = token) (tokens t) \<or> \<not> has_room t room then (Failed, t)
      else (Done 1, t\<lparr>tokens := tokens t @ [\<lparr>t_token = token, t_room = room, t_created = now\<rparr>]\<rparr>))"

definition room_columns :: "room_row \<Rightarrow> sql_value list" where
  "room_columns r = [SText (r_id r), SText (r_name r), SInt (r_max r), SInt (r_created r), SInt (r_active r),
     SInt (r_activated r), SInt (r_password r)]"

text \<open>The challenge rows are kept in ascending order of their ids, so the first is the least.\<close>

definition challenge_columns :: "challenge_row \<Rightarrow> sql_value list" where
  "challenge_columns c = [SInt (c_id c), SText (c_plain c), SText (c_cipher c), SText (c_nonce c)]"

primrec arity :: "sql_stmt \<Rightarrow> nat" where
  "arity Schema = 0" | "arity Begin = 0" | "arity Begin_Immediate = 0" | "arity Commit = 0" | "arity Rollback = 0"
| "arity Insert_Room = 7" | "arity Select_Room = 1" | "arity Delete_Room = 1" | "arity Count_Rooms = 0"
| "arity Touch_Room = 1" | "arity Idle_Rooms = 1" | "arity Activate_Room = 1"
| "arity Insert_Challenge = 4" | "arity Count_Unused = 1" | "arity Select_Unused = 1" | "arity Use_Challenge = 1"
| "arity Insert_Token = 2" | "arity Select_Token = 1"

primrec as_text :: "sql_value \<Rightarrow> string" where
  "as_text (SText s) = s" | "as_text (SInt i) = to_string i"

primrec as_int :: "sql_value \<Rightarrow> int" where
  "as_int (SInt i) = i" | "as_int (SText s) = 0"

primrec exec_tables :: "sql_stmt \<Rightarrow> (nat \<Rightarrow> string) \<Rightarrow> (nat \<Rightarrow> int) \<Rightarrow> int \<Rightarrow> tables \<Rightarrow> sql_result \<times> tables" where
  "exec_tables Schema tx num now t = (Done 0, t)"
| "exec_tables Begin tx num now t = (Done 0, t)"
| "exec_tables Begin_Immediate tx num now t = (Done 0, t)"
| "exec_tables Commit tx num now t = (Done 0, t)"
| "exec_tables Rollback tx num now t = (Done 0, t)"
| "exec_tables Insert_Room tx num now t =
     insert_room \<lparr>r_id = tx 0, r_name = tx 1, r_max = num 2, r_created = num 3, r_active = num 4,
       r_activated = num 5, r_password = num 6\<rparr> t"
| "exec_tables Select_Room tx num now t =
     (Rows (map room_columns (filter (\<lambda>r. r_id r = tx 0) (rooms t))), t)"
| "exec_tables Delete_Room tx num now t = delete_room (tx 0) t"
| "exec_tables Count_Rooms tx num now t = (Rows [[SInt (of_nat (length (rooms t)))]], t)"
| "exec_tables Touch_Room tx num now t = update_room (tx 0) (\<lambda>r. r\<lparr>r_active := now\<rparr>) t"
| "exec_tables Idle_Rooms tx num now t =
     (Rows (map (\<lambda>r. [SText (r_id r)]) (filter (\<lambda>r. r_active r < num 0) (rooms t))), t)"
| "exec_tables Activate_Room tx num now t =
     update_room (tx 0) (\<lambda>r. r\<lparr>r_active := now, r_activated := 1\<rparr>) t"
| "exec_tables Insert_Challenge tx num now t = insert_challenge (tx 0) (tx 1) (tx 2) (tx 3) t"
| "exec_tables Count_Unused tx num now t = (Rows [[SInt (of_nat (length (unused (tx 0) t)))]], t)"
| "exec_tables Select_Unused tx num now t = (Rows (map challenge_columns (take 1 (unused (tx 0) t))), t)"
| "exec_tables Use_Challenge tx num now t = use_challenge (num 0) t"
| "exec_tables Insert_Token tx num now t = insert_token (tx 0) (tx 1) now t"
| "exec_tables Select_Token tx num now t =
     (Rows (map (\<lambda>k. [SText (t_room k)]) (filter (\<lambda>k. t_token k = tx 0) (tokens t))), t)"

text \<open>Transactions do not nest: \<open>BEGIN\<close> inside one and \<open>COMMIT\<close> or \<open>ROLLBACK\<close> outside one are errors.\<close>

definition begin_tx :: "db \<Rightarrow> sql_result \<times> db" where
  "begin_tx d = (case saved d of None \<Rightarrow> (Done 0, d\<lparr>saved := Some (tabs d)\<rparr>) | Some t \<Rightarrow> (Failed, d))"

definition exec_stmt :: "sql_stmt \<Rightarrow> sql_value list \<Rightarrow> int \<Rightarrow> db \<Rightarrow> sql_result \<times> db" where
  "exec_stmt stmt binds now d =
     (if length binds \<noteq> arity stmt then (Failed, d)
      else if stmt = Begin \<or> stmt = Begin_Immediate then begin_tx d
      else if stmt = Commit
      then (case saved d of None \<Rightarrow> (Failed, d) | Some t \<Rightarrow> (Done 0, d\<lparr>saved := None\<rparr>))
      else if stmt = Rollback
      then (case saved d of None \<Rightarrow> (Failed, d) | Some t \<Rightarrow> (Done 0, \<lparr>tabs = t, saved = None\<rparr>))
      else let (r, t) = exec_tables stmt (\<lambda>i. as_text (binds ! i)) (\<lambda>i. as_int (binds ! i)) now (tabs d)
           in (r, d\<lparr>tabs := t\<rparr>))"

text \<open>What may happen: the effect, or a failure that leaves the tables alone or ends the transaction.\<close>

definition auto_rollback :: "db \<Rightarrow> db" where
  "auto_rollback d = (case saved d of None \<Rightarrow> d | Some t \<Rightarrow> \<lparr>tabs = t, saved = None\<rparr>)"

definition sql_allowed :: "sql_stmt \<Rightarrow> sql_value list \<Rightarrow> db \<Rightarrow> sql_result \<Rightarrow> db \<Rightarrow> bool" where
  "sql_allowed stmt binds d r d' \<longleftrightarrow>
     (\<exists>now. (r, d') = exec_stmt stmt binds now d) \<or> r = Failed \<and> (d' = d \<or> d' = auto_rollback d)"

definition documented :: "'d sql_engine \<Rightarrow> ('d \<Rightarrow> db) \<Rightarrow> bool" where
  "documented run view \<longleftrightarrow>
     (\<forall>stmt binds s. sql_allowed stmt binds (view s) (fst (run (sql_text stmt) binds s))
        (view (snd (run (sql_text stmt) binds s))))"

definition reliable :: "'d sql_engine \<Rightarrow> ('d \<Rightarrow> db) \<Rightarrow> bool" where
  "reliable run view \<longleftrightarrow>
     (\<forall>stmt binds s. \<exists>now. (fst (run (sql_text stmt) binds s), view (snd (run (sql_text stmt) binds s)))
        = exec_stmt stmt binds now (view s))"


section \<open>The integrity of the tables\<close>

definition room_ids :: "tables \<Rightarrow> string set" where
  "room_ids t = r_id ` set (rooms t)"

definition tables_ok :: "tables \<Rightarrow> bool" where
  "tables_ok t \<longleftrightarrow>
     distinct (map r_id (rooms t)) \<and> distinct (map t_token (tokens t))
     \<and> sorted_wrt (<) (map c_id (challenges t)) \<and> (\<forall>c \<in> set (challenges t). c_id c \<le> sequence t)
     \<and> (\<forall>c \<in> set (challenges t). c_room c \<in> room_ids t) \<and> (\<forall>k \<in> set (tokens t). t_room k \<in> room_ids t)"

definition db_ok :: "db \<Rightarrow> bool" where
  "db_ok d \<longleftrightarrow> tables_ok (tabs d) \<and> (\<forall>t. saved d = Some t \<longrightarrow> tables_ok t)"

lemma has_room_iff: "has_room t rid \<longleftrightarrow> rid \<in> room_ids t"
  by (auto simp: has_room_def room_ids_def list_ex_iff)

lemma insert_room_ok: "tables_ok t \<Longrightarrow> tables_ok (snd (insert_room r t))"
  by (auto simp: insert_room_def tables_ok_def has_room_iff room_ids_def)

lemma delete_room_ok: "tables_ok t \<Longrightarrow> tables_ok (snd (delete_room rid t))"
  by (auto simp: delete_room_def tables_ok_def room_ids_def distinct_map_filter
      sorted_wrt_map sorted_wrt_filter)

lemma update_room_ids:
  assumes "\<And>r. r_id (f r) = r_id r"
  shows "map r_id (rooms (snd (update_room rid f t))) = map r_id (rooms t)"
  using assms by (simp add: update_room_def comp_def)

lemma update_room_ok:
  assumes "\<And>r. r_id (f r) = r_id r" and "tables_ok t"
  shows "tables_ok (snd (update_room rid f t))"
proof -
  have m: "map r_id (rooms (snd (update_room rid f t))) = map r_id (rooms t)"
    using assms(1) by (rule update_room_ids)
  then have "room_ids (snd (update_room rid f t)) = room_ids t" unfolding room_ids_def by (metis set_map)
  moreover have "tokens (snd (update_room rid f t)) = tokens t" "challenges (snd (update_room rid f t)) = challenges t"
    "sequence (snd (update_room rid f t)) = sequence t" by (simp_all add: update_room_def)
  ultimately show ?thesis using assms(2) m unfolding tables_ok_def by metis
qed

lemma insert_challenge_ok: "tables_ok t \<Longrightarrow> tables_ok (snd (insert_challenge room p c n t))"
  by (auto simp: insert_challenge_def tables_ok_def has_room_iff room_ids_def sorted_wrt_append)

lemma use_challenge_ok: "tables_ok t \<Longrightarrow> tables_ok (snd (use_challenge cid t))"
proof -
  assume ok: "tables_ok t"
  let ?t = "snd (use_challenge cid t)"
  have "map c_id (challenges ?t) = map c_id (challenges t)"
    by (simp add: use_challenge_def)
  moreover have "\<forall>c \<in> set (challenges ?t). c_id c \<le> sequence t \<and> c_room c \<in> room_ids t"
    using ok by (auto simp: use_challenge_def tables_ok_def)
  moreover have "rooms ?t = rooms t" "tokens ?t = tokens t" "sequence ?t = sequence t"
    by (simp_all add: use_challenge_def)
  ultimately show "tables_ok ?t" using ok unfolding tables_ok_def room_ids_def by metis
qed

lemma insert_token_ok: "tables_ok t \<Longrightarrow> tables_ok (snd (insert_token token room now t))"
  by (auto simp: insert_token_def tables_ok_def has_room_iff list_ex_iff room_ids_def)

lemma exec_tables_ok: "tables_ok t \<Longrightarrow> tables_ok (snd (exec_tables stmt tx num now t))"
  by (cases stmt)
    (simp_all add: insert_room_ok delete_room_ok update_room_ok insert_challenge_ok use_challenge_ok insert_token_ok)

lemma exec_stmt_ok: "db_ok d \<Longrightarrow> db_ok (snd (exec_stmt stmt binds now d))"
  using exec_tables_ok [of "tabs d"]
  by (auto simp: exec_stmt_def db_ok_def begin_tx_def split_beta split: option.splits)

lemma auto_rollback_ok: "db_ok d \<Longrightarrow> db_ok (auto_rollback d)"
  by (auto simp: auto_rollback_def db_ok_def split: option.splits)

lemma sql_allowed_ok: "sql_allowed stmt binds d r d' \<Longrightarrow> db_ok d \<Longrightarrow> db_ok d'"
  unfolding sql_allowed_def by (metis auto_rollback_ok exec_stmt_ok snd_conv)

lemma exec_failed_same: "exec_stmt stmt binds now d = (Failed, d') \<Longrightarrow> d' = d"
  by (cases stmt)
    (auto simp: exec_stmt_def begin_tx_def insert_room_def delete_room_def update_room_def insert_challenge_def
      use_challenge_def insert_token_def split: option.splits if_splits)

section \<open>Engines\<close>

text \<open>
  The contract of a connection that may fail at any statement, and of one whose statements fail only
  where SQL says so. What is proved of the first holds of the second.
\<close>

locale sqlite_engine =
  fixes run :: "'d sql_engine" and view :: "'d \<Rightarrow> db"
  assumes documented: "documented run view"
begin

lemma step_allowed: "run (sql_text stmt) binds s = (r, s') \<Longrightarrow> sql_allowed stmt binds (view s) r (view s')"
  using documented unfolding documented_def by (metis fst_conv snd_conv)

lemma step_ok: "run (sql_text stmt) binds s = (r, s') \<Longrightarrow> db_ok (view s) \<Longrightarrow> db_ok (view s')"
  using step_allowed sql_allowed_ok by blast

end

locale reliable_engine =
  fixes run :: "'d sql_engine" and view :: "'d \<Rightarrow> db"
  assumes reliable: "reliable run view"
begin

lemma step:
  assumes "run (sql_text stmt) binds s = (r, s')"
  obtains now where "exec_stmt stmt binds now (view s) = (r, view s')"
  using reliable assms unfolding reliable_def by (metis fst_conv snd_conv)

end

lemma reliable_documented: "reliable run view \<Longrightarrow> documented run view"
  unfolding reliable_def documented_def sql_allowed_def by metis

sublocale reliable_engine \<subseteq> sqlite_engine
  by unfold_locales (rule reliable_documented [OF reliable])

text \<open>An engine in memory: it recognises the program's statements by their texts.\<close>

definition find_stmt :: "string \<Rightarrow> sql_stmt option" where
  "find_stmt text = List.find (\<lambda>stmt. sql_text stmt = text) all_stmts"

definition mem_run :: "(db \<times> int) sql_engine" where
  "mem_run text binds s =
     (case find_stmt text of
        None \<Rightarrow> (Failed, s)
      | Some stmt \<Rightarrow> let (r, d) = exec_stmt stmt binds (snd s) (fst s) in (r, (d, snd s)))"

lemma find_stmt_text: "find_stmt (sql_text stmt) = Some stmt"
  by (induction stmt; code_simp)

declare sql_text.simps [simp del]

lemma mem_run_text:
  "mem_run (sql_text stmt) binds (d, now) = (let (r, d') = exec_stmt stmt binds now d in (r, (d', now)))"
  by (simp add: mem_run_def find_stmt_text)

interpretation mem: reliable_engine mem_run fst
proof
  have "\<exists>now. (fst (mem_run (sql_text stmt) binds s), fst (snd (mem_run (sql_text stmt) binds s)))
      = exec_stmt stmt binds now (fst s)" for stmt binds s
    by (cases s) (auto simp: mem_run_text split_beta intro!: exI [of _ "snd s"])
  then show "reliable mem_run fst" by (simp add: reliable_def)
qed

end
