(* ===== verification/Database.thy ===== *)
theory Database
  imports Sqlite
begin

text \<open>
  src/src/db.cpp and src/src/db.h: the rooms, the challenge pools and the access tokens. Each method
  runs its statements through the engine \<open>run\<close>, an argument, on the connection's state; the mutex
  makes a method one step. A statement that fails to prepare is stepped as a null pointer, which
  SQLite answers with an error, so preparing, binding and stepping are one call here.
\<close>

record RoomRow =
  room_id :: string
  room_name :: string
  max_participants :: int
  created_at :: int
  last_active_at :: int
  activated :: bool
  requires_password :: bool

record ChallengePair =
  plaintext_b64 :: string
  ciphertext_b64 :: string
  nonce_b64 :: string

section \<open>Statements and columns\<close>

definition bindText :: "string \<Rightarrow> sql_value" where
  "bindText s = SText s"

text \<open>\<open>sqlite3_column_text\<close> is read as a NUL-terminated string, \<open>sqlite3_column_int\<close> keeps 32 bits.\<close>

definition column_text :: "sql_value \<Rightarrow> string" where
  "column_text v = cstr (as_text v)"

definition column_int :: "sql_value \<Rightarrow> int" where
  "column_int v = to_int32 (as_int v)"

definition column_int64 :: "sql_value \<Rightarrow> int" where
  "column_int64 v = as_int v"

primrec is_done :: "sql_result \<Rightarrow> bool" where
  "is_done (Done n) = True" | "is_done (Rows rs) = False" | "is_done Failed = False"

primrec changed_rows :: "sql_result \<Rightarrow> bool" where
  "changed_rows (Done n) = (0 < n)" | "changed_rows (Rows rs) = False" | "changed_rows Failed = False"

primrec result_rows :: "sql_result \<Rightarrow> sql_value list list" where
  "result_rows (Rows rs) = rs" | "result_rows (Done n) = []" | "result_rows Failed = []"

section \<open>Opening\<close>

definition applySchema :: "'d sql_engine \<Rightarrow> 'd \<Rightarrow> exn + 'd" where
  "applySchema run d =
     (let (r, d) = run (sql_text Schema) [] d
      in if \<not> is_done r then Inl (Runtime_Error ''schema: '') else Inr d)"

section \<open>Rooms\<close>

definition createRoom :: "'d sql_engine \<Rightarrow> RoomRow \<Rightarrow> 'd \<Rightarrow> bool \<times> 'd" where
  "createRoom run room d =
     (let (r, d) = run (sql_text Insert_Room)
            [bindText (room_id room), bindText (room_name room), SInt (max_participants room),
             SInt (created_at room), SInt (last_active_at room), SInt (if activated room then 1 else 0),
             SInt (if requires_password room then 1 else 0)] d
      in (is_done r, d))"

definition read_room :: "sql_value list \<Rightarrow> RoomRow" where
  "read_room row =
     \<lparr>room_id = column_text (row ! 0), room_name = column_text (row ! 1),
      max_participants = column_int (row ! 2), created_at = column_int64 (row ! 3),
      last_active_at = column_int64 (row ! 4), activated = (column_int (row ! 5) \<noteq> 0),
      requires_password = (column_int (row ! 6) \<noteq> 0)\<rparr>"

definition findRoom :: "'d sql_engine \<Rightarrow> string \<Rightarrow> 'd \<Rightarrow> RoomRow option \<times> 'd" where
  "findRoom run rid d =
     (let (r, d) = run (sql_text Select_Room) [bindText rid] d
      in (case result_rows r of [] \<Rightarrow> None | row # _ \<Rightarrow> Some (read_room row), d))"

definition deleteRoom :: "'d sql_engine \<Rightarrow> string \<Rightarrow> 'd \<Rightarrow> bool \<times> 'd" where
  "deleteRoom run rid d =
     (let (r, d) = run (sql_text Delete_Room) [bindText rid] d in (is_done r \<and> changed_rows r, d))"

definition countRooms :: "'d sql_engine \<Rightarrow> 'd \<Rightarrow> int \<times> 'd" where
  "countRooms run d =
     (let (r, d) = run (sql_text Count_Rooms) [] d
      in (case result_rows r of [] \<Rightarrow> 0 | row # _ \<Rightarrow> column_int (row ! 0), d))"

definition touchRoom :: "'d sql_engine \<Rightarrow> string \<Rightarrow> 'd \<Rightarrow> 'd" where
  "touchRoom run rid d = snd (run (sql_text Touch_Room) [bindText rid] d)"

definition roomsIdleSince :: "'d sql_engine \<Rightarrow> int \<Rightarrow> 'd \<Rightarrow> string list \<times> 'd" where
  "roomsIdleSince run cutoffEpochSec d =
     (let (r, d) = run (sql_text Idle_Rooms) [SInt cutoffEpochSec] d
      in (map (\<lambda>row. column_text (row ! 0)) (result_rows r), d))"

definition activateRoom :: "'d sql_engine \<Rightarrow> string \<Rightarrow> 'd \<Rightarrow> bool \<times> 'd" where
  "activateRoom run rid d =
     (let (r, d) = run (sql_text Activate_Room) [bindText rid] d in (is_done r \<and> changed_rows r, d))"

section \<open>Challenges\<close>

fun insert_pairs :: "'d sql_engine \<Rightarrow> string \<Rightarrow> ChallengePair list \<Rightarrow> 'd \<Rightarrow> bool \<times> 'd" where
  "insert_pairs run rid [] d = (True, d)"
| "insert_pairs run rid (p # ps) d =
     (let (r, d) = run (sql_text Insert_Challenge)
            [bindText rid, bindText (plaintext_b64 p), bindText (ciphertext_b64 p), bindText (nonce_b64 p)] d
      in if \<not> is_done r then (False, d) else insert_pairs run rid ps d)"

definition insertChallenges :: "'d sql_engine \<Rightarrow> string \<Rightarrow> ChallengePair list \<Rightarrow> 'd \<Rightarrow> bool \<times> 'd" where
  "insertChallenges run rid ps d =
     (let (_, d) = run (sql_text Begin) [] d;
          (ok, d) = insert_pairs run rid ps d;
          (_, d) = run (sql_text (if ok then Commit else Rollback)) [] d
      in (ok, d))"

definition countUnusedChallenges :: "'d sql_engine \<Rightarrow> string \<Rightarrow> 'd \<Rightarrow> int \<times> 'd" where
  "countUnusedChallenges run rid d =
     (let (r, d) = run (sql_text Count_Unused) [bindText rid] d
      in (case result_rows r of [] \<Rightarrow> 0 | row # _ \<Rightarrow> column_int (row ! 0), d))"

definition read_pair :: "sql_value list \<Rightarrow> ChallengePair" where
  "read_pair row =
     \<lparr>plaintext_b64 = column_text (row ! 1), ciphertext_b64 = column_text (row ! 2),
      nonce_b64 = column_text (row ! 3)\<rparr>"

text \<open>The results of the second update and of the commit are not looked at.\<close>

definition consumeChallenge :: "'d sql_engine \<Rightarrow> string \<Rightarrow> 'd \<Rightarrow> ChallengePair option \<times> 'd" where
  "consumeChallenge run rid d =
     (let (_, d) = run (sql_text Begin_Immediate) [] d;
          (r, d) = run (sql_text Select_Unused) [bindText rid] d
      in case result_rows r of
           row # _ \<Rightarrow>
             let cid = column_int64 (row ! 0);
                 (_, d) = run (sql_text Use_Challenge) [SInt cid] d;
                 (_, d) = run (sql_text Commit) [] d
             in (Some (read_pair row), d)
         | [] \<Rightarrow>
             let (_, d) = run (sql_text Rollback) [] d
             in (None, d))"

section \<open>Access tokens\<close>

definition insertAccessToken :: "'d sql_engine \<Rightarrow> string \<Rightarrow> string \<Rightarrow> 'd \<Rightarrow> bool \<times> 'd" where
  "insertAccessToken run token rid d =
     (let (r, d) = run (sql_text Insert_Token) [bindText token, bindText rid] d in (is_done r, d))"

definition roomForToken :: "'d sql_engine \<Rightarrow> string \<Rightarrow> 'd \<Rightarrow> string option \<times> 'd" where
  "roomForToken run token d =
     (let (r, d) = run (sql_text Select_Token) [bindText token] d
      in (case result_rows r of [] \<Rightarrow> None | row # _ \<Rightarrow> Some (column_text (row ! 0)), d))"


section \<open>Integrity\<close>

text \<open>
  The methods as one family, so that what holds of each is stated once: a call and the state it leaves.
\<close>

datatype db_call =
    Create_Room RoomRow | Find_Room string | Delete_Room_Call string | Count_Rooms_Call | Touch_Room_Call string
  | Rooms_Idle_Since int | Activate_Room_Call string | Insert_Challenges string "ChallengePair list"
  | Count_Unused_Call string | Consume_Challenge string | Insert_Access_Token string string | Room_For_Token string

primrec db_call_state :: "'d sql_engine \<Rightarrow> db_call \<Rightarrow> 'd \<Rightarrow> 'd" where
  "db_call_state run (Create_Room r) d = snd (createRoom run r d)"
| "db_call_state run (Find_Room i) d = snd (findRoom run i d)"
| "db_call_state run (Delete_Room_Call i) d = snd (deleteRoom run i d)"
| "db_call_state run Count_Rooms_Call d = snd (countRooms run d)"
| "db_call_state run (Touch_Room_Call i) d = touchRoom run i d"
| "db_call_state run (Rooms_Idle_Since c) d = snd (roomsIdleSince run c d)"
| "db_call_state run (Activate_Room_Call i) d = snd (activateRoom run i d)"
| "db_call_state run (Insert_Challenges i ps) d = snd (insertChallenges run i ps d)"
| "db_call_state run (Count_Unused_Call i) d = snd (countUnusedChallenges run i d)"
| "db_call_state run (Consume_Challenge i) d = snd (consumeChallenge run i d)"
| "db_call_state run (Insert_Access_Token k i) d = snd (insertAccessToken run k i d)"
| "db_call_state run (Room_For_Token k) d = snd (roomForToken run k d)"

context sqlite_engine begin

lemma run_ok: "db_ok (view s) \<Longrightarrow> db_ok (view (snd (run (sql_text stmt) binds s)))"
  using step_ok by (metis prod.collapse)

lemma insert_pairs_ok: "db_ok (view s) \<Longrightarrow> db_ok (view (snd (insert_pairs run rid ps s)))"
proof (induction ps arbitrary: s)
  case (Cons p ps)
  then show ?case by (auto simp: split_beta Let_def run_ok)
qed simp

lemma call_ok: "db_ok (view s) \<Longrightarrow> db_ok (view (db_call_state run c s))"
  by (cases c)
    (simp_all add: createRoom_def findRoom_def deleteRoom_def countRooms_def touchRoom_def roomsIdleSince_def
      activateRoom_def insertChallenges_def countUnusedChallenges_def consumeChallenge_def insertAccessToken_def
      roomForToken_def split_beta Let_def run_ok insert_pairs_ok split: list.split)

end

text \<open>
  Integrity survives any failure. Whatever statement of whatever method fails, with or without
  rolling a transaction back, room ids and tokens stay unique, challenge ids stay in order, and every
  challenge and every token belongs to a room that exists.
\<close>

lemma db_integrity:
  assumes "documented run view" and "db_ok (view s)"
  shows "db_ok (view (db_call_state run c s))"
proof -
  have "sqlite_engine run view" by unfold_locales (rule assms(1))
  then show ?thesis using assms(2) by (rule sqlite_engine.call_ok)
qed

section \<open>What the methods mean\<close>

text \<open>A room's pool: the challenges not yet handed out, in the order they will be.\<close>

definition pool :: "db \<Rightarrow> string \<Rightarrow> ChallengePair list" where
  "pool d rid = map (\<lambda>c. read_pair (challenge_columns c)) (unused rid (tabs d))"

text \<open>What a stored pair reads back as: text columns end at a NUL.\<close>

definition stored_pair :: "ChallengePair \<Rightarrow> ChallengePair" where
  "stored_pair p = \<lparr>plaintext_b64 = cstr (plaintext_b64 p), ciphertext_b64 = cstr (ciphertext_b64 p),
     nonce_b64 = cstr (nonce_b64 p)\<rparr>"

definition idle :: "db \<Rightarrow> bool" where
  "idle d \<longleftrightarrow> db_ok d \<and> saved d = None"

lemma exec_stmt_simps [simp]:
  "exec_stmt Begin [] now d = begin_tx d"
  "exec_stmt Begin_Immediate [] now d = begin_tx d"
  "exec_stmt Commit [] now d = (case saved d of None \<Rightarrow> (Failed, d) | Some t \<Rightarrow> (Done 0, d\<lparr>saved := None\<rparr>))"
  "exec_stmt Rollback [] now d = (case saved d of None \<Rightarrow> (Failed, d) | Some t \<Rightarrow> (Done 0, \<lparr>tabs = t, saved = None\<rparr>))"
  "exec_stmt Insert_Room [SText a, SText b, SInt c, SInt e, SInt f, SInt g, SInt h] now d =
     (let (r, t) = insert_room \<lparr>r_id = a, r_name = b, r_max = c, r_created = e, r_active = f, r_activated = g,
        r_password = h\<rparr> (tabs d) in (r, d\<lparr>tabs := t\<rparr>))"
  "exec_stmt Select_Room [SText a] now d = (Rows (map room_columns (filter (\<lambda>r. r_id r = a) (rooms (tabs d)))), d)"
  "exec_stmt Delete_Room [SText a] now d = (let (r, t) = delete_room a (tabs d) in (r, d\<lparr>tabs := t\<rparr>))"
  "exec_stmt Count_Rooms [] now d = (Rows [[SInt (int (length (rooms (tabs d))))]], d)"
  "exec_stmt Touch_Room [SText a] now d =
     (let (r, t) = update_room a (\<lambda>r. r\<lparr>r_active := now\<rparr>) (tabs d) in (r, d\<lparr>tabs := t\<rparr>))"
  "exec_stmt Activate_Room [SText a] now d =
     (let (r, t) = update_room a (\<lambda>r. r\<lparr>r_active := now, r_activated := 1\<rparr>) (tabs d) in (r, d\<lparr>tabs := t\<rparr>))"
  "exec_stmt Insert_Challenge [SText a, SText b, SText x, SText y] now d =
     (let (r, t) = insert_challenge a b x y (tabs d) in (r, d\<lparr>tabs := t\<rparr>))"
  "exec_stmt Count_Unused [SText a] now d = (Rows [[SInt (int (length (unused a (tabs d))))]], d)"
  "exec_stmt Select_Unused [SText a] now d = (Rows (map challenge_columns (take 1 (unused a (tabs d)))), d)"
  "exec_stmt Use_Challenge [SInt i] now d = (let (r, t) = use_challenge i (tabs d) in (r, d\<lparr>tabs := t\<rparr>))"
  "exec_stmt Insert_Token [SText a, SText b] now d = (let (r, t) = insert_token a b now (tabs d) in (r, d\<lparr>tabs := t\<rparr>))"
  "exec_stmt Select_Token [SText a] now d =
     (Rows (map (\<lambda>k. [SText (t_room k)]) (filter (\<lambda>k. t_token k = a) (tokens (tabs d)))), d)"
  by (simp_all add: exec_stmt_def numeral_nat)

lemma unused_use:
  assumes "tables_ok t" and "unused rid t = c # cs"
  shows "unused rid' (snd (use_challenge (c_id c) t)) = (if rid' = rid then cs else unused rid' t)"
proof -
  let ?P = "\<lambda>i x. c_room x = i \<and> c_used x = 0"
  let ?f = "\<lambda>x. if c_id x = c_id c then x\<lparr>c_used := 1\<rparr> else x"
  have d: "distinct (map c_id (challenges t))"
    using assms(1) by (simp add: tables_ok_def strict_sorted_iff)
  have "unused i (snd (use_challenge (c_id c) t)) = filter (\<lambda>x. c_id x \<noteq> c_id c) (unused i t)" for i
  proof -
    have "filter (?P i) (map ?f xs) = filter (\<lambda>x. c_id x \<noteq> c_id c) (filter (?P i) xs)" for xs
      by (induction xs) auto
    then show ?thesis by (simp add: unused_def use_challenge_def)
  qed
  moreover have "filter (\<lambda>x. c_id x \<noteq> c_id c) (unused rid t) = cs"
  proof -
    have "distinct (map c_id (c # cs))"
      using distinct_map_filter [OF d] assms(2) unfolding unused_def by metis
    then show ?thesis using assms(2) by (simp add: filter_id_conv) (metis image_eqI)
  qed
  moreover have "filter (\<lambda>x. c_id x \<noteq> c_id c) (unused i t) = unused i t" if "i \<noteq> rid" for i
  proof -
    have mem: "c \<in> set (challenges t)" "c_room c = rid"
      using assms(2) by (auto simp: unused_def filter_eq_Cons_iff)
    have "c_id x \<noteq> c_id c" if "x \<in> set (unused i t)" for x
    proof
      assume "c_id x = c_id c"
      moreover have "x \<in> set (challenges t)" using that by (simp add: unused_def)
      ultimately have "x = c" using d mem(1) by (simp add: distinct_map inj_on_def)
      then show False using that mem(2) \<open>i \<noteq> rid\<close> by (simp add: unused_def)
    qed
    then show ?thesis by (simp add: filter_id_conv)
  qed
  ultimately show ?thesis by auto
qed

text \<open>What a sequence of calls, for any rooms, hands out, each with the room it was for.\<close>

fun consume_run :: "(string \<Rightarrow> 'd \<Rightarrow> 'p option \<times> 'd) \<Rightarrow> string list \<Rightarrow> 'd \<Rightarrow> (string \<times> 'p option) list" where
  "consume_run consume [] d = []"
| "consume_run consume (rid # rids) d = (rid, fst (consume rid d)) # consume_run consume rids (snd (consume rid d))"

definition padded :: "nat \<Rightarrow> 'p list \<Rightarrow> 'p option list" where
  "padded n ps = map Some (take n ps) @ replicate (n - length ps) None"

lemma padded_Suc: "padded (Suc n) ps = (case ps of [] \<Rightarrow> None | p # _ \<Rightarrow> Some p) # padded n (tl ps)"
  by (cases ps) (simp_all add: padded_def)

text \<open>
  The contract of a pool of one-time items, kept per room, and what a client may conclude from it.
  \<open>ok\<close> is the state between calls; \<open>norm\<close> is what an item is read back as.
\<close>

locale one_time_pool =
  fixes items :: "'d \<Rightarrow> string \<Rightarrow> 'p list"
    and consume :: "string \<Rightarrow> 'd \<Rightarrow> 'p option \<times> 'd"
    and add :: "string \<Rightarrow> 'p list \<Rightarrow> 'd \<Rightarrow> bool \<times> 'd"
    and ok :: "'d \<Rightarrow> bool"
    and norm :: "'p \<Rightarrow> 'p"
  assumes consume_ok: "ok d \<Longrightarrow> ok (snd (consume rid d))"
    and consume_head: "ok d \<Longrightarrow> fst (consume rid d) = (case items d rid of [] \<Rightarrow> None | p # ps \<Rightarrow> Some p)"
    and consume_rest: "ok d \<Longrightarrow> items (snd (consume rid d)) = (items d)(rid := tl (items d rid))"
    and add_ok: "ok d \<Longrightarrow> ok (snd (add rid ps d))"
    and add_items: "ok d \<Longrightarrow> items (snd (add rid ps d)) =
      (if fst (add rid ps d) then (items d)(rid := items d rid @ map norm ps) else items d)"
begin

lemma consume_run_room:
  "ok d \<Longrightarrow> map snd (filter (\<lambda>x. fst x = rid) (consume_run consume rids d))
     = padded (length (filter (\<lambda>i. i = rid) rids)) (items d rid)"
proof (induction rids arbitrary: d)
  case Nil
  then show ?case by (simp add: padded_def)
next
  case (Cons i rids)
  then show ?case
    using consume_ok [of d i] consume_rest [of d i] consume_head [of d i]
    by (auto simp: padded_Suc)
qed

lemma add_then_drain:
  assumes "ok d" and "items d rid = []" and "fst (add rid ps d)"
  shows "map snd (filter (\<lambda>x. fst x = rid) (consume_run consume rids (snd (add rid ps d))))
     = padded (length (filter (\<lambda>i. i = rid) rids)) (map norm ps)"
  using consume_run_room [OF add_ok [OF assms(1)]] add_items [OF assms(1), of rid ps] assms(2,3) by simp

end

context reliable_engine begin

lemma run_exec: "\<exists>now. exec_stmt stmt binds now (view s)
    = (fst (run (sql_text stmt) binds s), view (snd (run (sql_text stmt) binds s)))"
  using reliable unfolding reliable_def by metis

lemma begin_step:
  assumes "saved (view s) = None"
  shows "view (snd (run (sql_text Begin) [] s)) = (view s)\<lparr>saved := Some (tabs (view s))\<rparr>"
    and "view (snd (run (sql_text Begin_Immediate) [] s)) = (view s)\<lparr>saved := Some (tabs (view s))\<rparr>"
  using run_exec [of Begin "[]" s] run_exec [of Begin_Immediate "[]" s] assms by (auto simp: begin_tx_def)

lemma commit_step:
  assumes "saved (view s) = Some t"
  shows "view (snd (run (sql_text Commit) [] s)) = (view s)\<lparr>saved := None\<rparr>"
    and "view (snd (run (sql_text Rollback) [] s)) = \<lparr>tabs = t, saved = None\<rparr>"
  using run_exec [of Commit "[]" s] run_exec [of Rollback "[]" s] assms by auto

lemma select_unused_step:
  "result_rows (fst (run (sql_text Select_Unused) [SText rid] s))
      = map challenge_columns (take 1 (unused rid (tabs (view s))))"
  "view (snd (run (sql_text Select_Unused) [SText rid] s)) = view s"
  using run_exec [of Select_Unused "[SText rid]" s]
  by (cases "fst (run (sql_text Select_Unused) [SText rid] s)"; auto)+

lemma use_step:
  "view (snd (run (sql_text Use_Challenge) [SInt cid] s))
     = (view s)\<lparr>tabs := snd (use_challenge cid (tabs (view s)))\<rparr>"
  using run_exec [of Use_Challenge "[SInt cid]" s] by (auto simp: split_beta Let_def)

lemma consume_nothing:
  assumes "idle (view s)" and "unused rid (tabs (view s)) = []"
  shows "fst (consumeChallenge run rid s) = None \<and> view (snd (consumeChallenge run rid s)) = view s"
proof -
  have sv: "saved (view s) = None" using assms(1) by (simp add: idle_def)
  define s1 where "s1 = snd (run (sql_text Begin_Immediate) [] s)"
  have s1: "view s1 = (view s)\<lparr>saved := Some (tabs (view s))\<rparr>" using begin_step(2) [OF sv] by (simp add: s1_def)
  define s2 where "s2 = snd (run (sql_text Select_Unused) [SText rid] s1)"
  have s2: "view s2 = view s1" by (simp add: s2_def select_unused_step)
  have "view (snd (run (sql_text Rollback) [] s2)) = view s"
    using commit_step(2) [of s2 "tabs (view s)"] s1 s2 sv by simp
  moreover have "consumeChallenge run rid s = (None, snd (run (sql_text Rollback) [] s2))"
    using select_unused_step(1) [of rid s1] assms(2) s1
    by (simp add: consumeChallenge_def split_beta Let_def bindText_def s1_def [symmetric] s2_def [symmetric])
  ultimately show ?thesis by simp
qed

lemma consume_next:
  assumes "idle (view s)" and "unused rid (tabs (view s)) = c # cs"
  shows "fst (consumeChallenge run rid s) = Some (read_pair (challenge_columns c))
    \<and> view (snd (consumeChallenge run rid s)) = (view s)\<lparr>tabs := snd (use_challenge (c_id c) (tabs (view s)))\<rparr>"
proof -
  have sv: "saved (view s) = None" using assms(1) by (simp add: idle_def)
  define s1 where "s1 = snd (run (sql_text Begin_Immediate) [] s)"
  have s1: "view s1 = (view s)\<lparr>saved := Some (tabs (view s))\<rparr>" using begin_step(2) [OF sv] by (simp add: s1_def)
  define s2 where "s2 = snd (run (sql_text Select_Unused) [SText rid] s1)"
  have s2: "view s2 = view s1" by (simp add: s2_def select_unused_step)
  define s3 where "s3 = snd (run (sql_text Use_Challenge) [SInt (c_id c)] s2)"
  have s3: "view s3 = (view s2)\<lparr>tabs := snd (use_challenge (c_id c) (tabs (view s)))\<rparr>"
    by (simp add: s3_def use_step s2 s1)
  have "view (snd (run (sql_text Commit) [] s3)) = (view s)\<lparr>tabs := snd (use_challenge (c_id c) (tabs (view s)))\<rparr>"
    using commit_step(1) [of s3 "tabs (view s)"] s1 s2 s3 sv by simp
  moreover have "consumeChallenge run rid s = (Some (read_pair (challenge_columns c)), snd (run (sql_text Commit) [] s3))"
    using select_unused_step(1) [of rid s1] assms(2) s1
    by (simp add: consumeChallenge_def split_beta Let_def bindText_def s1_def [symmetric] s2_def [symmetric]
        s3_def [symmetric] challenge_columns_def column_int64_def)
  ultimately show ?thesis by simp
qed

lemma idle_use: "idle d \<Longrightarrow> idle (d\<lparr>tabs := snd (use_challenge cid (tabs d))\<rparr>)"
  by (simp add: idle_def db_ok_def use_challenge_ok)

lemma insert_step:
  "is_done (fst (run (sql_text Insert_Challenge) [SText rid, SText a, SText b, SText c] s))
     = has_room (tabs (view s)) rid"
  "view (snd (run (sql_text Insert_Challenge) [SText rid, SText a, SText b, SText c] s))
     = (view s)\<lparr>tabs := snd (insert_challenge rid a b c (tabs (view s)))\<rparr>"
  using run_exec [of Insert_Challenge "[SText rid, SText a, SText b, SText c]" s]
  by (auto simp: insert_challenge_def split_beta Let_def split: if_splits dest!: sym [of _ "fst _"])

end

definition add_pair :: "string \<Rightarrow> ChallengePair \<Rightarrow> tables \<Rightarrow> tables" where
  "add_pair rid p t = snd (insert_challenge rid (plaintext_b64 p) (ciphertext_b64 p) (nonce_b64 p) t)"

lemma add_pair_facts:
  assumes "has_room t rid"
  shows "has_room (add_pair rid p t) i = has_room t i"
    and "map (\<lambda>c. read_pair (challenge_columns c)) (unused i (add_pair rid p t))
      = map (\<lambda>c. read_pair (challenge_columns c)) (unused i t) @ (if i = rid then [stored_pair p] else [])"
  using assms by (simp_all add: add_pair_def insert_challenge_def has_room_def unused_def read_pair_def
      challenge_columns_def column_text_def stored_pair_def)

context reliable_engine begin

lemma insert_pairs_run:
  "fst (insert_pairs run rid ps s) = (ps = [] \<or> has_room (tabs (view s)) rid)
   \<and> view (snd (insert_pairs run rid ps s)) =
     (if has_room (tabs (view s)) rid then (view s)\<lparr>tabs := fold (add_pair rid) ps (tabs (view s))\<rparr> else view s)"
proof (induction ps arbitrary: s)
  case (Cons p ps)
  let ?b = "[SText rid, SText (plaintext_b64 p), SText (ciphertext_b64 p), SText (nonce_b64 p)]"
  define s1 where "s1 = snd (run (sql_text Insert_Challenge) ?b s)"
  have st: "is_done (fst (run (sql_text Insert_Challenge) ?b s)) = has_room (tabs (view s)) rid"
    "view s1 = (view s)\<lparr>tabs := add_pair rid p (tabs (view s))\<rparr>"
    unfolding s1_def add_pair_def by (rule insert_step)+
  have e: "insert_pairs run rid (p # ps) s
      = (if has_room (tabs (view s)) rid then insert_pairs run rid ps s1 else (False, s1))"
    by (simp add: split_beta Let_def bindText_def st(1) flip: s1_def)
  have same: "\<not> has_room (tabs (view s)) rid \<Longrightarrow> view s1 = view s"
    by (simp add: st(2) add_pair_def insert_challenge_def)
  have keep: "has_room (tabs (view s)) rid \<Longrightarrow> has_room (tabs (view s1)) rid"
    by (simp add: st(2) add_pair_facts(1))
  show ?case unfolding e using Cons.IH [of s1] keep same st(2) by simp
qed simp

lemma insert_all:
  assumes "idle (view s)"
  shows "fst (insertChallenges run rid ps s) = (ps = [] \<or> has_room (tabs (view s)) rid)
    \<and> view (snd (insertChallenges run rid ps s)) =
      (if fst (insertChallenges run rid ps s) \<and> has_room (tabs (view s)) rid
       then (view s)\<lparr>tabs := fold (add_pair rid) ps (tabs (view s))\<rparr> else view s)"
proof -
  have sv: "saved (view s) = None" using assms(1) by (simp add: idle_def)
  define s1 where "s1 = snd (run (sql_text Begin) [] s)"
  have s1: "view s1 = (view s)\<lparr>saved := Some (tabs (view s))\<rparr>" using begin_step(1) [OF sv] by (simp add: s1_def)
  define s2 where "s2 = snd (insert_pairs run rid ps s1)"
  have ok: "fst (insert_pairs run rid ps s1) = (ps = [] \<or> has_room (tabs (view s)) rid)"
    and s2: "view s2 = (if has_room (tabs (view s)) rid then (view s1)\<lparr>tabs := fold (add_pair rid) ps (tabs (view s))\<rparr> else view s1)"
    using insert_pairs_run [of rid ps s1] s1 by (simp_all add: s2_def)
  have saved2: "saved (view s2) = Some (tabs (view s))" using s1 s2 by simp
  have e: "insertChallenges run rid ps s =
      (fst (insert_pairs run rid ps s1),
       snd (run (sql_text (if fst (insert_pairs run rid ps s1) then Commit else Rollback)) [] s2))"
    by (simp add: insertChallenges_def split_beta Let_def s1_def s2_def)
  show ?thesis
    unfolding e using commit_step [OF saved2] ok s1 s2 sv by auto
qed

end

lemma fold_add_pair:
  assumes "has_room t rid"
  shows "map (\<lambda>c. read_pair (challenge_columns c)) (unused i (fold (add_pair rid) ps t))
      = map (\<lambda>c. read_pair (challenge_columns c)) (unused i t) @ (if i = rid then map stored_pair ps else [])
    \<and> has_room (fold (add_pair rid) ps t) rid"
  using assms
proof (induction ps arbitrary: t)
  case (Cons p ps)
  then show ?case using add_pair_facts [OF Cons.prems] by simp
qed simp

lemma fold_add_pair_ok: "tables_ok t \<Longrightarrow> tables_ok (fold (add_pair rid) ps t)"
  by (induction ps arbitrary: t) (simp_all add: add_pair_def insert_challenge_ok)

lemma idle_fold: "idle d \<Longrightarrow> idle (d\<lparr>tabs := fold (add_pair rid) ps (tabs d)\<rparr>)"
  by (simp add: idle_def db_ok_def fold_add_pair_ok)

sublocale reliable_engine \<subseteq> challenges: one_time_pool
    "\<lambda>s. pool (view s)" "consumeChallenge run" "insertChallenges run" "\<lambda>s. idle (view s)" stored_pair
proof
  fix s rid assume s: "idle (view s)"
  have "idle (view (snd (consumeChallenge run rid s)))
      \<and> fst (consumeChallenge run rid s) = (case pool (view s) rid of [] \<Rightarrow> None | p # ps \<Rightarrow> Some p)
      \<and> pool (view (snd (consumeChallenge run rid s))) = (pool (view s))(rid := tl (pool (view s) rid))"
  proof (cases "unused rid (tabs (view s))")
    case Nil
    then show ?thesis using consume_nothing [OF s Nil] s by (auto simp: pool_def fun_eq_iff)
  next
    case (Cons c cs)
    have "tables_ok (tabs (view s))" using s by (simp add: idle_def db_ok_def)
    from unused_use [OF this Cons] show ?thesis
      using consume_next [OF s Cons] idle_use [OF s, of "c_id c"] Cons by (auto simp: pool_def fun_eq_iff)
  qed
  then show "idle (view (snd (consumeChallenge run rid s)))"
    "fst (consumeChallenge run rid s) = (case pool (view s) rid of [] \<Rightarrow> None | p # ps \<Rightarrow> Some p)"
    "pool (view (snd (consumeChallenge run rid s))) = (pool (view s))(rid := tl (pool (view s) rid))"
    by blast+
next
  fix s rid and ps :: "ChallengePair list" assume s: "idle (view s)"
  show "idle (view (snd (insertChallenges run rid ps s)))"
    using insert_all [OF s, of rid ps] idle_fold [OF s, of rid ps] s by (auto split: if_splits)
  show "pool (view (snd (insertChallenges run rid ps s))) =
      (if fst (insertChallenges run rid ps s)
       then (pool (view s))(rid := pool (view s) rid @ map stored_pair ps) else pool (view s))"
    using insert_all [OF s, of rid ps] fold_add_pair [of "tabs (view s)" rid _ ps]
    by (auto simp: pool_def fun_eq_iff)
qed

context reliable_engine begin

lemma pool_step:
  "idle (view s) \<Longrightarrow>
   fst (consumeChallenge run rid s) = (case pool (view s) rid of [] \<Rightarrow> None | p # _ \<Rightarrow> Some p)
   \<and> pool (view (snd (consumeChallenge run rid s))) = (pool (view s))(rid := tl (pool (view s) rid))
   \<and> idle (view (snd (consumeChallenge run rid s)))"
  by (simp add: challenges.consume_head challenges.consume_rest challenges.consume_ok)

lemma pool_run:
  "idle (view s) \<Longrightarrow>
   map snd (filter (\<lambda>x. fst x = rid) (consume_run (consumeChallenge run) rids s))
     = padded (length (filter (\<lambda>i. i = rid) rids)) (pool (view s) rid)"
  by (rule challenges.consume_run_room)

lemma pool_add:
  "idle (view s) \<Longrightarrow>
   fst (insertChallenges run rid ps s) = (ps = [] \<or> has_room (tabs (view s)) rid)
   \<and> pool (view (snd (insertChallenges run rid ps s))) =
      (if fst (insertChallenges run rid ps s)
       then (pool (view s))(rid := pool (view s) rid @ map stored_pair ps) else pool (view s))
   \<and> idle (view (snd (insertChallenges run rid ps s)))"
  using insert_all [of s rid ps] challenges.add_items [of s rid ps] challenges.add_ok [of s rid ps] by blast

end

interpretation mem_pool: one_time_pool "\<lambda>s. pool (fst s)" "consumeChallenge mem_run" "insertChallenges mem_run"
    "\<lambda>s. idle (fst s)" stored_pair
  by (rule mem.challenges.one_time_pool_axioms)

lemma mem_reliable: "reliable mem_run fst"
  by (rule mem.reliable)

definition demo_room :: "string \<Rightarrow> RoomRow" where
  "demo_room rid = \<lparr>room_id = rid, room_name = ''n'', max_participants = 2, created_at = 1, last_active_at = 1,
     activated = False, requires_password = False\<rparr>"

definition demo_pairs :: "ChallengePair list" where
  "demo_pairs = [\<lparr>plaintext_b64 = ''cA'', ciphertext_b64 = ''Yw'', nonce_b64 = ''bg''\<rparr>]"

definition row_of_room :: "RoomRow \<Rightarrow> room_row" where
  "row_of_room r = \<lparr>r_id = room_id r, r_name = room_name r, r_max = max_participants r, r_created = created_at r,
     r_active = last_active_at r, r_activated = (if activated r then 1 else 0),
     r_password = (if requires_password r then 1 else 0)\<rparr>"

text \<open>A store with one room that has one unused challenge.\<close>

definition one_challenge_db :: db where
  "one_challenge_db =
     \<lparr>tabs = \<lparr>rooms = [row_of_room (demo_room ''r'')],
        challenges = [\<lparr>c_id = 1, c_room = ''r'', c_plain = ''cA'', c_cipher = ''Yw'', c_nonce = ''bg'', c_used = 0\<rparr>],
        tokens = [], sequence = 1\<rparr>, saved = None\<rparr>"

lemma one_challenge_idle: "idle one_challenge_db"
  by (simp add: idle_def db_ok_def tables_ok_def one_challenge_db_def room_ids_def row_of_room_def demo_room_def)

text \<open>
  A room's pool is a queue. On an engine whose statements do not fail, \<open>consumeChallenge\<close> takes
  the oldest unused challenge of that room and only that, answers nothing and changes nothing when
  there is none, and leaves every other room's pool as it was, outside any transaction.
\<close>

lemma consumeChallenge_queue:
  assumes "reliable run view" and "idle (view s)"
  shows "fst (consumeChallenge run rid s) = (case pool (view s) rid of [] \<Rightarrow> None | p # _ \<Rightarrow> Some p)
    \<and> pool (view (snd (consumeChallenge run rid s))) = (pool (view s))(rid := tl (pool (view s) rid))
    \<and> idle (view (snd (consumeChallenge run rid s)))"
proof -
  have "reliable_engine run view" by unfold_locales (rule assms(1))
  then show ?thesis using assms(2) by (rule reliable_engine.pool_step)
qed

text \<open>
  C5: one joiner per challenge. However calls for different rooms interleave, the challenges handed
  out for a room are its pool in order, each once, and then nothing.
\<close>

theorem challenges_handed_out_once:
  assumes "reliable run view" and "idle (view s)"
  shows "map snd (filter (\<lambda>x. fst x = rid) (consume_run (consumeChallenge run) rids s))
    = padded (length (filter (\<lambda>i. i = rid) rids)) (pool (view s) rid)"
proof -
  have "reliable_engine run view" by unfold_locales (rule assms(1))
  then show ?thesis using assms(2) by (rule reliable_engine.pool_run)
qed

theorem challenges_handed_out_once_witness:
  "map snd (filter (\<lambda>x. fst x = ''r'') (consume_run (consumeChallenge mem_run) [''r'', ''b'', ''r''] (one_challenge_db, 7)))
    = padded (length (filter (\<lambda>i. i = ''r'') [''r'', ''b'', ''r''])) (pool (fst (one_challenge_db, 7 :: int)) ''r'')"
  by (rule challenges_handed_out_once [OF mem_reliable]) (simp add: one_challenge_idle)



section \<open>Rooms and tokens\<close>

definition find_row :: "string \<Rightarrow> tables \<Rightarrow> room_row option" where
  "find_row rid t = List.find (\<lambda>r. r_id r = rid) (rooms t)"

definition room_of_row :: "room_row \<Rightarrow> RoomRow" where
  "room_of_row r = read_room (room_columns r)"

definition find_owner :: "string \<Rightarrow> tables \<Rightarrow> string option" where
  "find_owner token t = map_option t_room (List.find (\<lambda>k. t_token k = token) (tokens t))"

lemma find_filter: "List.find P xs = (case filter P xs of [] \<Rightarrow> None | x # _ \<Rightarrow> Some x)"
  by (induction xs) auto

context reliable_engine begin

lemma findRoom_run:
  "fst (findRoom run rid s) = map_option room_of_row (find_row rid (tabs (view s)))"
  "view (snd (findRoom run rid s)) = view s"
  using run_exec [of Select_Room "[SText rid]" s]
  by (cases "run (sql_text Select_Room) [SText rid] s";
      auto simp: findRoom_def bindText_def find_row_def find_filter room_of_row_def
        split: list.splits dest!: sym [of "Rows _"])+

lemma roomForToken_run:
  "fst (roomForToken run token s) = map_option cstr (find_owner token (tabs (view s)))"
  "view (snd (roomForToken run token s)) = view s"
  using run_exec [of Select_Token "[SText token]" s]
  by (cases "run (sql_text Select_Token) [SText token] s";
      auto simp: roomForToken_def bindText_def find_owner_def find_filter column_text_def
        split: list.splits dest!: sym [of "Rows _"])+

lemma createRoom_run:
  "fst (createRoom run r s) = (\<not> has_room (tabs (view s)) (room_id r))"
  "view (snd (createRoom run r s)) = (view s)\<lparr>tabs := snd (insert_room (row_of_room r) (tabs (view s)))\<rparr>"
  using run_exec [of Insert_Room "[SText (room_id r), SText (room_name r), SInt (max_participants r),
      SInt (created_at r), SInt (last_active_at r), SInt (if activated r then 1 else 0),
      SInt (if requires_password r then 1 else 0)]" s]
  by (auto simp: createRoom_def bindText_def insert_room_def row_of_room_def split_beta Let_def
      split: if_splits dest!: sym [of _ "fst _"])

lemma deleteRoom_run:
  "fst (deleteRoom run rid s) = has_room (tabs (view s)) rid"
  "view (snd (deleteRoom run rid s)) = (view s)\<lparr>tabs := snd (delete_room rid (tabs (view s)))\<rparr>"
  using run_exec [of Delete_Room "[SText rid]" s]
  by (auto simp: deleteRoom_def bindText_def delete_room_def split_beta Let_def has_room_def list_ex_iff
      filter_empty_conv dest!: sym [of _ "fst _"])

lemma insertAccessToken_run:
  "fst (insertAccessToken run token rid s)
     = (find_owner token (tabs (view s)) = None \<and> has_room (tabs (view s)) rid)
   \<and> (\<exists>now. view (snd (insertAccessToken run token rid s))
     = (view s)\<lparr>tabs := snd (insert_token token rid now (tabs (view s)))\<rparr>)"
proof -
  obtain now where e: "exec_stmt Insert_Token [SText token, SText rid] now (view s)
      = (fst (run (sql_text Insert_Token) [SText token, SText rid] s),
         view (snd (run (sql_text Insert_Token) [SText token, SText rid] s)))"
    using run_exec by blast
  have "fst (run (sql_text Insert_Token) [SText token, SText rid] s) = fst (insert_token token rid now (tabs (view s)))"
    "view (snd (run (sql_text Insert_Token) [SText token, SText rid] s))
      = (view s)\<lparr>tabs := snd (insert_token token rid now (tabs (view s)))\<rparr>"
    using e by (auto simp: split_beta Let_def)
  moreover have "is_done (fst (insert_token token rid now (tabs (view s))))
      = (find_owner token (tabs (view s)) = None \<and> has_room (tabs (view s)) rid)"
    by (auto simp: insert_token_def find_owner_def list_ex_iff find_None_iff)
  ultimately show ?thesis by (auto simp: insertAccessToken_def bindText_def split_beta Let_def)
qed

end

lemma find_row_insert:
  "\<not> has_room t (r_id r) \<Longrightarrow> find_row i (snd (insert_room r t)) = (if i = r_id r then Some r else find_row i t)"
  by (auto simp: find_row_def insert_room_def has_room_def find_filter list_ex_iff filter_empty_conv split: list.split)

lemma find_of_filter: "List.find P (filter Q xs) = List.find (\<lambda>x. Q x \<and> P x) xs"
  by (induction xs) auto

lemma find_row_delete: "find_row i (snd (delete_room rid t)) = (if i = rid then None else find_row i t)"
proof (cases "i = rid")
  case True
  then show ?thesis by (auto simp: find_row_def delete_room_def find_of_filter find_None_iff)
next
  case False
  then have "List.find (\<lambda>r. r_id r \<noteq> rid \<and> r_id r = i) (rooms t) = List.find (\<lambda>r. r_id r = i) (rooms t)"
    by (intro find_cong) auto
  then show ?thesis using False by (simp add: find_row_def delete_room_def find_of_filter)
qed

lemma find_owner_delete: "find_owner token (snd (delete_room rid t)) \<noteq> Some rid"
proof
  assume "find_owner token (snd (delete_room rid t)) = Some rid"
  then obtain k where "List.find (\<lambda>k. t_room k \<noteq> rid \<and> t_token k = token) (tokens t) = Some k" "t_room k = rid"
    by (auto simp: find_owner_def delete_room_def find_of_filter)
  then show False by (auto simp: find_Some_iff)
qed

lemma find_owner_delete_other:
  assumes "distinct (map t_token (tokens t))" and "rid' \<noteq> rid"
  shows "find_owner token (snd (delete_room rid t)) = Some rid' \<longleftrightarrow> find_owner token t = Some rid'"
proof -
  have "map_option t_room (List.find (\<lambda>k. t_room k \<noteq> rid \<and> t_token k = token) ks) = Some rid'
      \<longleftrightarrow> map_option t_room (List.find (\<lambda>k. t_token k = token) ks) = Some rid'"
    if "distinct (map t_token ks)" for ks
    using that
  proof (induction ks)
    case (Cons k ks)
    have "List.find (\<lambda>x. t_room x \<noteq> rid \<and> t_token x = token) ks = None" if "t_token k = token"
      using Cons.prems that by (simp add: find_None_iff) (metis image_eqI)
    then show ?case using Cons assms(2) by auto
  qed simp
  then show ?thesis using assms(1) by (simp add: find_owner_def delete_room_def find_of_filter)
qed

lemma find_owner_insert:
  assumes "find_owner token t = None" and "has_room t rid"
  shows "find_owner k (snd (insert_token token rid now t)) = (if k = token then Some rid else find_owner k t)"
proof -
  have "\<not> list_ex (\<lambda>k. t_token k = token) (tokens t)"
    using assms(1) by (auto simp: find_owner_def find_None_iff list_ex_iff)
  moreover have "List.find P (xs @ [x]) = (case List.find P xs of None \<Rightarrow> if P x then Some x else None | Some y \<Rightarrow> Some y)"
    for P and xs :: "token_row list" and x
    by (induction xs) auto
  ultimately show ?thesis
    using assms by (auto simp: insert_token_def find_owner_def split: option.splits)
qed

text \<open>The fields of a room that the database gives back as they were put in.\<close>

definition storable :: "RoomRow \<Rightarrow> bool" where
  "storable r \<longleftrightarrow> NUL \<notin> set (room_id r) \<and> NUL \<notin> set (room_name r)
     \<and> int_min32 \<le> max_participants r \<and> max_participants r \<le> int_max32"

lemma room_of_row_of_room: "storable r \<Longrightarrow> room_of_row (row_of_room r) = r"
  by (cases r) (simp add: storable_def room_of_row_def row_of_room_def read_room_def room_columns_def column_text_def
      column_int_def column_int64_def to_int32_def numeral_nat int_min32_def int_max32_def)

lemma unused_delete: "unused i (snd (delete_room rid t)) = (if i = rid then [] else unused i t)"
  by (auto simp: unused_def delete_room_def filter_empty_conv intro!: filter_cong)

text \<open>
  A created room is found. \<open>createRoom\<close> succeeds exactly when the id is new; then \<open>findRoom\<close>
  returns the very record, every other room is found as before, and the room's pool is empty.
\<close>

lemma createRoom_found:
  assumes "reliable run view" and "storable r" and "createRoom run r s = (ok, s')"
  shows "ok = (find_row (room_id r) (tabs (view s)) = None)
    \<and> (ok \<longrightarrow> fst (findRoom run (room_id r) s') = Some r
        \<and> (\<forall>i. i \<noteq> room_id r \<longrightarrow> fst (findRoom run i s') = fst (findRoom run i s)))
    \<and> (\<not> ok \<longrightarrow> view s' = view s)"
proof -
  have e: "reliable_engine run view" by unfold_locales (rule assms(1))
  have has: "has_room (tabs (view s)) (room_id r) \<longleftrightarrow> find_row (room_id r) (tabs (view s)) \<noteq> None"
    by (auto simp: has_room_def find_row_def list_ex_iff find_None_iff)
  note c = reliable_engine.createRoom_run [OF e, of r s, unfolded assms(3)]
  show ?thesis
    using c has find_row_insert [of "tabs (view s)" "row_of_room r"] room_of_row_of_room [OF assms(2)]
    by (auto simp: reliable_engine.findRoom_run [OF e] row_of_room_def insert_room_def)
qed



text \<open>
  Tokens are capabilities for one room. \<open>insertAccessToken\<close> succeeds exactly for a new token and
  an existing room; the token then leads to that room and no other token's room changes. It never
  replaces a token.
\<close>

lemma token_roundtrip:
  assumes "reliable run view" and "NUL \<notin> set rid" and "insertAccessToken run token rid s = (ok, s')"
  shows "ok = (find_owner token (tabs (view s)) = None \<and> find_row rid (tabs (view s)) \<noteq> None)
    \<and> (ok \<longrightarrow> fst (roomForToken run token s') = Some rid)
    \<and> (\<forall>k. (ok \<longrightarrow> k \<noteq> token) \<longrightarrow> fst (roomForToken run k s') = fst (roomForToken run k s))"
proof -
  have e: "reliable_engine run view" by unfold_locales (rule assms(1))
  have has: "has_room (tabs (view s)) rid \<longleftrightarrow> find_row rid (tabs (view s)) \<noteq> None"
    by (auto simp: has_room_def find_row_def list_ex_iff find_None_iff)
  obtain now where ok: "ok = (find_owner token (tabs (view s)) = None \<and> has_room (tabs (view s)) rid)"
    and v: "view s' = (view s)\<lparr>tabs := snd (insert_token token rid now (tabs (view s)))\<rparr>"
    using reliable_engine.insertAccessToken_run [OF e, of token rid s] assms(3) by auto
  show ?thesis
  proof (cases ok)
    case True
    then show ?thesis
      using ok has find_owner_insert [of token "tabs (view s)" rid] assms(2)
      by (simp add: reliable_engine.roomForToken_run [OF e] v)
  next
    case False
    then have "insert_token token rid now (tabs (view s)) = (Failed, tabs (view s))"
      using ok by (auto simp: insert_token_def find_owner_def find_None_iff list_ex_iff)
    then show ?thesis using False ok has by (simp add: reliable_engine.roomForToken_run [OF e] v)
  qed
qed

section \<open>When a statement fails\<close>

text \<open>An engine like the one in memory, on which the update that marks a challenge used always fails.\<close>

definition busy_run :: "(db \<times> int) sql_engine" where
  "busy_run text binds s = (if text = sql_text Use_Challenge then (Failed, s) else mem_run text binds s)"

lemma busy_documented: "documented busy_run fst"
proof -
  have "sql_allowed stmt binds (fst s) (fst (busy_run (sql_text stmt) binds s)) (fst (snd (busy_run (sql_text stmt) binds s)))"
    for stmt binds s
    using mem.documented unfolding documented_def busy_run_def by (cases s) (simp add: sql_allowed_def)
  then show ?thesis by (simp add: documented_def)
qed


end
