(* ===== verification/Room.thy ===== *)
theory Room
  imports Util Json_Write
begin

text \<open>
  src/src/room.cpp and src/src/room.h: the live peers, the connections of each room and the cached
  messages, all in memory. A connection is known by its identity. The set of a room's connections is
  kept in insertion order without repetition; \<open>conn_order\<close>, an argument, is the order in which the
  unordered set is walked. What an operation sends is returned as a list of events, in the order of
  the calls; the mutex makes each operation's reads and writes one step.
\<close>

type_synonym conn = nat

datatype ws_event = Send conn string | Close conn string

record Peer =
  peer_id :: string
  peer_room :: string
  joined :: bool
  pending_token :: string
  expected_plaintext :: string

record CachedMessage =
  sender_peer_id :: string
  payload_b64 :: string
  cached_at :: int

record manager =
  peers :: "conn \<rightharpoonup> Peer"
  by_room :: "string \<rightharpoonup> conn list"
  msg_cache :: "string \<rightharpoonup> CachedMessage list"

definition empty_manager :: manager where
  "empty_manager = \<lparr>peers = Map.empty, by_room = Map.empty, msg_cache = Map.empty\<rparr>"

section \<open>Operations\<close>

definition conns_of :: "manager \<Rightarrow> string \<Rightarrow> conn list" where
  "conns_of m rid = (case by_room m rid of None \<Rightarrow> [] | Some cs \<Rightarrow> cs)"

text \<open>\<open>emplace\<close> keeps the peer that is already there, if any.\<close>

definition onWsAccept :: "conn \<Rightarrow> string \<Rightarrow> manager \<Rightarrow> mt \<Rightarrow> manager \<times> mt" where
  "onWsAccept c rid m g =
     (let (pid, g) = randomPeerId g;
          p = \<lparr>peer_id = pid, peer_room = rid, joined = False, pending_token = [], expected_plaintext = []\<rparr>;
          cs = conns_of m rid
      in (m\<lparr>by_room := (by_room m)(rid \<mapsto> (if c \<in> set cs then cs else cs @ [c])),
            peers := (case peers m c of None \<Rightarrow> (peers m)(c \<mapsto> p) | Some _ \<Rightarrow> peers m)\<rparr>, g))"

definition is_joined :: "manager \<Rightarrow> conn \<Rightarrow> bool" where
  "is_joined m c = (case peers m c of None \<Rightarrow> False | Some p \<Rightarrow> joined p)"

definition broadcast :: "(conn list \<Rightarrow> conn list) \<Rightarrow> manager \<Rightarrow> string \<Rightarrow> string \<Rightarrow> conn option \<Rightarrow> ws_event list" where
  "broadcast conn_order m rid frame except =
     (case by_room m rid of
        None \<Rightarrow> []
      | Some cs \<Rightarrow> map (\<lambda>c. Send c frame) (filter (\<lambda>c. Some c \<noteq> except \<and> is_joined m c) (conn_order cs)))"

definition drop_conn :: "conn \<Rightarrow> string \<Rightarrow> manager \<Rightarrow> manager" where
  "drop_conn c rid m =
     m\<lparr>by_room :=
         (case by_room m rid of
            None \<Rightarrow> by_room m
          | Some cs \<Rightarrow> let cs = filter (\<lambda>x. x \<noteq> c) cs
                      in if cs = [] then (by_room m)(rid := None) else (by_room m)(rid \<mapsto> cs)),
       peers := (peers m)(c := None)\<rparr>"

definition onWsClose ::
    "(string list \<Rightarrow> string list) \<Rightarrow> (conn list \<Rightarrow> conn list) \<Rightarrow> conn \<Rightarrow> manager \<Rightarrow> ws_event list \<times> manager" where
  "onWsClose json_order conn_order c m =
     (case peers m c of
        None \<Rightarrow> ([], m)
      | Some p \<Rightarrow>
          let m = drop_conn c (peer_room p) m
          in if joined p
             then let f = w_set ''peer_id'' (WString (peer_id p)) (w_set ''type'' (WString ''peer_leave'') WNull)
                  in (broadcast conn_order m (peer_room p) (dump json_order f) None, m)
             else ([], m))"

definition findByConn :: "conn \<Rightarrow> manager \<Rightarrow> Peer option" where
  "findByConn c m = peers m c"

definition markPeerJoined :: "conn \<Rightarrow> string \<Rightarrow> manager \<Rightarrow> manager" where
  "markPeerJoined c pid m =
     (case peers m c of
        None \<Rightarrow> m
      | Some p \<Rightarrow> m\<lparr>peers := (peers m)(c \<mapsto> p\<lparr>peer_id := pid, joined := True\<rparr>)\<rparr>)"

definition liveCount :: "manager \<Rightarrow> string \<Rightarrow> int" where
  "liveCount m rid =
     (case by_room m rid of
        None \<Rightarrow> 0
      | Some cs \<Rightarrow> fold (\<lambda>c n. if is_joined m c then n + 1 else n) cs 0)"

definition closeRoom :: "(conn list \<Rightarrow> conn list) \<Rightarrow> string \<Rightarrow> string \<Rightarrow> manager \<Rightarrow> ws_event list \<times> manager" where
  "closeRoom conn_order rid reasonFrame m =
     (let targets = (case by_room m rid of None \<Rightarrow> [] | Some cs \<Rightarrow> conn_order cs)
      in (concat (map (\<lambda>c. [Send c reasonFrame, Close c ''room deleted'']) targets),
          m\<lparr>msg_cache := (msg_cache m)(rid := None)\<rparr>))"

text \<open>\<open>while (dq.size() > cacheSize) dq.pop_front()\<close>.\<close>

fun pop_front_while :: "nat \<Rightarrow> CachedMessage list \<Rightarrow> CachedMessage list" where
  "pop_front_while n [] = []"
| "pop_front_while n (x # xs) = (if n < length (x # xs) then pop_front_while n xs else x # xs)"

definition appendCachedMessage :: "string \<Rightarrow> string \<Rightarrow> string \<Rightarrow> int \<Rightarrow> int \<Rightarrow> manager \<Rightarrow> manager" where
  "appendCachedMessage rid sender payload cacheSize now m =
     (if cacheSize \<le> 0 then m
      else let dq = (case msg_cache m rid of None \<Rightarrow> [] | Some q \<Rightarrow> q);
               dq = dq @ [\<lparr>sender_peer_id = sender, payload_b64 = payload, cached_at = now\<rparr>]
           in m\<lparr>msg_cache := (msg_cache m)(rid \<mapsto> pop_front_while (nat cacheSize) dq)\<rparr>)"

definition recentMessages :: "manager \<Rightarrow> string \<Rightarrow> CachedMessage list" where
  "recentMessages m rid = (case msg_cache m rid of None \<Rightarrow> [] | Some q \<Rightarrow> q)"

definition dropMessageCache :: "string \<Rightarrow> manager \<Rightarrow> manager" where
  "dropMessageCache rid m = m\<lparr>msg_cache := (msg_cache m)(rid := None)\<rparr>"

definition joinedPeerIds :: "(conn list \<Rightarrow> conn list) \<Rightarrow> manager \<Rightarrow> string \<Rightarrow> string list" where
  "joinedPeerIds conn_order m rid =
     (case by_room m rid of
        None \<Rightarrow> []
      | Some cs \<Rightarrow> map (\<lambda>c. case peers m c of None \<Rightarrow> [] | Some p \<Rightarrow> peer_id p) (filter (is_joined m) (conn_order cs)))"


section \<open>The invariant\<close>

text \<open>The two indexes agree: a connection is listed under a room exactly when its peer is in that room.\<close>

definition manager_ok :: "manager \<Rightarrow> bool" where
  "manager_ok m \<longleftrightarrow>
     (\<forall>c rid. c \<in> set (conns_of m rid) \<longleftrightarrow> (\<exists>p. peers m c = Some p \<and> peer_room p = rid))
     \<and> (\<forall>rid. distinct (conns_of m rid)) \<and> (\<forall>rid. by_room m rid \<noteq> Some [])"

lemma manager_okD:
  assumes "manager_ok m"
  shows "c \<in> set (conns_of m rid) \<longleftrightarrow> (\<exists>p. peers m c = Some p \<and> peer_room p = rid)"
    and "distinct (conns_of m rid)"
  using assms unfolding manager_ok_def by blast+

lemma empty_manager_ok: "manager_ok empty_manager"
  by (simp add: manager_ok_def empty_manager_def conns_of_def)

lemma accept_conns:
  "conns_of (fst (onWsAccept c rid m g)) r
     = (if r = rid \<and> c \<notin> set (conns_of m rid) then conns_of m r @ [c] else conns_of m r)"
  by (auto simp: onWsAccept_def conns_of_def split_beta Let_def)

lemma accept_peers:
  "peers m c = None \<Longrightarrow> peers (fst (onWsAccept c rid m g)) = (peers m)(c \<mapsto>
     \<lparr>peer_id = fst (randomPeerId g), peer_room = rid, joined = False, pending_token = [], expected_plaintext = []\<rparr>)"
  by (simp add: onWsAccept_def split_beta Let_def)

lemma accept_ok:
  assumes "manager_ok m" and "peers m c = None"
  shows "manager_ok (fst (onWsAccept c rid m g))"
proof -
  have "c \<notin> set (conns_of m r)" for r using manager_okD(1) [OF assms(1)] assms(2) by auto
  moreover have "by_room (fst (onWsAccept c rid m g)) r \<noteq> Some []" for r
    using assms by (auto simp: manager_ok_def onWsAccept_def split_beta Let_def)
  ultimately show ?thesis
    using assms unfolding manager_ok_def accept_conns accept_peers [OF assms(2)] by auto
qed

lemma drop_conn_conns:
  "conns_of (drop_conn c rid m) r = (if r = rid then filter (\<lambda>x. x \<noteq> c) (conns_of m r) else conns_of m r)"
  by (auto simp: drop_conn_def conns_of_def Let_def split: option.splits)

lemma drop_conn_ok:
  assumes "manager_ok m" and "peers m c = Some p"
  shows "manager_ok (drop_conn c (peer_room p) m)"
proof -
  have "peers (drop_conn c (peer_room p) m) = (peers m)(c := None)" by (simp add: drop_conn_def)
  moreover have "by_room (drop_conn c (peer_room p) m) r \<noteq> Some []" for r
    using assms(1) by (auto simp: manager_ok_def drop_conn_def Let_def split: option.splits)
  ultimately show ?thesis
    using assms unfolding manager_ok_def drop_conn_conns by auto
qed

lemma close_ok: "manager_ok m \<Longrightarrow> manager_ok (snd (onWsClose jo co c m))"
  using drop_conn_ok [of m c] by (auto simp: onWsClose_def Let_def split: option.splits)

lemma peer_update_ok:
  assumes "manager_ok m" and "peers m c = Some p" and "peer_room q = peer_room p"
  shows "manager_ok (m\<lparr>peers := (peers m)(c \<mapsto> q)\<rparr>)"
proof -
  have "conns_of (m\<lparr>peers := (peers m)(c \<mapsto> q)\<rparr>) r = conns_of m r" for r by (simp add: conns_of_def)
  then show ?thesis using assms unfolding manager_ok_def by auto
qed

lemma mark_ok: "manager_ok m \<Longrightarrow> manager_ok (markPeerJoined c pid m)"
  using peer_update_ok [of m c] by (auto simp: markPeerJoined_def split: option.splits)

lemma cache_ok: "manager_ok (m\<lparr>msg_cache := x\<rparr>) \<longleftrightarrow> manager_ok m"
  by (simp add: manager_ok_def conns_of_def)

lemma cache_ops_ok:
  "manager_ok m \<Longrightarrow> manager_ok (snd (closeRoom co rid f m))"
  "manager_ok m \<Longrightarrow> manager_ok (appendCachedMessage rid s p n now m)"
  "manager_ok m \<Longrightarrow> manager_ok (dropMessageCache rid m)"
  by (simp_all add: closeRoom_def appendCachedMessage_def dropMessageCache_def Let_def cache_ok)

section \<open>Broadcast, counting and listing\<close>

definition in_room :: "manager \<Rightarrow> string \<Rightarrow> conn \<Rightarrow> bool" where
  "in_room m rid c \<longleftrightarrow> (\<exists>p. peers m c = Some p \<and> joined p \<and> peer_room p = rid)"

lemma mset_set_eq: "mset xs = mset ys \<Longrightarrow> set xs = set ys \<and> distinct xs = distinct ys \<and> length xs = length ys"
  by (metis mset_eq_imp_distinct_iff mset_eq_length mset_eq_setD)

lemma broadcast_conns:
  assumes "\<forall>cs. mset (co cs) = mset cs"
  shows "broadcast co m rid f ex = map (\<lambda>c. Send c f) (filter (\<lambda>c. Some c \<noteq> ex \<and> is_joined m c) (co (conns_of m rid)))"
proof -
  have "co [] = []" using assms by (metis mset_zero_iff mset.simps(1))
  then show ?thesis by (auto simp: broadcast_def conns_of_def split: option.splits)
qed

lemma in_room_conns:
  assumes "manager_ok m"
  shows "c \<in> set (conns_of m rid) \<and> is_joined m c \<longleftrightarrow> in_room m rid c"
  using manager_okD(1) [OF assms, of c rid] by (auto simp: in_room_def is_joined_def)

text \<open>
  C8: a frame reaches the joined peers of its room and nobody else. Each of them but the excepted
  connection is sent the frame exactly once, whatever the order in which the set is walked, and no
  connection of another room, or that has not passed the join, is sent anything.
\<close>

theorem broadcast_exact:
  assumes "manager_ok m" and "\<forall>cs. mset (co cs) = mset cs"
  shows "set (broadcast co m rid frame ex) = {Send c frame | c. in_room m rid c \<and> Some c \<noteq> ex}
    \<and> distinct (broadcast co m rid frame ex)"
proof -
  have "set (co (conns_of m rid)) = set (conns_of m rid)" "distinct (co (conns_of m rid))"
    using mset_set_eq [OF assms(2) [rule_format, of "conns_of m rid"]] manager_okD(2) [OF assms(1)] by auto
  then show ?thesis
    using in_room_conns [OF assms(1), of _ rid]
    by (auto simp: broadcast_conns [OF assms(2)] distinct_map inj_on_def)
qed

text \<open>A room of two joined peers and one that is not.\<close>

definition demo_peer :: "bool \<Rightarrow> string \<Rightarrow> Peer" where
  "demo_peer j pid = \<lparr>peer_id = pid, peer_room = ''r'', joined = j, pending_token = [], expected_plaintext = []\<rparr>"

definition demo_manager :: manager where
  "demo_manager =
     \<lparr>peers = [1 \<mapsto> demo_peer True ''a'', 2 \<mapsto> demo_peer True ''b'', 3 \<mapsto> demo_peer False ''c''],
      by_room = [''r'' \<mapsto> [1, 2, 3]], msg_cache = Map.empty\<rparr>"

lemma demo_manager_ok: "manager_ok demo_manager"
  by (auto simp: manager_ok_def demo_manager_def conns_of_def demo_peer_def split: if_splits)

theorem broadcast_exact_witness:
  "set (broadcast rev demo_manager ''r'' ''f'' (Some 2)) = {Send c ''f'' | c. in_room demo_manager ''r'' c \<and> Some c \<noteq> Some 2}
    \<and> distinct (broadcast rev demo_manager ''r'' ''f'' (Some 2))"
  by (rule broadcast_exact [OF demo_manager_ok]) simp

lemma fold_count: "fold (\<lambda>c n. if P c then n + 1 else n) cs (k :: int) = k + int (length (filter P cs))"
  by (induction cs arbitrary: k) auto

text \<open>
  The room's size. \<open>liveCount\<close> is the number of joined peers of the room, and \<open>joinedPeerIds\<close>
  lists the peer id of each of them.
\<close>

lemma live_members:
  assumes "manager_ok m" and "\<forall>cs. mset (co cs) = mset cs"
  shows "liveCount m rid = int (card {c. in_room m rid c})
    \<and> mset (joinedPeerIds co m rid) = image_mset (\<lambda>c. peer_id (the (peers m c))) (mset_set {c. in_room m rid c})"
proof -
  let ?js = "filter (is_joined m) (conns_of m rid)"
  have set: "set ?js = {c. in_room m rid c}" using in_room_conns [OF assms(1), of _ rid] by auto
  have d: "distinct ?js" using manager_okD(2) [OF assms(1)] by simp
  have "liveCount m rid = int (length ?js)"
    by (auto simp: liveCount_def conns_of_def fold_count split: option.splits)
  then have 1: "liveCount m rid = int (card {c. in_room m rid c})"
    using distinct_card [OF d] set by simp
  have "co [] = []" using assms(2) by (metis mset_zero_iff mset.simps(1))
  then have "joinedPeerIds co m rid = map (\<lambda>c. peer_id (the (peers m c))) (filter (is_joined m) (co (conns_of m rid)))"
    by (auto simp: joinedPeerIds_def conns_of_def is_joined_def split: option.splits)
  then have "mset (joinedPeerIds co m rid) = image_mset (\<lambda>c. peer_id (the (peers m c))) (mset ?js)"
    using assms(2) by (simp add: mset_filter)
  also have "mset ?js = mset_set {c. in_room m rid c}" using mset_set_set [OF d] set by simp
  finally show ?thesis using 1 by simp
qed

section \<open>The message cache\<close>

definition last_n :: "nat \<Rightarrow> 'a list \<Rightarrow> 'a list" where
  "last_n n xs = drop (length xs - n) xs"

lemma length_last_n: "length (last_n n xs) = min n (length xs)"
  by (simp add: last_n_def)

lemma last_n_last_n: "last_n n (last_n n xs @ ys) = last_n n (xs @ ys)"
proof (cases "length xs \<le> n")
  case True
  then show ?thesis by (simp add: last_n_def)
next
  case False
  then have "length (last_n n xs @ ys) - n = length ys" by (simp add: last_n_def)
  then have "last_n n (last_n n xs @ ys) = drop (length ys) (last_n n xs @ ys)" by (simp add: last_n_def)
  also have "\<dots> = drop (length ys) (drop (length xs - n) (xs @ ys))"
    using False by (simp add: last_n_def)
  also have "\<dots> = last_n n (xs @ ys)"
    using False by (simp add: last_n_def add.commute)
  finally show ?thesis .
qed

text \<open>The contract of a cache that keeps the last messages of each room.\<close>

locale message_ring =
  fixes recent :: "'m \<Rightarrow> string \<Rightarrow> 'e list" and push :: "string \<Rightarrow> 'e \<Rightarrow> 'm \<Rightarrow> 'm" and cap :: nat
  assumes push_recent: "recent (push r e m) r = last_n cap (recent m r @ [e])"
    and push_other: "r' \<noteq> r \<Longrightarrow> recent (push r e m) r' = recent m r'"
begin

lemma push_all:
  "es \<noteq> [] \<Longrightarrow> recent (fold (push r) es m) r = last_n cap (recent m r @ es)"
proof (induction es arbitrary: m rule: rev_induct)
  case (snoc e es)
  then show ?case by (cases "es = []") (simp_all add: push_recent last_n_last_n [of cap _ "[e]", simplified])
qed simp

lemma push_mixed:
  "recent (fold (\<lambda>(r, e). push r e) rs m) r =
     (if filter (\<lambda>x. fst x = r) rs = [] then recent m r
      else last_n cap (recent m r @ map snd (filter (\<lambda>x. fst x = r) rs)))"
proof (induction rs arbitrary: m rule: rev_induct)
  case (snoc x rs)
  obtain r' e where x: "x = (r', e)" by (cases x)
  show ?case
    using snoc last_n_last_n [of cap "recent m r @ map snd (filter (\<lambda>x. fst x = r) rs)" "[e]"]
    by (auto simp: x push_recent push_other)
qed simp

end

lemma pop_front_last: "pop_front_while n xs = last_n n xs"
proof (induction n xs rule: pop_front_while.induct)
  case (2 n x xs)
  show ?case
  proof (cases "n < length (x # xs)")
    case True
    then have "length (x # xs) - n = Suc (length xs - n)" by simp
    then show ?thesis using True 2 by (simp add: last_n_def)
  qed (simp add: last_n_def)
qed (simp add: last_n_def)

definition push_message :: "int \<Rightarrow> string \<Rightarrow> CachedMessage \<Rightarrow> manager \<Rightarrow> manager" where
  "push_message n rid e m = appendCachedMessage rid (sender_peer_id e) (payload_b64 e) n (cached_at e) m"

lemma message_eta: "\<lparr>sender_peer_id = sender_peer_id e, payload_b64 = payload_b64 e, cached_at = cached_at e\<rparr> = (e :: CachedMessage)"
  by (cases e) simp

interpretation ring: message_ring recentMessages "push_message (int (Suc n))" "Suc n" for n
  by unfold_locales
    (simp_all add: recentMessages_def push_message_def appendCachedMessage_def Let_def pop_front_last nat_add_distrib
      message_eta split: option.splits)

text \<open>
  The history is the room's last messages. However messages of several rooms interleave, a room
  with a positive cache size holds exactly the last that many of its own, in order; with a size of
  zero or less nothing is ever kept.
\<close>

lemma recent_messages_window:
  "recentMessages (fold (\<lambda>(r, e). push_message n r e) rs empty_manager) rid =
     last_n (nat n) (map snd (filter (\<lambda>x. fst x = rid) rs))"
proof (cases "0 < n")
  case True
  then obtain k where k: "n = int (Suc k)" by (metis Suc_pred' nat_0_le nless_le zero_less_nat_eq)
  have "recentMessages empty_manager rid = []" by (simp add: recentMessages_def empty_manager_def)
  then show ?thesis using ring.push_mixed [of k rs empty_manager rid] by (auto simp: k nat_add_distrib last_n_def)
next
  case False
  have "fold (\<lambda>(r, e). push_message n r e) rs m = m" for m
    by (induction rs) (use False in \<open>auto simp: push_message_def appendCachedMessage_def\<close>)
  then show ?thesis using False by (simp add: recentMessages_def empty_manager_def last_n_def)
qed

end
