(* ===== verification/Web_Http.thy ===== *)
theory Web_Http
  imports Captcha Config Database Room Json_Read
begin

text \<open>
  src/src/webapi.cpp, the HTTP side: the helpers on JSON values, the precomputed bodies and the route
  handlers. A handler takes the environment (the settings and what the repository does not define: the
  SQL engine, the sort and the iteration orders, the embedded page, the version), the readings of the
  clock it makes, in order, and the server's state; it returns a response or the exception that
  escapes it, the WebSocket events it causes and the state it leaves, also when it throws.
\<close>

section \<open>Environment and state\<close>

record 'd env =
  cfg :: config
  db_run :: "'d sql_engine"
  json_sort :: "members \<Rightarrow> members"
  json_order :: "string list \<Rightarrow> string list"
  conn_order :: "conn list \<Rightarrow> conn list"
  index_html :: string
  version :: string
  git_short :: string

record 'd server =
  database :: 'd
  rooms_mgr :: manager
  captcha_st :: captcha
  generator :: mt

type_synonym clock = "nat \<Rightarrow> int"

record response =
  code :: int
  headers :: "(string \<times> string) list"
  body :: string

type_synonym 'd http_result = "(exn + response) \<times> ws_event list \<times> 'd server"

section \<open>Responses\<close>

text \<open>Header names compare without regard to case; \<open>add_header\<close> keeps what is there.\<close>

definition add_header :: "string \<Rightarrow> string \<Rightarrow> response \<Rightarrow> response" where
  "add_header k v r = r\<lparr>headers := headers r @ [(k, v)]\<rparr>"

definition set_header :: "string \<Rightarrow> string \<Rightarrow> response \<Rightarrow> response" where
  "set_header k v r =
     r\<lparr>headers := filter (\<lambda>h. map to_lower (fst h) \<noteq> map to_lower k) (headers r) @ [(k, v)]\<rparr>"

definition response_code :: "int \<Rightarrow> response" where
  "response_code c = \<lparr>code = c, headers = [], body = []\<rparr>"

definition response_body :: "string \<Rightarrow> response" where
  "response_body b = \<lparr>code = 200, headers = [], body = b\<rparr>"

definition response_json :: "'d env \<Rightarrow> int \<Rightarrow> wvalue \<Rightarrow> response" where
  "response_json e c v =
     set_header ''Content-Type'' ''application/json'' \<lparr>code = c, headers = [], body = dump (json_order e) v\<rparr>"

definition hex16 :: "u64 \<Rightarrow> string" where
  "hex16 w = map (\<lambda>i. kHex ! unat (take_bit 4 (drop_bit (4 * i) w))) (rev [0..<16])"

definition etagFor :: "string \<Rightarrow> string" where
  "etagFor bd =
     (let h = fold (\<lambda>c h. (h XOR ucast (byte_of_char c)) * 0x100000001b3) bd (0xcbf29ce484222325 :: u64)
      in CHR 0x22 # hex16 h @ [CHR 0x22])"

definition jsonError :: "'d env \<Rightarrow> int \<Rightarrow> string \<Rightarrow> string option \<Rightarrow> response" where
  "jsonError e status c msg =
     (let v = w_set ''error_code'' (WString c) WNull;
          v = (case msg of None \<Rightarrow> v | Some m \<Rightarrow> w_set ''message'' (WString m) v)
      in add_header ''Content-Type'' ''application/json'' (response_json e status v))"

text \<open>A 200 response with a JSON body, as most handlers end.\<close>

definition json_ok :: "'d env \<Rightarrow> wvalue \<Rightarrow> response" where
  "json_ok e v = add_header ''Content-Type'' ''application/json'' (response_json e 200 v)"

section \<open>Fields of a JSON value\<close>

definition js_str :: "'d env \<Rightarrow> rvalue \<Rightarrow> string \<Rightarrow> string \<Rightarrow> exn + string" where
  "js_str e v key def =
     exn_bind (has (json_sort e) v key) (\<lambda>h.
       if h then exn_bind (at_key (json_sort e) v key) (\<lambda>x. if t_of x = String then s_of x else Inr def)
       else Inr def)"

definition js_int :: "'d env \<Rightarrow> rvalue \<Rightarrow> string \<Rightarrow> int \<Rightarrow> exn + int" where
  "js_int e v key def =
     exn_bind (has (json_sort e) v key) (\<lambda>h.
       if h then exn_bind (at_key (json_sort e) v key) (\<lambda>x.
         if t_of x = Number then exn_bind (i_of x) (\<lambda>i. Inr (to_int32 i)) else Inr def)
       else Inr def)"

definition js_bool :: "'d env \<Rightarrow> rvalue \<Rightarrow> string \<Rightarrow> bool \<Rightarrow> exn + bool" where
  "js_bool e v key def =
     exn_bind (has (json_sort e) v key) (\<lambda>h.
       if h then exn_bind (at_key (json_sort e) v key) (\<lambda>x.
         if t_of x = True_type then Inr True else if t_of x = False_type then Inr False else Inr def)
       else Inr def)"

text \<open>\<open>v.has(key) && v[key].t() == ty\<close>, with the value found.\<close>

definition typed_field :: "'d env \<Rightarrow> rvalue \<Rightarrow> string \<Rightarrow> json_type \<Rightarrow> exn + rvalue option" where
  "typed_field e v key ty =
     exn_bind (has (json_sort e) v key) (\<lambda>h.
       if h then exn_bind (at_key (json_sort e) v key) (\<lambda>x. Inr (if t_of x = ty then Some x else None))
       else Inr None)"

section \<open>The precomputed bodies\<close>

record web_api =
  bundle_html :: string
  bundle_etag :: string
  info_body :: string
  info_etag :: string

definition info_value :: "config \<Rightarrow> wvalue" where
  "info_value c =
     w_set ''message_cache_size'' (WSigned (messageCacheSize c))
      (w_set ''idle_ttl_seconds'' (WSigned (idleTtlSeconds c))
       (w_set ''max_participants'' (WSigned (maxParticipants c))
        (w_set ''admin_text'' (WString (adminText c))
         (w_set ''app_name'' (WString (appName c)) WNull))))"

definition WebAPI :: "'d env \<Rightarrow> web_api" where
  "WebAPI e =
     \<lparr>bundle_html = index_html e, bundle_etag = etagFor (index_html e),
      info_body = dump (json_order e) (info_value (cfg e)),
      info_etag = etagFor (dump (json_order e) (info_value (cfg e)))\<rparr>"

text \<open>\<open>inm\<close> is the value of \<open>If-None-Match\<close>, empty when absent.\<close>

definition kCacheControl :: string where
  "kCacheControl = ''public, max-age=0, must-revalidate''"

definition not_modified :: "string \<Rightarrow> response" where
  "not_modified etag = add_header ''Cache-Control'' kCacheControl (add_header ''ETag'' etag (response_code 304))"

definition cached_page :: "string \<Rightarrow> string \<Rightarrow> string \<Rightarrow> response" where
  "cached_page ctype bd etag =
     add_header ''Cache-Control'' kCacheControl
      (add_header ''ETag'' etag (add_header ''Content-Type'' ctype (response_body bd)))"

definition serveBundle :: "web_api \<Rightarrow> string \<Rightarrow> response" where
  "serveBundle w inm =
     (if inm \<noteq> [] \<and> inm = bundle_etag w then not_modified (bundle_etag w)
      else cached_page ''text/html; charset=utf-8'' (bundle_html w) (bundle_etag w))"

definition get_info :: "web_api \<Rightarrow> string \<Rightarrow> response" where
  "get_info w inm =
     (if inm \<noteq> [] \<and> inm = info_etag w then not_modified (info_etag w)
      else cached_page ''application/json'' (info_body w) (info_etag w))"

definition get_version :: "'d env \<Rightarrow> response" where
  "get_version e =
     json_ok e (w_set ''git_short'' (WString (git_short e)) (w_set ''version'' (WString (version e)) WNull))"

section \<open>GET /api/pow\_challenge\<close>

definition pow_challenge :: "'d env \<Rightarrow> clock \<Rightarrow> 'd server \<Rightarrow> response \<times> 'd server" where
  "pow_challenge e now s =
     (let (token, g) = issueChallenge (captcha_st s) 60 (now 0) (generator s);
          v = w_set ''difficulty'' (WSigned (powDifficultyBits (cfg e))) (w_set ''challenge'' (WString token) WNull)
      in (add_header ''Cache-Control'' ''no-store'' (json_ok e v), s\<lparr>generator := g\<rparr>))"

section \<open>POST /api/rooms\<close>

definition pow_error :: "verify_result \<Rightarrow> string" where
  "pow_error r =
     (case r of Expired \<Rightarrow> ''pow_expired'' | Reused \<Rightarrow> ''pow_reused'' | _ \<Rightarrow> ''pow_invalid'')"

text \<open>After an accepted proof of work.\<close>

definition create_room_tail :: "'d env \<Rightarrow> clock \<Rightarrow> rvalue \<Rightarrow> 'd server \<Rightarrow> 'd http_result" where
  "create_room_tail e now bd s =
     (case exn_bind (js_str e bd ''name'' ''Secret chat'') (\<lambda>name.
             exn_bind (js_bool e bd ''requires_password'' False) (\<lambda>pw. Inr (name, pw))) of
        Inl x \<Rightarrow> (Inl x, [], s)
      | Inr (name, requiresPassword) \<Rightarrow>
          let name = (if 80 < length name then take 80 name else name);
              capacity = min (maxParticipants (cfg e)) (maxParticipantsCap (cfg e));
              poolMultiplier = (if requiresPassword then 10 else 5);
              (full, d) = (if 0 < totalRoomsCap (cfg e)
                           then let (n, d) = countRooms (db_run e) (database s) in (totalRoomsCap (cfg e) \<le> n, d)
                           else (False, database s));
              s = s\<lparr>database := d\<rparr>
          in if full then (Inr (jsonError e 503 ''rooms_capacity_reached'' None), [], s)
             else let (rid, g) = randomRoomId (generator s);
                      r = \<lparr>room_id = rid, room_name = name, max_participants = capacity, created_at = now 1,
                           last_active_at = now 1, activated = False, requires_password = requiresPassword\<rparr>;
                      (ok, d) = createRoom (db_run e) r (database s);
                      s = s\<lparr>generator := g, database := d\<rparr>
                  in if \<not> ok then (Inr (jsonError e 500 ''db_create_failed'' None), [], s)
                     else let out = w_set ''requires_password'' (w_bool requiresPassword)
                            (w_set ''challenges_required'' (WSigned (to_int32 (capacity * poolMultiplier)))
                             (w_set ''max_participants'' (WSigned capacity)
                              (w_set ''room_id'' (WString rid) WNull)))
                          in (Inr (json_ok e out), [], s))"

definition create_room :: "'d env \<Rightarrow> clock \<Rightarrow> string \<Rightarrow> 'd server \<Rightarrow> 'd http_result" where
  "create_room e now req_body s =
     (case load req_body of
        None \<Rightarrow> (Inr (jsonError e 400 ''bad_json'' None), [], s)
      | Some bd \<Rightarrow>
          (case typed_field e bd ''pow'' Object of
             Inl x \<Rightarrow> (Inl x, [], s)
           | Inr None \<Rightarrow> (Inr (jsonError e 400 ''pow_required'' None), [], s)
           | Inr (Some powObj) \<Rightarrow>
               (case exn_bind (js_str e powObj ''challenge'' []) (\<lambda>c.
                       exn_bind (js_str e powObj ''nonce'' []) (\<lambda>n. Inr (c, n))) of
                  Inl x \<Rightarrow> (Inl x, [], s)
                | Inr (powChallenge, powNonce) \<Rightarrow>
                    if powChallenge = [] \<or> powNonce = []
                    then (Inr (jsonError e 400 ''pow_required'' None), [], s)
                    else if 256 < length powChallenge \<or> 64 < length powNonce
                    then (Inr (jsonError e 400 ''pow_invalid'' None), [], s)
                    else (case verifyChallenge (captcha_st s) powChallenge powNonce (powDifficultyBits (cfg e)) (now 0) of
                        Inl x \<Rightarrow> (Inl x, [], s)
                      | Inr (r, st) \<Rightarrow>
                          if r = Ok then create_room_tail e now bd (s\<lparr>captcha_st := st\<rparr>)
                          else (Inr (jsonError e 400 (pow_error r) None), [], s\<lparr>captcha_st := st\<rparr>)))))"

section \<open>POST /api/rooms/<id>/activate\<close>

text \<open>The loop over the submitted challenges: an early answer, or the pairs.\<close>

fun read_pairs :: "'d env \<Rightarrow> rvalue list \<Rightarrow> exn + (response + ChallengePair list)" where
  "read_pairs e [] = Inr (Inr [])"
| "read_pairs e (el # els) =
     exn_bind (js_str e el ''plaintext'' []) (\<lambda>p.
     exn_bind (js_str e el ''ciphertext'' []) (\<lambda>c.
     exn_bind (js_str e el ''nonce'' []) (\<lambda>n.
       if p = [] \<or> c = [] \<or> n = [] then Inr (Inl (jsonError e 400 ''bad_challenge_field'' None))
       else let cap = to_int32 (challengeMaxBlobBytes (cfg e) * 2)
            in if cap < to_int32 (int (length p)) \<or> cap < to_int32 (int (length c)) \<or> cap < to_int32 (int (length n))
               then Inr (Inl (jsonError e 400 ''challenge_too_large'' None))
               else exn_bind (read_pairs e els) (\<lambda>r. Inr (map_sum (\<lambda>x. x)
                      (\<lambda>ps. \<lparr>plaintext_b64 = p, ciphertext_b64 = c, nonce_b64 = n\<rparr> # ps) r)))))"

definition required_challenges :: "RoomRow \<Rightarrow> int" where
  "required_challenges r = to_int32 (max_participants r * (if requires_password r then 10 else 5))"

definition activate_room :: "'d env \<Rightarrow> string \<Rightarrow> string \<Rightarrow> 'd server \<Rightarrow> 'd http_result" where
  "activate_room e rid req_body s =
     (let (roomOpt, d) = findRoom (db_run e) rid (database s); s = s\<lparr>database := d\<rparr>
      in case roomOpt of
           None \<Rightarrow> (Inr (jsonError e 404 ''room_not_found'' None), [], s)
         | Some room \<Rightarrow>
             if activated room then (Inr (jsonError e 409 ''already_activated'' None), [], s)
             else (case load req_body of
                 None \<Rightarrow> (Inr (jsonError e 400 ''bad_json'' None), [], s)
               | Some bd \<Rightarrow>
                   (case typed_field e bd ''challenges'' List of
                      Inl x \<Rightarrow> (Inl x, [], s)
                    | Inr None \<Rightarrow> (Inr (jsonError e 400 ''bad_json'' None), [], s)
                    | Inr (Some arr) \<Rightarrow>
                        (case lo arr of
                           Inl x \<Rightarrow> (Inl x, [], s)
                         | Inr els \<Rightarrow>
                             if to_int32 (int (length els)) \<noteq> required_challenges room
                             then (Inr (jsonError e 400 ''wrong_challenge_count'' None), [], s)
                             else (case read_pairs e els of
                                 Inl x \<Rightarrow> (Inl x, [], s)
                               | Inr (Inl r) \<Rightarrow> (Inr r, [], s)
                               | Inr (Inr ps) \<Rightarrow>
                                   let (ok, d) = insertChallenges (db_run e) rid ps (database s);
                                       s = s\<lparr>database := d\<rparr>
                                   in if \<not> ok then (Inr (jsonError e 500 ''db_insert_failed'' None), [], s)
                                      else let (ok, d) = activateRoom (db_run e) rid (database s);
                                               s = s\<lparr>database := d\<rparr>
                                        in if \<not> ok then (Inr (jsonError e 500 ''db_activate_failed'' None), [], s)
                                           else (Inr (json_ok e (w_set ''ok'' WTrue WNull)), [], s))))))"

section \<open>POST /api/is\_alive\<close>

fun alive_loop :: "'d env \<Rightarrow> rvalue list \<Rightarrow> 'd \<Rightarrow> exn + (wvalue list \<times> wvalue list \<times> 'd)" where
  "alive_loop e [] d = Inr ([], [], d)"
| "alive_loop e (v # vs) d =
     (if t_of v \<noteq> String then alive_loop e vs d
      else exn_bind (s_of v) (\<lambda>rid.
        let (r, d) = findRoom (db_run e) rid d
        in exn_bind (alive_loop e vs d) (\<lambda>(alive, gone, d).
             Inr (case r of None \<Rightarrow> (alive, WString rid # gone, d) | Some _ \<Rightarrow> (WString rid # alive, gone, d)))))"

definition is_alive :: "'d env \<Rightarrow> string \<Rightarrow> 'd server \<Rightarrow> 'd http_result" where
  "is_alive e req_body s =
     (case (case load req_body of
              None \<Rightarrow> Inr None
            | Some bd \<Rightarrow> typed_field e bd ''room_ids'' List) of
        Inl x \<Rightarrow> (Inl x, [], s)
      | Inr ids \<Rightarrow>
          (case (case ids of None \<Rightarrow> Inr [] | Some l \<Rightarrow> lo l) of
             Inl x \<Rightarrow> (Inl x, [], s)
           | Inr vs \<Rightarrow>
               (case alive_loop e vs (database s) of
                  Inl x \<Rightarrow> (Inl x, [], s)
                | Inr (alive, gone, d) \<Rightarrow>
                    (Inr (json_ok e (w_set ''gone'' (WList gone) (w_set ''alive'' (WList alive) WNull))), [],
                     s\<lparr>database := d\<rparr>))))"

section \<open>DELETE /api/rooms/<id>\<close>

definition deleted_frame :: "'d env \<Rightarrow> string" where
  "deleted_frame e = dump (json_order e) (w_set ''type'' (WString ''deleted'') WNull)"

definition delete_room_route :: "'d env \<Rightarrow> string \<Rightarrow> string \<Rightarrow> 'd server \<Rightarrow> 'd http_result" where
  "delete_room_route e rid req_body s =
     (case load req_body of
        None \<Rightarrow> (Inr (jsonError e 400 ''bad_json'' None), [], s)
      | Some bd \<Rightarrow>
          (case js_str e bd ''token'' [] of
             Inl x \<Rightarrow> (Inl x, [], s)
           | Inr token \<Rightarrow>
               if token = [] then (Inr (jsonError e 401 ''missing_token'' None), [], s)
               else let (owner, d) = roomForToken (db_run e) token (database s); s = s\<lparr>database := d\<rparr>
                 in if owner \<noteq> Some rid then (Inr (jsonError e 401 ''invalid_token'' None), [], s)
                    else let (evs, m) = closeRoom (conn_order e) rid (deleted_frame e) (rooms_mgr s);
                             (_, d) = deleteRoom (db_run e) rid (database s)
                         in (Inr (json_ok e (w_set ''ok'' WTrue WNull)), evs,
                             s\<lparr>rooms_mgr := m, database := d\<rparr>)))"

section \<open>Lookups in a concrete value\<close>

lemma lookup_simps:
  "distinct (map fst kvs) \<Longrightarrow> has insertion_sort (RObject kvs) k = Inr (k \<in> fst ` set kvs)"
  "distinct (map fst kvs) \<Longrightarrow> map_of kvs k = Some v \<Longrightarrow> at_key insertion_sort (RObject kvs) k = Inr v"
  using ins.has_iff ins.at_key_map_of by blast+

lemma s_of_plain [simp]: "s_of (RString s False) = Inr s"
  by (simp add: s_of_def string_text_def)

end
