(* ===== verification/Web_Socket.thy ===== *)
theory Web_Socket
  imports Web_Http
begin

text \<open>
  src/src/webapi.cpp, the WebSocket side: the callbacks of the \<open>/ws\<close> route. A peer first asks to join
  with \<open>hello\<close>, by token or by answering a challenge, and only then relays messages. \<open>peer\<close> in the
  code is a pointer into the manager, so its fields are read from the manager at each use.
\<close>

type_synonym 'd ws_result = "(exn + unit) \<times> ws_event list \<times> 'd server"

section \<open>Opening and closing\<close>

text \<open>The room id of the upgrade request, which becomes the connection's \<open>userdata\<close>; refused when empty.\<close>

definition on_accept :: "string option \<Rightarrow> string option" where
  "on_accept room_param =
     (let rid = (case room_param of None \<Rightarrow> [] | Some s \<Rightarrow> cstr s) in if rid = [] then None else Some rid)"

definition on_open :: "conn \<Rightarrow> string option \<Rightarrow> 'd server \<Rightarrow> ws_event list \<times> 'd server" where
  "on_open c userdata s =
     (case userdata of
        None \<Rightarrow> ([Close c ''no room''], s)
      | Some rid \<Rightarrow>
          let (m, g) = onWsAccept c rid (rooms_mgr s) (generator s)
          in ([], s\<lparr>rooms_mgr := m, generator := g\<rparr>))"

definition on_close :: "'d env \<Rightarrow> conn \<Rightarrow> 'd server \<Rightarrow> ws_event list \<times> 'd server" where
  "on_close e c s =
     (let (evs, m) = onWsClose (json_order e) (conn_order e) c (rooms_mgr s) in (evs, s\<lparr>rooms_mgr := m\<rparr>))"

definition on_error :: "'d env \<Rightarrow> conn \<Rightarrow> 'd server \<Rightarrow> ws_event list \<times> 'd server" where
  "on_error e c s =
     (let (evs, m) = onWsClose (json_order e) (conn_order e) c (rooms_mgr s) in (evs, s\<lparr>rooms_mgr := m\<rparr>))"

section \<open>Frames\<close>

definition quoted :: "string \<Rightarrow> string" where
  "quoted s = CHR 0x22 # s @ [CHR 0x22]"

definition bad_frame :: string where
  "bad_frame = ''{'' @ quoted ''type'' @ '':'' @ quoted ''error'' @ '','' @ quoted ''code'' @ '':'' @ quoted ''bad_frame'' @ ''}''"

definition pong_frame :: string where
  "pong_frame = ''{'' @ quoted ''type'' @ '':'' @ quoted ''pong'' @ ''}''"

definition error_frame :: "'d env \<Rightarrow> string \<Rightarrow> string" where
  "error_frame e c = dump (json_order e) (w_set ''code'' (WString c) (w_set ''type'' (WString ''error'') WNull))"

definition sendErr :: "'d env \<Rightarrow> conn \<Rightarrow> string \<Rightarrow> ws_event list" where
  "sendErr e c err = [Send c (error_frame e err)]"

definition sendErrAndClose :: "'d env \<Rightarrow> conn \<Rightarrow> string \<Rightarrow> ws_event list" where
  "sendErrAndClose e c err = sendErr e c err @ [Close c err]"

definition history_row :: "CachedMessage \<Rightarrow> wvalue" where
  "history_row m =
     w_set ''peer_id'' (WString (sender_peer_id m))
      (w_set ''ts'' (WSigned (cached_at m)) (w_set ''payload'' (WString (payload_b64 m)) WNull))"

definition joined_value ::
    "string \<Rightarrow> RoomRow option \<Rightarrow> string option \<Rightarrow> CachedMessage list \<Rightarrow> string list \<Rightarrow> wvalue" where
  "joined_value pid roomRow token history members =
     (let v = w_set ''peer_id'' (WString pid) (w_set ''type'' (WString ''joined'') WNull);
          v = (case roomRow of None \<Rightarrow> v | Some r \<Rightarrow> w_set ''room_name'' (WString (room_name r)) v);
          v = (case token of None \<Rightarrow> v | Some t \<Rightarrow> w_set ''token'' (WString t) v);
          v = w_set ''history'' (WList (map history_row history)) v
      in w_set ''members'' (WList (map WString members)) v)"

definition peer_join_value :: "string \<Rightarrow> wvalue" where
  "peer_join_value pid = w_set ''peer_id'' (WString pid) (w_set ''type'' (WString ''peer_join'') WNull)"

definition challenge_value :: "ChallengePair \<Rightarrow> wvalue" where
  "challenge_value p =
     w_set ''nonce'' (WString (nonce_b64 p))
      (w_set ''ciphertext'' (WString (ciphertext_b64 p)) (w_set ''type'' (WString ''challenge'') WNull))"

definition relay_value :: "string \<Rightarrow> string \<Rightarrow> string \<Rightarrow> int \<Rightarrow> wvalue" where
  "relay_value ty pid payload ts =
     w_set ''ts'' (WSigned ts)
      (w_set ''payload'' (WString payload)
       (w_set ''peer_id'' (WString pid) (w_set ''type'' (WString ty) WNull)))"

section \<open>Joining\<close>

definition finalizeJoin :: "'d env \<Rightarrow> conn \<Rightarrow> string \<Rightarrow> bool \<Rightarrow> string \<Rightarrow> 'd server \<Rightarrow> ws_event list \<times> 'd server" where
  "finalizeJoin e c token isFresh rid s =
     (let newPeerId = peerIdFromToken token;
          m = markPeerJoined c newPeerId (rooms_mgr s);
          (roomRow, d) = findRoom (db_run e) rid (database s);
          history = recentMessages m rid;
          members = joinedPeerIds (conn_order e) m rid;
          v = joined_value newPeerId roomRow (if isFresh then Some token else None) history members;
          pid = (case peers m c of None \<Rightarrow> [] | Some p \<Rightarrow> peer_id p);
          evs = Send c (dump (json_order e) v)
            # broadcast (conn_order e) m rid (dump (json_order e) (peer_join_value pid)) (Some c);
          d = touchRoom (db_run e) rid d
      in (evs, s\<lparr>rooms_mgr := m, database := d\<rparr>))"

text \<open>A challenge that nobody can answer, from the process's random bytes.\<close>

definition decoy_pair :: "mt \<Rightarrow> ChallengePair \<times> mt" where
  "decoy_pair g =
     (let (p, g) = randomBytesVec 32 g;
          (c, g) = randomBytesVec 48 g;
          (n, g) = randomBytesVec 24 g
      in (\<lparr>plaintext_b64 = base64Encode p, ciphertext_b64 = base64Encode c, nonce_b64 = base64Encode n\<rparr>, g))"

definition set_peer :: "conn \<Rightarrow> (Peer \<Rightarrow> Peer) \<Rightarrow> manager \<Rightarrow> manager" where
  "set_peer c f m = (case peers m c of None \<Rightarrow> m | Some p \<Rightarrow> m\<lparr>peers := (peers m)(c \<mapsto> f p)\<rparr>)"

text \<open>\<open>hello\<close> with a token, and \<open>hello\<close> without one.\<close>

definition hello_token :: "'d env \<Rightarrow> conn \<Rightarrow> string \<Rightarrow> string \<Rightarrow> 'd server \<Rightarrow> 'd ws_result" where
  "hello_token e c token rid s =
     (let (owner, d) = roomForToken (db_run e) token (database s); s = s\<lparr>database := d\<rparr>
      in if owner = Some rid
         then let (evs, s) = finalizeJoin e c token False rid s in (Inr (), evs, s)
         else (Inr (), sendErrAndClose e c ''invalid_key'', s))"

definition hello_fresh :: "'d env \<Rightarrow> conn \<Rightarrow> string \<Rightarrow> 'd server \<Rightarrow> 'd ws_result" where
  "hello_fresh e c rid s =
     (let (roomRow, d) = findRoom (db_run e) rid (database s);
          roomFull = (case roomRow of None \<Rightarrow> False | Some r \<Rightarrow> max_participants r \<le> liveCount (rooms_mgr s) rid);
          (pair, d) = (if roomRow \<noteq> None \<and> \<not> roomFull then consumeChallenge (db_run e) rid d else (None, d));
          (pair, g) = (case pair of Some p \<Rightarrow> (p, generator s) | None \<Rightarrow> decoy_pair (generator s));
          (token, g) = randomTokenHex g;
          m = set_peer c (\<lambda>p. p\<lparr>pending_token := token, expected_plaintext := plaintext_b64 pair\<rparr>) (rooms_mgr s)
      in (Inr (), [Send c (dump (json_order e) (challenge_value pair))],
          s\<lparr>database := d, generator := g, rooms_mgr := m\<rparr>))"

definition challenge_response :: "'d env \<Rightarrow> conn \<Rightarrow> string \<Rightarrow> Peer \<Rightarrow> 'd server \<Rightarrow> 'd ws_result" where
  "challenge_response e c answer p s =
     (if pending_token p = [] \<or> expected_plaintext p = []
      then (Inr (), sendErrAndClose e c ''no_challenge'', s)
      else let token = pending_token p;
               expected = expected_plaintext p;
               s = s\<lparr>rooms_mgr := set_peer c (\<lambda>p. p\<lparr>pending_token := [], expected_plaintext := []\<rparr>) (rooms_mgr s)\<rparr>
           in if answer = [] \<or> answer \<noteq> expected
              then (Inr (), sendErrAndClose e c ''invalid_key'', s)
              else let (ok, d) = insertAccessToken (db_run e) token (peer_room p) (database s);
                       s = s\<lparr>database := d\<rparr>
                in if \<not> ok then (Inr (), sendErrAndClose e c ''internal'', s)
                   else let (evs, s) = finalizeJoin e c token True (peer_room p) s in (Inr (), evs, s))"

section \<open>Relaying\<close>

definition relay :: "'d env \<Rightarrow> clock \<Rightarrow> conn \<Rightarrow> string \<Rightarrow> string \<Rightarrow> Peer \<Rightarrow> 'd server \<Rightarrow> 'd ws_result" where
  "relay e now c ty payload p s =
     (if payload = [] then (Inr (), sendErr e c ''bad_payload'', s)
      else if wsMaxPayloadBytes (cfg e) < to_int32 (int (length payload))
      then (Inr (), sendErr e c ''payload_too_large'', s)
      else let s = (if ty = ''msg''
                    then s\<lparr>rooms_mgr := appendCachedMessage (peer_room p) (peer_id p) payload
                             (messageCacheSize (cfg e)) (now 0) (rooms_mgr s),
                           database := touchRoom (db_run e) (peer_room p) (database s)\<rparr>
                    else s);
               out = relay_value ty (peer_id p) payload (now 1)
           in (Inr (), broadcast (conn_order e) (rooms_mgr s) (peer_room p) (dump (json_order e) out)
                 (if ty = ''presence'' then Some c else None), s))"

section \<open>Messages\<close>

definition on_frame :: "'d env \<Rightarrow> clock \<Rightarrow> conn \<Rightarrow> rvalue \<Rightarrow> string \<Rightarrow> Peer \<Rightarrow> 'd server \<Rightarrow> 'd ws_result" where
  "on_frame e now c j ty p s =
     (if \<not> joined p
      then (if ty = ''hello''
            then (case js_str e j ''token'' [] of
                    Inl x \<Rightarrow> (Inl x, [], s)
                  | Inr token \<Rightarrow> if token \<noteq> [] then hello_token e c token (peer_room p) s
                                else hello_fresh e c (peer_room p) s)
            else if ty = ''challenge_response''
            then (case js_str e j ''plaintext'' [] of
                    Inl x \<Rightarrow> (Inl x, [], s)
                  | Inr answer \<Rightarrow> challenge_response e c answer p s)
            else (Inr (), sendErrAndClose e c ''not_joined'', s))
      else if ty = ''msg'' \<or> ty = ''presence''
      then (case js_str e j ''payload'' [] of
              Inl x \<Rightarrow> (Inl x, [], s)
            | Inr payload \<Rightarrow> relay e now c ty payload p s)
      else if ty = ''ping'' then (Inr (), [Send c pong_frame], s)
      else (Inr (), sendErr e c ''unknown_type'', s))"

definition on_message :: "'d env \<Rightarrow> clock \<Rightarrow> conn \<Rightarrow> string \<Rightarrow> 'd server \<Rightarrow> 'd ws_result" where
  "on_message e now c data s =
     (if wsMaxPayloadBytes (cfg e) < to_int32 (int (length data)) then (Inr (), [Close c ''payload too large''], s)
      else case findByConn c (rooms_mgr s) of
          None \<Rightarrow> (Inr (), [Close c ''no peer''], s)
        | Some p \<Rightarrow>
            (case load data of
               None \<Rightarrow> (Inr (), [Send c bad_frame], s)
             | Some j \<Rightarrow>
                 (case has (json_sort e) j ''type'' of
                    Inl x \<Rightarrow> (Inl x, [], s)
                  | Inr h \<Rightarrow>
                      if \<not> h then (Inr (), [Send c bad_frame], s)
                      else (case exn_bind (at_key (json_sort e) j ''type'') s_of of
                          Inl x \<Rightarrow> (Inl x, [], s)
                        | Inr ty \<Rightarrow> on_frame e now c j ty p s))))"


section \<open>The cases of a message\<close>

definition type_of :: "'d env \<Rightarrow> rvalue \<Rightarrow> exn + string" where
  "type_of e j = exn_bind (at_key (json_sort e) j ''type'') s_of"

text \<open>A message is either answered on the spot, with no change of state, or it is a frame.\<close>

definition target :: "ws_event \<Rightarrow> conn" where
  "target ev = (case ev of Send c f \<Rightarrow> c | Close c f \<Rightarrow> c)"

lemma on_message_cases:
  assumes "on_message e now c data s = (r, evs, s')"
  obtains "s' = s" "\<forall>ev \<in> set evs. target ev = c"
  | p j ty where "peers (rooms_mgr s) c = Some p" "load data = Some j" "type_of e j = Inr ty"
      "to_int32 (int (length data)) \<le> wsMaxPayloadBytes (cfg e)" "on_frame e now c j ty p s = (r, evs, s')"
  using assms
  by (auto simp: on_message_def type_of_def findByConn_def target_def not_less
      split: if_splits option.splits sum.splits)

lemma is_joined_set_peer:
  "(\<And>p. joined (f p) = joined p) \<Longrightarrow> is_joined (set_peer c f m) c' = is_joined m c'"
  by (auto simp: is_joined_def set_peer_def split: option.splits)

lemma is_joined_append [simp]: "is_joined (appendCachedMessage r q pl n t m) c' = is_joined m c'"
  by (simp add: is_joined_def appendCachedMessage_def Let_def)

lemma is_joined_mark: "is_joined (markPeerJoined c pid m) c' \<longleftrightarrow> c' = c \<and> peers m c \<noteq> None \<or> is_joined m c'"
  by (auto simp: is_joined_def markPeerJoined_def split: option.splits)

lemma finalize_mgr:
  "finalizeJoin e c t f rid s = (evs, s') \<Longrightarrow> rooms_mgr s' = markPeerJoined c (peerIdFromToken t) (rooms_mgr s)"
  by (auto simp: finalizeJoin_def split_beta Let_def)

lemma hello_token_mgr:
  "hello_token e c t rid s = (r, evs, s') \<Longrightarrow>
   rooms_mgr s' = rooms_mgr s
   \<or> fst (roomForToken (db_run e) t (database s)) = Some rid
     \<and> rooms_mgr s' = markPeerJoined c (peerIdFromToken t) (rooms_mgr s)"
  by (auto simp: hello_token_def split_beta Let_def split: if_splits prod.splits dest!: finalize_mgr)

lemma hello_fresh_mgr:
  assumes "hello_fresh e c rid s = (r, evs, s')"
  shows "\<exists>tk ex. rooms_mgr s' = set_peer c (\<lambda>p. p\<lparr>pending_token := tk, expected_plaintext := ex\<rparr>) (rooms_mgr s)"
proof -
  have "s' = snd (snd (hello_fresh e c rid s))" using assms by simp
  then show ?thesis
    by (simp add: hello_fresh_def split_beta Let_def split del: if_split) (intro exI, rule refl)
qed

lemma challenge_response_mgr:
  assumes "challenge_response e c a p s = (r, evs, s')" and "peers (rooms_mgr s) c = Some p"
  shows "rooms_mgr s' = rooms_mgr s \<and> (pending_token p = [] \<or> expected_plaintext p = [])
    \<or> rooms_mgr s' = set_peer c (\<lambda>p. p\<lparr>pending_token := [], expected_plaintext := []\<rparr>) (rooms_mgr s)
    \<or> a = expected_plaintext p \<and> a \<noteq> [] \<and> pending_token p \<noteq> []
      \<and> fst (insertAccessToken (db_run e) (pending_token p) (peer_room p) (database s))
      \<and> rooms_mgr s' = markPeerJoined c (peerIdFromToken (pending_token p))
          (set_peer c (\<lambda>p. p\<lparr>pending_token := [], expected_plaintext := []\<rparr>) (rooms_mgr s))"
  using assms
  by (auto simp: challenge_response_def split_beta Let_def split: if_splits prod.splits dest!: finalize_mgr)

lemma relay_mgr:
  "relay e now c ty pl p s = (r, evs, s') \<Longrightarrow>
   rooms_mgr s' = rooms_mgr s
   \<or> ty = ''msg'' \<and> pl \<noteq> [] \<and> to_int32 (int (length pl)) \<le> wsMaxPayloadBytes (cfg e)
     \<and> rooms_mgr s' = appendCachedMessage (peer_room p) (peer_id p) pl (messageCacheSize (cfg e)) (now 0) (rooms_mgr s)"
  by (auto simp: relay_def Let_def not_less split: if_splits)

section \<open>A small server\<close>

text \<open>One room of two places, a token and a challenge for it, and the three peers of \<open>demo_manager\<close>.\<close>

definition demo_env :: "(db \<times> int) env" where
  "demo_env = \<lparr>cfg = default_config, db_run = mem_run, json_sort = insertion_sort, json_order = (\<lambda>ks. ks),
     conn_order = (\<lambda>cs. cs), index_html = [], version = [], git_short = []\<rparr>"

definition demo_db :: db where
  "demo_db =
     \<lparr>tabs = \<lparr>rooms = [row_of_room (demo_room ''r'')],
        challenges = [\<lparr>c_id = 1, c_room = ''r'', c_plain = ''cA'', c_cipher = ''Yw'', c_nonce = ''bg'', c_used = 0\<rparr>],
        tokens = [\<lparr>t_token = ''t'', t_room = ''r'', t_created = 0\<rparr>], sequence = 1\<rparr>, saved = None\<rparr>"

definition demo_server :: "(db \<times> int) server" where
  "demo_server = \<lparr>database = (demo_db, 7), rooms_mgr = demo_manager, captcha_st = captcha_start, generator = rng_instance 1\<rparr>"

definition object_text :: "(string \<times> string) list \<Rightarrow> string" where
  "object_text kvs = dump (\<lambda>ks. ks) (WObject (map (\<lambda>(k, v). (k, WString v)) kvs))"

definition hello_data :: string where
  "hello_data = object_text [(''type'', ''hello''), (''token'', ''t'')]"

lemma load_hello: "load hello_data = Some (RObject [(''type'', RString ''hello'' False), (''token'', RString ''t'' False)])"
  by code_simp

lemma demo_env_sel [simp]:
  "cfg demo_env = default_config" "db_run demo_env = mem_run" "json_sort demo_env = insertion_sort"
  "json_order demo_env = (\<lambda>ks. ks)" "conn_order demo_env = (\<lambda>cs. cs)"
  by (simp_all add: demo_env_def)

lemma demo_server_sel [simp]:
  "database demo_server = (demo_db, 7)" "rooms_mgr demo_server = demo_manager"
  by (simp_all add: demo_server_def)

lemma demo_peers [simp]:
  "peers demo_manager 3 = Some (demo_peer False ''c'')" "peers demo_manager 2 = Some (demo_peer True ''b'')"
  "peers demo_manager 1 = Some (demo_peer True ''a'')"
  by (simp_all add: demo_manager_def)

lemma demo_peer_sel [simp]:
  "joined (demo_peer j pid) = j" "peer_room (demo_peer j pid) = ''r''" "peer_id (demo_peer j pid) = pid"
  "pending_token (demo_peer j pid) = []" "expected_plaintext (demo_peer j pid) = []"
  by (simp_all add: demo_peer_def)

lemma demo_token: "roomForToken mem_run ''t'' (demo_db, 7) = (Some ''r'', (demo_db, 7))"
  by code_simp

lemma demo_hello:
  "on_message demo_env now 3 hello_data demo_server =
     (Inr (), fst (finalizeJoin demo_env 3 ''t'' False ''r'' demo_server), snd (finalizeJoin demo_env 3 ''t'' False ''r'' demo_server))"
proof -
  have len: "length hello_data = 28" by code_simp
  have db: "demo_server\<lparr>database := (demo_db, 7)\<rparr> = demo_server" by (simp add: demo_server_def)
  show ?thesis
    by (simp add: on_message_def to_int32_def len findByConn_def load_hello lookup_simps on_frame_def js_str_def hello_token_def
        demo_token db default_config_def split_beta)
qed

text \<open>What the sender of a message must show to be let in, in the state the message finds.\<close>

definition admits :: "'d env \<Rightarrow> 'd server \<Rightarrow> conn \<Rightarrow> string \<Rightarrow> bool" where
  "admits e s c data \<longleftrightarrow> (\<exists>p j. peers (rooms_mgr s) c = Some p \<and> load data = Some j
    \<and> (type_of e j = Inr ''hello''
         \<and> (\<exists>token. js_str e j ''token'' [] = Inr token \<and> token \<noteq> []
             \<and> fst (roomForToken (db_run e) token (database s)) = Some (peer_room p))
       \<or> type_of e j = Inr ''challenge_response''
         \<and> js_str e j ''plaintext'' [] = Inr (expected_plaintext p)
         \<and> expected_plaintext p \<noteq> [] \<and> pending_token p \<noteq> []
         \<and> fst (insertAccessToken (db_run e) (pending_token p) (peer_room p) (database s))))"

lemma join_step:
  assumes "on_message e now c data s = (r, evs, s')"
    and "\<not> is_joined (rooms_mgr s) c'" and "is_joined (rooms_mgr s') c'"
  shows "c' = c \<and> admits e s c data"
  using assms(1)
proof (cases rule: on_message_cases)
  case 1
  then show ?thesis using assms(2,3) by simp
next
  case (2 p j ty)
  have sj: "is_joined (set_peer c (\<lambda>p. p\<lparr>pending_token := a, expected_plaintext := b\<rparr>) m) c'' = is_joined m c''" for a b m c''
    by (simp add: is_joined_set_peer)
  show ?thesis
  proof (cases "joined p")
    case True
    then have "is_joined (rooms_mgr s') c' = is_joined (rooms_mgr s) c'"
      using 2(5) by (auto simp: on_frame_def split: if_splits sum.splits dest!: relay_mgr)
    then show ?thesis using assms(2,3) by simp
  next
    case False
    note fr = 2(5) [unfolded on_frame_def]
    consider (hello) token where "ty = ''hello''" "js_str e j ''token'' [] = Inr token" "token \<noteq> []"
        "hello_token e c token (peer_room p) s = (r, evs, s')"
      | (fresh) "hello_fresh e c (peer_room p) s = (r, evs, s')"
      | (answer) a where "ty = ''challenge_response''" "js_str e j ''plaintext'' [] = Inr a"
        "challenge_response e c a p s = (r, evs, s')"
      | (same) "s' = s"
      using fr False by (auto split: if_splits sum.splits)
    then show ?thesis
    proof cases
      case hello
      then show ?thesis
        using hello_token_mgr [OF hello(4)] assms(2,3) 2 by (auto simp: is_joined_mark admits_def)
    next
      case fresh
      then show ?thesis using hello_fresh_mgr [OF fresh] assms(2,3) sj by auto
    next
      case answer
      then show ?thesis
        using challenge_response_mgr [OF answer(3) 2(1)] assms(2,3) 2 by (auto simp: is_joined_mark sj admits_def)
    next
      case same
      then show ?thesis using assms(2,3) by simp
    qed
  qed
qed

text \<open>
  C1: nobody joins uninvited. If a message makes a connection joined that was not, then it is the
  sender's own, and the frame was either a \<open>hello\<close> whose token the database maps to the very room the
  connection was opened for, or the exact answer to the challenge it had pending, for which an access
  token was stored.
\<close>

theorem join_requires_proof:
  assumes "on_message e now c data s = (r, evs, s')"
    and "\<not> is_joined (rooms_mgr s) c'" and "is_joined (rooms_mgr s') c'"
  shows "c' = c \<and> (\<exists>p j. peers (rooms_mgr s) c = Some p \<and> load data = Some j
    \<and> (type_of e j = Inr ''hello''
         \<and> (\<exists>token. js_str e j ''token'' [] = Inr token \<and> token \<noteq> []
             \<and> fst (roomForToken (db_run e) token (database s)) = Some (peer_room p))
       \<or> type_of e j = Inr ''challenge_response''
         \<and> js_str e j ''plaintext'' [] = Inr (expected_plaintext p)
         \<and> expected_plaintext p \<noteq> [] \<and> pending_token p \<noteq> []
         \<and> fst (insertAccessToken (db_run e) (pending_token p) (peer_room p) (database s))))"
  using join_step [OF assms] by (simp only: admits_def)

theorem join_requires_proof_witness:
  "3 = (3 :: nat) \<and> (\<exists>p j. peers (rooms_mgr demo_server) 3 = Some p \<and> load hello_data = Some j
    \<and> (type_of demo_env j = Inr ''hello''
         \<and> (\<exists>token. js_str demo_env j ''token'' [] = Inr token \<and> token \<noteq> []
             \<and> fst (roomForToken (db_run demo_env) token (database demo_server)) = Some (peer_room p))
       \<or> type_of demo_env j = Inr ''challenge_response''
         \<and> js_str demo_env j ''plaintext'' [] = Inr (expected_plaintext p)
         \<and> expected_plaintext p \<noteq> [] \<and> pending_token p \<noteq> []
         \<and> fst (insertAccessToken (db_run demo_env) (pending_token p) (peer_room p) (database demo_server))))"
proof (rule join_requires_proof [OF demo_hello [where now = "\<lambda>_. 0"]])
  show "\<not> is_joined (rooms_mgr demo_server) 3" by (simp add: is_joined_def)
  show "is_joined (rooms_mgr (snd (finalizeJoin demo_env 3 ''t'' False ''r'' demo_server))) 3"
    using finalize_mgr [of demo_env 3 "''t''" False "''r''" demo_server]
    by (simp add: is_joined_mark prod_eq_iff)
qed

section \<open>Strangers\<close>

lemma set_peer_cache [simp]: "msg_cache (set_peer c f m) = msg_cache m"
  by (simp add: set_peer_def split: option.splits)

lemma mark_cache [simp]: "msg_cache (markPeerJoined c pid m) = msg_cache m"
  by (simp add: markPeerJoined_def split: option.splits)

lemma sendErr_target: "ev \<in> set (sendErrAndClose e c err) \<or> ev \<in> set (sendErr e c err) \<Longrightarrow> target ev = c"
  by (auto simp: sendErrAndClose_def sendErr_def target_def)

lemma hello_token_fail:
  "hello_token e c t rid s = (r, evs, s') \<Longrightarrow> peers (rooms_mgr s) c \<noteq> None \<Longrightarrow> \<not> is_joined (rooms_mgr s') c
   \<Longrightarrow> evs = sendErrAndClose e c ''invalid_key'' \<and> rooms_mgr s' = rooms_mgr s"
  by (auto simp: hello_token_def split_beta Let_def is_joined_mark split: if_splits prod.splits dest!: finalize_mgr)

lemma hello_fresh_events:
  "hello_fresh e c rid s = (r, evs, s') \<Longrightarrow> r = Inr () \<and> (\<exists>pr. evs = [Send c (dump (json_order e) (challenge_value pr))])"
  by (auto simp: hello_fresh_def split_beta Let_def split del: if_split)

lemma challenge_response_fail:
  assumes "challenge_response e c a p s = (r, evs, s')" "peers (rooms_mgr s) c \<noteq> None" "\<not> is_joined (rooms_mgr s') c"
  shows "\<exists>err. evs = sendErrAndClose e c err \<and> msg_cache (rooms_mgr s') = msg_cache (rooms_mgr s)"
proof -
  have "peers (set_peer c f m) c \<noteq> None" if "peers m c \<noteq> None" for f m
    using that by (auto simp: set_peer_def)
  then show ?thesis
    using assms by (auto simp: challenge_response_def Let_def is_joined_mark split: if_splits prod.splits dest!: finalize_mgr)
qed

text \<open>
  C2: who has not joined is heard by nobody. While the sender of a message stays outside the room,
  everything the server sends in answer goes to the sender's own connection and nothing is cached.
\<close>

theorem stranger_is_confined:
  assumes "on_message e now c data s = (r, evs, s')" and "\<not> is_joined (rooms_mgr s') c"
  shows "(\<forall>ev \<in> set evs. target ev = c) \<and> msg_cache (rooms_mgr s') = msg_cache (rooms_mgr s)"
  using assms(1)
proof (cases rule: on_message_cases)
  case (2 p j ty)
  have pr: "peers (rooms_mgr s) c \<noteq> None" using 2(1) by simp
  note fr = 2(5) [unfolded on_frame_def]
  show ?thesis
  proof (cases "joined p")
    case True
    then have "is_joined (rooms_mgr s) c" using 2(1) by (simp add: is_joined_def)
    moreover have "is_joined (rooms_mgr s') c = is_joined (rooms_mgr s) c"
      using fr True by (auto split: if_splits sum.splits dest!: relay_mgr)
    ultimately show ?thesis using assms(2) by simp
  next
    case False
    consider token where "hello_token e c token (peer_room p) s = (r, evs, s')"
      | "hello_fresh e c (peer_room p) s = (r, evs, s')"
      | a where "challenge_response e c a p s = (r, evs, s')"
      | "s' = s" "evs = [] \<or> evs = sendErrAndClose e c ''not_joined''"
      using fr False by (auto split: if_splits sum.splits)
    then show ?thesis
    proof cases
      case 1
      then show ?thesis using hello_token_fail [OF 1 pr assms(2)] sendErr_target by auto
    next
      case 2
      then show ?thesis using hello_fresh_events [OF 2] hello_fresh_mgr [OF 2] by (auto simp: target_def)
    next
      case 3
      then show ?thesis using challenge_response_fail [OF 3 pr assms(2)] sendErr_target by auto
    next
      case 4
      then show ?thesis using sendErr_target by auto
    qed
  qed
qed simp

definition msg_data :: string where
  "msg_data = object_text [(''type'', ''msg''), (''payload'', ''aGk'')]"

lemma load_msg: "load msg_data = Some (RObject [(''type'', RString ''msg'' False), (''payload'', RString ''aGk'' False)])"
  by code_simp

lemma demo_msg:
  "on_message demo_env now 3 msg_data demo_server = (Inr (), sendErrAndClose demo_env 3 ''not_joined'', demo_server)"
proof -
  have len: "length msg_data = 30" by code_simp
  show ?thesis
    by (simp add: on_message_def to_int32_def len findByConn_def load_msg lookup_simps on_frame_def default_config_def)
qed

theorem stranger_is_confined_witness:
  "\<not> is_joined (rooms_mgr demo_server) 3
   \<and> list_all (\<lambda>ev. target ev = 3) (fst (snd (on_message demo_env (\<lambda>_. 0) 3 msg_data demo_server)))
   \<and> msg_cache (rooms_mgr (snd (snd (on_message demo_env (\<lambda>_. 0) 3 msg_data demo_server)))) = msg_cache (rooms_mgr demo_server)"
proof -
  have out: "\<not> is_joined (rooms_mgr demo_server) 3" by (simp add: is_joined_def)
  show ?thesis
    using stranger_is_confined [OF demo_msg [where now = "\<lambda>_. 0"] out] out
    by (simp only: demo_msg fst_conv snd_conv list_all_iff simp_thms)
qed

section \<open>Challenges\<close>

lemma set_peer_self: "peers m c = Some p \<Longrightarrow> peers (set_peer c f m) c = Some (f p)"
  by (simp add: set_peer_def)

lemma mark_self: "peers m c = Some p \<Longrightarrow> peers (markPeerJoined c pid m) c = Some (p\<lparr>peer_id := pid, joined := True\<rparr>)"
  by (simp add: markPeerJoined_def)

text \<open>
  C21: one guess per challenge. When a peer that has not joined answers, its pending token and plaintext
  are gone afterwards, right or wrong; and unless the answer was the expected plaintext the only thing
  sent is an error to that peer, whose connection is closed.
\<close>

theorem one_guess:
  assumes "challenge_response e c answer p s = (r, evs, s')" and "peers (rooms_mgr s) c = Some p" and "\<not> joined p"
  shows "(\<exists>p'. peers (rooms_mgr s') c = Some p' \<and> (pending_token p' = [] \<or> expected_plaintext p' = []))
    \<and> (answer \<noteq> expected_plaintext p \<longrightarrow> \<not> is_joined (rooms_mgr s') c
        \<and> (\<exists>err \<in> {''no_challenge'', ''invalid_key''}. evs = [Send c (error_frame e err), Close c err]))"
proof -
  have "\<exists>p'. peers (rooms_mgr s') c = Some p' \<and> (pending_token p' = [] \<or> expected_plaintext p' = [])"
    using challenge_response_mgr [OF assms(1,2)] assms(2)
    by (auto simp: mark_self [OF set_peer_self [OF assms(2)]] set_peer_self [OF assms(2)])
  moreover have "\<not> is_joined (rooms_mgr s') c" if "answer \<noteq> expected_plaintext p"
    using challenge_response_mgr [OF assms(1,2)] assms(2,3) that
    by (auto simp: is_joined_set_peer) (simp_all add: is_joined_def)
  moreover have "\<exists>err \<in> {''no_challenge'', ''invalid_key''}. evs = [Send c (error_frame e err), Close c err]"
    if "answer \<noteq> expected_plaintext p"
    using assms(1) that by (auto simp: challenge_response_def sendErrAndClose_def sendErr_def Let_def split: if_splits)
  ultimately show ?thesis by blast
qed

theorem one_guess_witness:
  "fst (snd (challenge_response demo_env 3 ''x'' (demo_peer False ''c'') demo_server))
    = [Send 3 (error_frame demo_env ''no_challenge''), Close 3 ''no_challenge'']"
proof -
  have run: "challenge_response demo_env 3 ''x'' (demo_peer False ''c'') demo_server
      = (Inr (), [Send 3 (error_frame demo_env ''no_challenge''), Close 3 ''no_challenge''], demo_server)"
    by (simp add: challenge_response_def sendErrAndClose_def sendErr_def)
  show ?thesis using one_guess [OF run] by (simp add: run)
qed

lemma decoy_shape:
  "length (plaintext_b64 (fst (decoy_pair g))) = 44 \<and> length (ciphertext_b64 (fst (decoy_pair g))) = 64
   \<and> length (nonce_b64 (fst (decoy_pair g))) = 32"
  by (simp add: decoy_pair_def split_beta Let_def length_base64Encode length_randomBytes randomBytesVec_def)

text \<open>
  C22: a first \<open>hello\<close> tells a stranger nothing. Whether or not the room exists, is full or has challenges
  left, the answer is one challenge frame and a fresh pending token; a stored challenge is spent only
  for a room that exists and has a place, and otherwise the challenge is random bytes of fixed length.
\<close>

theorem hello_uniform:
  assumes "hello_fresh e c rid s = (r, evs, s')" and "peers (rooms_mgr s) c = Some p" and "\<not> joined p"
  shows "r = Inr () \<and> (\<exists>pair p'. evs = [Send c (dump (json_order e) (challenge_value pair))]
    \<and> peers (rooms_mgr s') c = Some p' \<and> \<not> joined p' \<and> expected_plaintext p' = plaintext_b64 pair
    \<and> length (pending_token p') = 64
    \<and> (let (row, d) = findRoom (db_run e) rid (database s);
           admit = (case row of None \<Rightarrow> False | Some q \<Rightarrow> liveCount (rooms_mgr s) rid < max_participants q)
       in database s' = (if admit then snd (consumeChallenge (db_run e) rid d) else d)
        \<and> (if admit \<and> fst (consumeChallenge (db_run e) rid d) \<noteq> None
           then fst (consumeChallenge (db_run e) rid d) = Some pair
           else length (plaintext_b64 pair) = 44 \<and> length (ciphertext_b64 pair) = 64 \<and> length (nonce_b64 pair) = 32)))"
proof -
  obtain row d where f: "findRoom (db_run e) rid (database s) = (row, d)" by fastforce
  define admit where "admit = (case row of None \<Rightarrow> False | Some q \<Rightarrow> liveCount (rooms_mgr s) rid < max_participants q)"
  define q where "q = (if admit then fst (consumeChallenge (db_run e) rid d) else None)"
  define pair where "pair = (case q of Some x \<Rightarrow> x | None \<Rightarrow> fst (decoy_pair (generator s)))"
  define g where "g = (case q of Some x \<Rightarrow> generator s | None \<Rightarrow> snd (decoy_pair (generator s)))"
  have cond: "(row \<noteq> None \<and> \<not> (case row of None \<Rightarrow> False | Some x \<Rightarrow> max_participants x \<le> liveCount (rooms_mgr s) rid)) = admit"
    by (auto simp: admit_def split: option.splits)
  have "r = Inr () \<and> evs = [Send c (dump (json_order e) (challenge_value pair))]
    \<and> database s' = (if admit then snd (consumeChallenge (db_run e) rid d) else d)
    \<and> rooms_mgr s' = set_peer c (\<lambda>p. p\<lparr>pending_token := fst (randomTokenHex g), expected_plaintext := plaintext_b64 pair\<rparr>) (rooms_mgr s)"
    using assms(1) unfolding hello_fresh_def f Let_def split_beta fst_conv snd_conv cond
    by (cases admit; cases q) (auto simp: q_def pair_def g_def)
  moreover have "length (fst (randomTokenHex g)) = 64" for g
    by (simp add: randomTokenHex_def split_beta Let_def length_hex_string length_randomBytes)
  moreover have "q = None \<Longrightarrow> length (plaintext_b64 pair) = 44 \<and> length (ciphertext_b64 pair) = 64 \<and> length (nonce_b64 pair) = 32"
    using decoy_shape by (simp add: pair_def)
  ultimately show ?thesis
    using assms(2,3) by (auto simp: f set_peer_self q_def pair_def simp flip: admit_def split: if_splits option.splits)
qed

theorem hello_uniform_witness:
  "\<exists>pair. fst (snd (hello_fresh demo_env 3 ''q'' demo_server)) = [Send 3 (dump (\<lambda>ks. ks) (challenge_value pair))]
     \<and> length (ciphertext_b64 pair) = 64"
proof -
  have none: "findRoom mem_run ''q'' (demo_db, 7 :: int) = (None, (demo_db, 7))" by code_simp
  obtain r evs s' where run: "hello_fresh demo_env 3 ''q'' demo_server = (r, evs, s')" by (metis prod_cases3)
  show ?thesis using hello_uniform [OF run] by (simp add: run none) blast
qed


section \<open>Frames that throw\<close>

lemma well_read_member: "well_read (RObject kvs) \<Longrightarrow> (k, v) \<in> set kvs \<Longrightarrow> well_read v"
  by auto

lemma js_str_total:
  assumes "member_sort (json_sort e)" and "well_read (RObject kvs)"
  shows "\<exists>t. js_str e (RObject kvs) k def = Inr t"
proof (cases "k \<in> fst ` set kvs")
  case True
  then obtain v where "at_key (json_sort e) (RObject kvs) k = Inr v" "(k, v) \<in> set kvs"
    using member_sort.at_key_mem [OF assms(1)] by blast
  then show ?thesis
    using True member_sort.has_iff [OF assms(1), of kvs k] well_read_s_of [OF well_read_member [OF assms(2)]]
    by (auto simp: js_str_def)
next
  case False
  then show ?thesis using member_sort.has_iff [OF assms(1), of kvs k] by (simp add: js_str_def)
qed

lemma handlers_total:
  "fst (hello_token e c t rid s) = Inr ()" "fst (hello_fresh e c rid s) = Inr ()"
  "fst (challenge_response e c a p s) = Inr ()" "fst (relay e now c ty pl p s) = Inr ()"
  by (simp_all add: hello_token_def hello_fresh_def challenge_response_def relay_def Let_def split_beta)

lemma on_frame_total:
  assumes "member_sort (json_sort e)" and "well_read (RObject kvs)"
  shows "fst (on_frame e now c (RObject kvs) ty p s) = Inr ()"
proof -
  obtain t a pl where "js_str e (RObject kvs) ''token'' [] = Inr t" "js_str e (RObject kvs) ''plaintext'' [] = Inr a"
    "js_str e (RObject kvs) ''payload'' [] = Inr pl"
    using js_str_total [OF assms] by metis
  then show ?thesis by (simp add: on_frame_def handlers_total)
qed



end
