(* ===== verification/Ws_Handshake.thy ===== *)
theory Ws_Handshake
  imports Crow_Util Sha1 Ws_Stream Web_Socket
begin

text \<open>
  src/src/crowlib/crow/websocket.h: the constructor of \<open>Connection\<close>, which answers an upgrade request.
  The headers are a function from names to values, empty where a header is missing.
\<close>

definition ws_guid :: string where
  "ws_guid = ''258EAFA5-E914-47DA-95CA-C5AB0DC85B11''"

text \<open>The block of the hash is not initialised: it holds \<open>junk\<close>.\<close>

definition accept_key :: "byte list \<Rightarrow> string \<Rightarrow> string" where
  "accept_key junk ws_key =
     base64encode b64_key (getDigestBytes (processBytes (bytes_of_string (ws_key @ ws_guid)) (sha1_init junk)))"

definition choose_subprotocol :: "(string \<Rightarrow> string) \<Rightarrow> string list \<Rightarrow> bool \<Rightarrow> string" where
  "choose_subprotocol get_header_value subprotocols mirror_protocols =
     (let requested_header = get_header_value ''Sec-WebSocket-Protocol'';
          chosen =
            (if subprotocols \<noteq> [] \<or> requested_header \<noteq> []
             then (let requested = (case split_text '', '' requested_header of None \<Rightarrow> [] | Some r \<Rightarrow> r)
                   in case find_first_of subprotocols requested of [] \<Rightarrow> [] | s # _ \<Rightarrow> s)
             else [])
      in if mirror_protocols \<and> requested_header \<noteq> [] then requested_header else chosen)"

text \<open>
  The constructor: \<open>accept_handler\<close> gives the user data or refuses; \<open>ks\<close> are the calls of the open
  handler, \<open>junk\<close>, \<open>b\<close>, \<open>k\<close> and \<open>w\<close> what is not initialised.
\<close>

definition connection ::
    "(string \<Rightarrow> string) \<Rightarrow> u64 \<Rightarrow> string list \<Rightarrow> bool \<Rightarrow> string option \<Rightarrow> ws_call list \<Rightarrow> byte list
     \<Rightarrow> bool \<Rightarrow> byte list \<Rightarrow> u16 \<Rightarrow> ws_effect list \<times> (string \<times> ws_conn) option" where
  "connection get_header_value max_payload subprotocols mirror_protocols userdata ks junk b k w =
     (let refused = ([Close_Socket, Remove_Websocket, Delete_This], None)
      in if \<not> string_equals (get_header_value ''upgrade'') ''websocket'' False then refused
         else let protocol = bytes_of_string (choose_subprotocol get_header_value subprotocols mirror_protocols)
           in case userdata of
                None \<Rightarrow> refused
              | Some ud \<Rightarrow>
                  let (evs, c) = start ks (accept_key junk (get_header_value ''Sec-WebSocket-Key''))
                                   (new_connection max_payload protocol b k w)
                  in (evs, Some (ud, c)))"

section \<open>The answer\<close>

lemma accept_key_sha1:
  "length junk = 64 \<Longrightarrow> length ws_key < 2 ^ 28 \<Longrightarrow>
   accept_key junk ws_key = base64Encode (fips_sha1 (bytes_of_string (ws_key @ ws_guid)))"
proof -
  assume a: "length junk = 64" "length ws_key < 2 ^ 28"
  have "length (bytes_of_string (ws_key @ ws_guid)) < 2 ^ 29" using a(2) by (simp add: ws_guid_def)
  then show ?thesis by (simp only: accept_key_def base64encode_eq sha1_correct [OF a(1)])
qed

lemma start_effects:
  "\<exists>evs'. fst (start ks hello (new_connection m [] b k w)) =
     Async_Write (map bytes_of_string [upgrade_header, hello, crlf, crlf]) # Open_Handler # evs'"
  by (simp add: start_def Let_def split_beta new_connection_def do_write_def then_do_def)

lemma no_subprotocol: "choose_subprotocol h [] False = []"
  by (simp add: choose_subprotocol_def find_first_of_def Let_def)

text \<open>
  C35: the upgrade. A request to \<open>/ws\<close> is answered only when its \<open>Upgrade\<close> header is \<open>websocket\<close>, in
  any case of letters, and it names a room; otherwise the socket is closed and nothing is written. The
  answer carries the base64 of the SHA-1 of the client's key and the fixed GUID, the user data is the
  room id, and the connection is ready for the first frame.
\<close>

theorem upgrade_answer:
  assumes "length junk = 64" and "length (h ''Sec-WebSocket-Key'') < 2 ^ 28"
    and "connection h m [] False (on_accept room_param) ks junk b k w = (evs, res)"
  shows "if map to_upper (h ''upgrade'') = ''WEBSOCKET'' \<and> (\<exists>s. room_param = Some s \<and> cstr s \<noteq> [])
    then \<exists>c evs'. res = Some (cstr (the room_param), c) \<and> at_rest c \<and> max_payload_bytes c = m
       \<and> evs = Async_Write (map bytes_of_string [upgrade_header,
             base64Encode (fips_sha1 (bytes_of_string (h ''Sec-WebSocket-Key'' @ ws_guid))), crlf, crlf]) # Open_Handler # evs'
    else res = None \<and> evs = [Close_Socket, Remove_Websocket, Delete_This]"
proof -
  have up: "string_equals (h ''upgrade'') ''websocket'' False \<longleftrightarrow> map to_upper (h ''upgrade'') = ''WEBSOCKET''"
  proof -
    have "map to_upper ''websocket'' = ''WEBSOCKET''" by code_simp
    then show ?thesis by (simp only: string_equals_iff if_False)
  qed
  have acc: "on_accept room_param = (if \<exists>s. room_param = Some s \<and> cstr s \<noteq> [] then Some (cstr (the room_param)) else None)"
    by (auto simp: on_accept_def Let_def split: option.splits)
  define hello where "hello = base64Encode (fips_sha1 (bytes_of_string (h ''Sec-WebSocket-Key'' @ ws_guid)))"
  have hk: "accept_key junk (h ''Sec-WebSocket-Key'') = hello"
    unfolding hello_def by (rule accept_key_sha1 [OF assms(1,2)])
  obtain evs1 c where st: "start ks hello (new_connection m [] b k w) = (evs1, c)" by fastforce
  moreover obtain evs' where "evs1 = Async_Write (map bytes_of_string [upgrade_header, hello, crlf, crlf]) # Open_Handler # evs'"
    using start_effects [of ks hello m b k w] st by auto
  ultimately have run: "(evs, res) = (if map to_upper (h ''upgrade'') = ''WEBSOCKET'' \<and> (\<exists>s. room_param = Some s \<and> cstr s \<noteq> [])
      then (Async_Write (map bytes_of_string [upgrade_header, hello, crlf, crlf]) # Open_Handler # evs',
            Some (cstr (the room_param), c))
      else ([Close_Socket, Remove_Websocket, Delete_This], None))"
    using assms(3) unfolding connection_def Let_def up acc hk no_subprotocol bytes_of_string_def [of "[]"] list.map(1)
    by (simp split: if_splits)
  show ?thesis using run start_at_rest [OF st] unfolding hello_def by (simp split: if_splits)
qed

definition demo_request :: "string \<Rightarrow> string" where
  "demo_request name =
     (if name = ''upgrade'' then ''WebSocket'' else if name = ''Sec-WebSocket-Key'' then ''dGhlIHNhbXBsZSBub25jZQ=='' else [])"

theorem upgrade_answer_witness:
  "\<exists>c evs'. connection demo_request 8192 [] False (on_accept (Some ''r'')) [] (replicate 64 0) False [] 0 =
     (Async_Write (map bytes_of_string [upgrade_header,
        base64Encode (fips_sha1 (bytes_of_string (''dGhlIHNhbXBsZSBub25jZQ=='' @ ws_guid))), crlf, crlf]) # Open_Handler # evs',
      Some (''r'', c)) \<and> at_rest c"
proof -
  have up: "map to_upper (demo_request ''upgrade'') = ''WEBSOCKET''" by code_simp
  have key: "demo_request ''Sec-WebSocket-Key'' = ''dGhlIHNhbXBsZSBub25jZQ==''" by (simp add: demo_request_def)
  have room: "cstr ''r'' = ''r''" by code_simp
  obtain evs res where run: "connection demo_request 8192 [] False (on_accept (Some ''r'')) [] (replicate 64 0) False [] 0 = (evs, res)"
    by fastforce
  show ?thesis
    using upgrade_answer [OF _ _ run] by (auto simp: up key room run)
qed

end
