(* ===== verification/Query_String.thy ===== *)
theory Query_String
  imports Clib "HOL-Library.Monad_Syntax"
begin

text \<open>
  src/src/crowlib/crow/query_string.h: the parameters of a request's URL. The URL is copied into a
  buffer, the pairs are positions in it, and the values are decoded where they stand. A buffer is the
  list of its characters; the terminator comes after them, and a read beyond it is \<open>None\<close>.
\<close>

section \<open>Reading the buffer\<close>

definition char_at :: "string \<Rightarrow> nat \<Rightarrow> char option" where
  "char_at buf i = (if i < length buf then Some (buf ! i) else if i = length buf then Some NUL else None)"

text \<open>The reads that stop at a terminator stay inside.\<close>

definition at :: "string \<Rightarrow> nat \<Rightarrow> char" where
  "at buf i = (if i < length buf then buf ! i else NUL)"

definition strcspn :: "string \<Rightarrow> nat \<Rightarrow> string \<Rightarrow> nat" where
  "strcspn buf i reject = length (takeWhile (\<lambda>c. c \<noteq> NUL \<and> c \<notin> set reject) (drop i buf))"

definition cstr_at :: "string \<Rightarrow> nat \<Rightarrow> string" where
  "cstr_at buf i = cstr (drop i buf)"

definition QS_ISHEX :: "char \<Rightarrow> bool" where
  "QS_ISHEX x \<longleftrightarrow> char_between (CHR ''0'') (CHR ''9'') x \<or> char_between (CHR ''A'') (CHR ''F'') x \<or> char_between (CHR ''a'') (CHR ''f'') x"

definition QS_HEX2DEC :: "char \<Rightarrow> nat" where
  "QS_HEX2DEC x =
     (if char_between (CHR ''0'') (CHR ''9'') x then of_char x - 48
      else if char_between (CHR ''A'') (CHR ''F'') x then of_char x - 55
      else if char_between (CHR ''a'') (CHR ''f'') x then of_char x - 87
      else 0)"

definition QS_ISQSCHR :: "char \<Rightarrow> bool" where
  "QS_ISQSCHR x \<longleftrightarrow> \<not> (x = CHR ''='' \<or> x = CHR 0x23 \<or> x = CHR 0x26 \<or> x = NUL)"

definition hex_char :: "char \<Rightarrow> char \<Rightarrow> char" where
  "hex_char u l = char_of (QS_HEX2DEC u * 16 + QS_HEX2DEC l)"

section \<open>Comparing\<close>

text \<open>One character of either side, \<open>i\<close> being the position after it; an escape takes two more.\<close>

definition qs_char :: "string \<Rightarrow> nat \<Rightarrow> char \<Rightarrow> (char \<times> nat) option" where
  "qs_char buf i u =
     (let u = (if \<not> QS_ISQSCHR u then NUL else u);
          u = (if u = CHR ''+'' then CHR '' '' else u)
      in if u = CHR 0x25
         then do { unyb \<leftarrow> char_at buf i;
                   lnyb \<leftarrow> char_at buf (i + 1);
                   Some (if QS_ISHEX unyb \<and> QS_ISHEX lnyb then hex_char unyb lnyb else NUL, i + 2) }
         else Some (u, i))"

fun qs_strncmp :: "string \<Rightarrow> nat \<Rightarrow> string \<Rightarrow> nat \<Rightarrow> nat \<Rightarrow> int option" where
  "qs_strncmp s i qs k 0 = do { c \<leftarrow> char_at qs k; Some (if QS_ISQSCHR c then -1 else 0) }"
| "qs_strncmp s i qs k (Suc n) =
     do { u1 \<leftarrow> char_at s i;
          u2 \<leftarrow> char_at qs k;
          (u1, i) \<leftarrow> qs_char s (i + 1) u1;
          (u2, k) \<leftarrow> qs_char qs (k + 1) u2;
          if u1 \<noteq> u2 then Some (int (of_char u1) - int (of_char u2))
          else if u1 = NUL then Some 0
          else qs_strncmp s i qs k n }"

section \<open>Parsing\<close>

text \<open>\<open>qs_decode\<close> at position \<open>p\<close>: it reads at \<open>p + j\<close> and writes at \<open>p + i\<close>.\<close>

function qs_decode_loop :: "nat \<Rightarrow> nat \<Rightarrow> nat \<Rightarrow> string \<Rightarrow> string" where
  "qs_decode_loop p i j buf =
     (let c = at buf (p + j)
      in if \<not> QS_ISQSCHR c then buf[p + i := NUL]
         else if c = CHR ''+'' then qs_decode_loop p (i + 1) (j + 1) (buf[p + i := CHR '' ''])
         else if c = CHR 0x25
         then (if \<not> QS_ISHEX (at buf (p + j + 1)) \<or> \<not> QS_ISHEX (at buf (p + j + 2)) then buf[p + i := NUL]
               else qs_decode_loop p (i + 1) (j + 3)
                      (buf[p + i := hex_char (at buf (p + j + 1)) (at buf (p + j + 2))]))
         else qs_decode_loop p (i + 1) (j + 1) (buf[p + i := c]))"
  by auto
termination qs_decode_loop
  by (relation "measure (\<lambda>(p, i, j, buf). length buf - (p + j))")
    (auto simp: at_def QS_ISQSCHR_def split: if_splits)

declare qs_decode_loop.simps [simp del]

definition qs_decode :: "string \<Rightarrow> nat \<Rightarrow> string" where
  "qs_decode buf p = qs_decode_loop p 0 0 buf"

text \<open>The pairs, at most \<open>n\<close> of them.\<close>

fun find_pairs :: "nat \<Rightarrow> nat \<Rightarrow> string \<Rightarrow> nat list" where
  "find_pairs 0 p buf = []"
| "find_pairs (Suc n) p buf =
     (let j = strcspn buf p ''&''
      in if at buf (p + j) = NUL then [p] else p # find_pairs n (p + j + 1) buf)"

definition decode_pair :: "nat \<Rightarrow> string \<Rightarrow> string" where
  "decode_pair kv buf =
     (let s = kv + strcspn buf kv [CHR ''='', CHR 0x26, CHR 0x23]
      in if at buf s = CHR 0x26 \<or> at buf s = NUL then buf[s := NUL] else qs_decode buf (s + 1))"

definition qs_parse :: "string \<Rightarrow> nat \<Rightarrow> bool \<Rightarrow> string \<times> nat list" where
  "qs_parse qs qs_kv_size parse_url =
     (let s = (if parse_url then strcspn qs 0 [CHR 0x3F, CHR 0x23] else 0)
      in if parse_url \<and> at qs s = NUL then (qs, [])
         else let kvs = find_pairs qs_kv_size (if parse_url then s + 1 else s) qs
           in (fold decode_pair kvs qs, kvs))"

section \<open>Looking up\<close>

fun qs_k2v :: "string \<Rightarrow> string \<Rightarrow> nat list \<Rightarrow> nat \<Rightarrow> nat option option" where
  "qs_k2v key buf [] m = Some None"
| "qs_k2v key buf (kv # kvs) m =
     do { r \<leftarrow> qs_strncmp key 0 buf kv (length key);
          if r = 0
          then let skip = strcspn buf kv ''='';
                   skip = (if at buf (kv + skip) = CHR ''='' then skip + 1 else skip)
               in if m = 0 then Some (Some (kv + skip)) else qs_k2v key buf kvs (m - 1)
          else qs_k2v key buf kvs m }"

text \<open>\<open>strncmp\<close> of the C library says whether the text at \<open>kv\<close> starts with the name.\<close>

fun qs_dict_name2kv :: "string \<Rightarrow> string \<Rightarrow> nat list \<Rightarrow> int \<Rightarrow> (string \<times> string) option" where
  "qs_dict_name2kv name buf [] m = None"
| "qs_dict_name2kv name buf (kv # kvs) m =
     (if take (length name) (cstr_at buf kv) = name
      then let skip_to_eq = strcspn buf kv ''='';
               skip_to_eq = (if at buf (kv + skip_to_eq) = CHR ''='' then skip_to_eq + 1 else skip_to_eq);
               skip_to_brace_open = strcspn buf kv ''['';
               skip_to_brace_open = (if at buf (kv + skip_to_brace_open) = CHR ''['' then skip_to_brace_open + 1 else skip_to_brace_open);
               skip_to_brace_close = strcspn buf kv '']''
           in if skip_to_brace_open \<le> skip_to_brace_close \<and> 0 < skip_to_brace_open \<and> 0 < skip_to_brace_close \<and> m = 0
              then Some (take (skip_to_brace_close - skip_to_brace_open) (drop (kv + skip_to_brace_open) buf), cstr_at buf (kv + skip_to_eq))
              else qs_dict_name2kv name buf kvs (m - 1)
      else qs_dict_name2kv name buf kvs m)"

section \<open>The class\<close>

record query_string =
  qs_url :: string
  key_value_pairs :: "nat list"

definition MAX_KEY_VALUE_PAIRS_COUNT :: nat where
  "MAX_KEY_VALUE_PAIRS_COUNT = 256"

definition query_string_of :: "string \<Rightarrow> bool \<Rightarrow> query_string" where
  "query_string_of params url =
     (if params = [] then \<lparr>qs_url = [], key_value_pairs = []\<rparr>
      else let (buf, kvs) = qs_parse params MAX_KEY_VALUE_PAIRS_COUNT url in \<lparr>qs_url = buf, key_value_pairs = kvs\<rparr>)"

definition clear :: "query_string \<Rightarrow> query_string" where
  "clear q = q\<lparr>key_value_pairs := [], qs_url := []\<rparr>"

text \<open>A lookup gives a position in the buffer, or no position; \<open>None\<close> is a read outside it.\<close>

definition get :: "query_string \<Rightarrow> string \<Rightarrow> nat option option" where
  "get q name = qs_k2v (cstr name) (qs_url q) (key_value_pairs q) 0"

fun erase_first :: "(nat \<Rightarrow> bool) \<Rightarrow> nat list \<Rightarrow> nat list" where
  "erase_first f [] = []"
| "erase_first f (kv # kvs) = (if f kv then kvs else kv # erase_first f kvs)"

definition pop :: "query_string \<Rightarrow> string \<Rightarrow> (nat option \<times> query_string) option" where
  "pop q name =
     do { ret \<leftarrow> get q name;
          Some (ret,
            if ret \<noteq> None
            then q\<lparr>key_value_pairs := erase_first (\<lambda>kv. take (length name + 1) (cstr_at (qs_url q) kv) = name @ ''='') (key_value_pairs q)\<rparr>
            else q) }"

text \<open>The map of a dictionary is an association list in the order of insertion. Every occurrence: the \<open>n\<close>-th lookup, until one fails; there are no more than pairs.\<close>

fun nth_values :: "string \<Rightarrow> query_string \<Rightarrow> nat \<Rightarrow> nat \<Rightarrow> nat list option" where
  "nth_values nm q 0 cnt = Some []"
| "nth_values nm q (Suc fuel) cnt =
     do { element \<leftarrow> qs_k2v nm (qs_url q) (key_value_pairs q) cnt;
          case element of
            None \<Rightarrow> Some []
          | Some v \<Rightarrow> do { vs \<leftarrow> nth_values nm q fuel (cnt + 1); Some (v # vs) } }"

definition get_list :: "query_string \<Rightarrow> string \<Rightarrow> bool \<Rightarrow> nat list option" where
  "get_list q name use_brackets =
     nth_values (cstr (name @ (if use_brackets then ''[]'' else []))) q (Suc (length (key_value_pairs q))) 0"

definition pop_list :: "query_string \<Rightarrow> string \<Rightarrow> bool \<Rightarrow> (nat list \<times> query_string) option" where
  "pop_list q name use_brackets =
     do { ret \<leftarrow> get_list q name use_brackets;
          let suffix = (if use_brackets then ''[]='' else ''='');
              listed = (\<lambda>kv. take (length (name @ suffix)) (cstr_at (qs_url q) kv) = name @ suffix)
          in Some (ret, if ret \<noteq> [] then q\<lparr>key_value_pairs := filter (\<lambda>kv. \<not> listed kv) (key_value_pairs q)\<rparr> else q) }"

fun nth_entries :: "string \<Rightarrow> query_string \<Rightarrow> nat \<Rightarrow> nat \<Rightarrow> (string \<times> string) list \<Rightarrow> (string \<times> string) list" where
  "nth_entries name q 0 cnt ret = ret"
| "nth_entries name q (Suc fuel) cnt ret =
     (case qs_dict_name2kv name (qs_url q) (key_value_pairs q) (int cnt) of
        None \<Rightarrow> ret
      | Some (k, v) \<Rightarrow> nth_entries name q fuel (cnt + 1) (if map_of ret k = None then ret @ [(k, v)] else ret))"

definition get_dict :: "query_string \<Rightarrow> string \<Rightarrow> (string \<times> string) list" where
  "get_dict q name = nth_entries (cstr name) q (Suc (length (key_value_pairs q))) 0 []"

definition pop_dict :: "query_string \<Rightarrow> string \<Rightarrow> (string \<times> string) list \<times> query_string" where
  "pop_dict q name =
     (let ret = get_dict q name
      in (ret, if ret \<noteq> []
               then q\<lparr>key_value_pairs := filter (\<lambda>kv. take (length name + 1) (cstr_at (qs_url q) kv) \<noteq> name @ ''['') (key_value_pairs q)\<rparr>
               else q))"

definition keys :: "query_string \<Rightarrow> string list" where
  "keys q = map (\<lambda>kv. takeWhile (\<lambda>c. c \<noteq> CHR ''='') (cstr_at (qs_url q) kv)) (key_value_pairs q)"

section \<open>Encoded text\<close>

text \<open>A character that stands for itself, and the ways to write a text in a URL.\<close>

definition plain :: "char \<Rightarrow> bool" where
  "plain c \<longleftrightarrow> QS_ISQSCHR c \<and> c \<noteq> CHR ''+'' \<and> c \<noteq> CHR 0x25"

inductive encodes :: "string \<Rightarrow> string \<Rightarrow> bool" where
  encodes_nil: "encodes [] []"
| encodes_plain: "plain c \<Longrightarrow> encodes t s \<Longrightarrow> encodes (c # t) (c # s)"
| encodes_plus: "encodes t s \<Longrightarrow> encodes (CHR ''+'' # t) (CHR '' '' # s)"
| encodes_hex: "QS_ISHEX u \<Longrightarrow> QS_ISHEX l \<Longrightarrow> hex_char u l \<noteq> NUL \<Longrightarrow> encodes t s \<Longrightarrow>
    encodes (CHR 0x25 # u # l # t) (hex_char u l # s)"

lemma special_chars [simp]:
  "QS_ISQSCHR (CHR ''+'')" "QS_ISQSCHR (CHR 0x25)" "\<not> QS_ISQSCHR NUL" "\<not> QS_ISQSCHR (CHR ''='')" "\<not> QS_ISQSCHR (CHR 0x26)"
  "CHR '' '' \<noteq> NUL" "NUL \<noteq> CHR '' ''" "NUL \<noteq> CHR 0x25" "NUL \<noteq> CHR ''+''" "CHR 0x25 \<noteq> NUL" "CHR ''+'' \<noteq> NUL" "CHR ''='' \<noteq> NUL" "NUL \<noteq> CHR ''=''" "CHR 0x26 \<noteq> NUL" "NUL \<noteq> CHR 0x26"
  by (simp_all add: QS_ISQSCHR_def NUL_def)

lemma hex_is_qschr: "QS_ISHEX u \<Longrightarrow> QS_ISQSCHR u"
  by (auto simp: QS_ISHEX_def QS_ISQSCHR_def char_between_def NUL_def)

lemma encodes_chars: "encodes t s \<Longrightarrow> (\<forall>c \<in> set t. QS_ISQSCHR c) \<and> NUL \<notin> set s \<and> length s \<le> length t"
  by (induction rule: encodes.induct) (auto simp: plain_def hex_is_qschr)

lemma drop_eq_Cons: "drop p xs = y # ys \<Longrightarrow> p < length xs \<and> xs ! p = y \<and> drop (Suc p) xs = ys"
  by (cases "p < length xs") (auto simp: Cons_nth_drop_Suc [symmetric])

lemma drop_char_at: "drop p buf = c # r \<Longrightarrow> char_at buf p = Some c \<and> at buf p = c \<and> drop (Suc p) buf = r"
  using drop_eq_Cons [of p buf c r] by (auto simp: char_at_def at_def)

lemma strncmp_encoded:
  assumes "encodes kt k" and "drop p buf = kt @ CHR ''='' # rest" and "list_all plain s"
  shows "\<exists>r. qs_strncmp (pre @ s) (length pre) buf p (length s) = Some r \<and> (r = 0 \<longleftrightarrow> s = k)"
  using assms
proof (induction s arbitrary: kt k p pre)
  case Nil
  show ?case
  proof (cases kt)
    case Nil
    then show ?thesis using Nil.prems drop_char_at [of p buf] by (auto elim: encodes.cases)
  next
    case (Cons c t)
    then have "QS_ISQSCHR c" "k \<noteq> []" using Nil.prems(1) encodes_chars by (auto elim: encodes.cases)
    then show ?thesis using Cons Nil.prems(2) drop_char_at [of p buf c] by auto
  qed
next
  case (Cons c s)
  have c: "plain c" "QS_ISQSCHR c" "c \<noteq> NUL" using Cons.prems(3) by (auto simp: plain_def)
  have s: "char_at (pre @ c # s) (length pre) = Some c" by (simp add: char_at_def)
  have u1: "qs_char (pre @ c # s) (length pre + 1) c = Some (c, length pre + 1)" using c by (simp add: qs_char_def plain_def)
  have neq: "c \<noteq> d \<Longrightarrow> int (of_char c) - int (of_char d) \<noteq> 0" for d by simp
  have step: "?case" if "char_at buf p = Some x" "qs_char buf (p + 1) x = Some (d, q)" "k = d # k'" "encodes kt' k'"
      "drop q buf = kt' @ CHR ''='' # rest" for x d q k' kt'
    using Cons.IH [OF that(4,5), of "pre @ [c]"] Cons.prems(3) that(1-3) s u1 c neq [of d]
    by (auto simp del: qs_strncmp.simps(1))
  show ?case
    using Cons.prems(1)
  proof (cases rule: encodes.cases)
    case encodes_nil
    then have "char_at buf p = Some (CHR ''='')" using Cons.prems(2) drop_char_at by simp
    moreover have "qs_char buf (p + 1) (CHR ''='') = Some (NUL, p + 1)" by (simp add: qs_char_def)
    ultimately show ?thesis using encodes_nil s u1 c neq [of NUL] by simp
  next
    case (encodes_plain d t k')
    then have x: "char_at buf p = Some d" "drop (p + 1) buf = t @ CHR ''='' # rest"
      using Cons.prems(2) drop_char_at [of p buf d] by simp_all
    have "qs_char buf (p + 1) d = Some (d, p + 1)" using encodes_plain by (simp add: qs_char_def plain_def)
    then show ?thesis using step [OF x(1)] x(2) encodes_plain by simp
  next
    case (encodes_plus t k')
    then have x: "char_at buf p = Some (CHR ''+'')" "drop (p + 1) buf = t @ CHR ''='' # rest"
      using Cons.prems(2) drop_char_at [of p buf "CHR ''+''"] by simp_all
    have "qs_char buf (p + 1) (CHR ''+'') = Some (CHR '' '', p + 1)" by (simp add: qs_char_def)
    then show ?thesis using step [OF x(1)] x(2) encodes_plus by simp
  next
    case (encodes_hex u l t k')
    then have "drop p buf = CHR 0x25 # u # l # t @ CHR ''='' # rest" using Cons.prems(2) by simp
    from drop_char_at [OF this] have x: "char_at buf p = Some (CHR 0x25)" "drop (Suc p) buf = u # l # t @ CHR ''='' # rest" by simp_all
    from drop_char_at [OF x(2)] have y: "char_at buf (p + 1) = Some u" "drop (Suc (Suc p)) buf = l # t @ CHR ''='' # rest" by simp_all
    from drop_char_at [OF y(2)] have z: "char_at buf (p + 1 + 1) = Some l" "drop (p + 1 + 2) buf = t @ CHR ''='' # rest"
      by simp_all
    have "qs_char buf (p + 1) (CHR 0x25) = Some (hex_char u l, p + 1 + 2)"
      using y(1) z(1) encodes_hex by (simp add: qs_char_def)
    then show ?thesis using step [OF x(1)] z(2) encodes_hex by simp
  qed
qed

section \<open>Decoding in place\<close>

lemma at_update: "at (buf[i := c]) j = (if j = i \<and> i < length buf then c else at buf j)"
  by (simp add: at_def nth_list_update)

text \<open>What decoding at \<open>q\<close> leaves: the text \<open>v\<close> and a terminator, and the buffer from \<open>e\<close> on.\<close>

definition decoded :: "nat \<Rightarrow> string \<Rightarrow> nat \<Rightarrow> string \<Rightarrow> string \<Rightarrow> bool" where
  "decoded q v e buf buf' \<longleftrightarrow>
     length buf' = length buf \<and> take q buf' = take q buf \<and> take (length v) (drop q buf') = v
     \<and> at buf' (q + length v) = NUL \<and> drop e buf' = drop e buf"

lemma decoded_step:
  assumes "decoded (Suc q) s e (buf[q := c]) buf'" and "q < length buf" and "q < e"
  shows "decoded q (c # s) e buf buf'"
proof -
  have len: "length buf' = length buf" and tk: "take (Suc q) buf' = take (Suc q) (buf[q := c])"
    using assms(1) by (auto simp: decoded_def)
  have "buf' ! q = c" using arg_cong [OF tk, of "\<lambda>xs. xs ! q"] assms(2) len by simp
  then have d: "drop q buf' = c # drop (Suc q) buf'" using assms(2) len by (metis Cons_nth_drop_Suc)
  have "take q buf' = take q buf" using arg_cong [OF tk, of "take q"] by (simp add: min_def)
  then show ?thesis using assms d by (simp add: decoded_def)
qed

lemma decode_encoded:
  assumes "encodes vt v" and "drop (p + j) buf = vt @ rest" and "i \<le> j" and "p + j \<le> length buf"
    and "rest = [] \<or> \<not> QS_ISQSCHR (hd rest)"
  shows "decoded (p + i) v (p + j + length vt + 1) buf (qs_decode_loop p i j buf)"
  using assms
proof (induction arbitrary: i j buf rule: encodes.induct)
  case encodes_nil
  have "\<not> QS_ISQSCHR (at buf (p + j))"
    using encodes_nil drop_char_at [of "p + j" buf] by (cases rest) (auto simp: at_def)
  then have "qs_decode_loop p i j buf = buf[p + i := NUL]" by (simp add: qs_decode_loop.simps [of p i j])
  then show ?case using encodes_nil by (simp add: decoded_def at_update) (simp add: at_def)
next
  case (encodes_plain c t s)
  from encodes_plain.prems(1) have d: "drop (p + j) buf = c # t @ rest" by simp
  have b: "p + j < length buf" "at buf (p + j) = c" "drop (Suc (p + j)) buf = t @ rest"
    using drop_eq_Cons [OF d] drop_char_at [OF d] by auto
  have r: "qs_decode_loop p i j buf = qs_decode_loop p (i + 1) (j + 1) (buf[p + i := c])"
    using encodes_plain.hyps(1) b(2) by (simp add: qs_decode_loop.simps [of p i j] plain_def)
  have "decoded (p + (i + 1)) s (p + (j + 1) + length t + 1) (buf[p + i := c]) (qs_decode_loop p i j buf)"
    unfolding r using encodes_plain.prems b by (intro encodes_plain.IH) auto
  then show ?case using encodes_plain.prems(2) b(1) by (intro decoded_step) simp_all
next
  case (encodes_plus t s)
  from encodes_plus.prems(1) have d: "drop (p + j) buf = CHR ''+'' # t @ rest" by simp
  have b: "p + j < length buf" "at buf (p + j) = CHR ''+''" "drop (Suc (p + j)) buf = t @ rest"
    using drop_eq_Cons [OF d] drop_char_at [OF d] by auto
  have r: "qs_decode_loop p i j buf = qs_decode_loop p (i + 1) (j + 1) (buf[p + i := CHR '' ''])"
    using b(2) by (simp add: qs_decode_loop.simps [of p i j])
  have "decoded (p + (i + 1)) s (p + (j + 1) + length t + 1) (buf[p + i := CHR '' '']) (qs_decode_loop p i j buf)"
    unfolding r using encodes_plus.prems b by (intro encodes_plus.IH) auto
  then show ?case using encodes_plus.prems(2) b(1) by (intro decoded_step) simp_all
next
  case (encodes_hex u l t s)
  from encodes_hex.prems(1) have d: "drop (p + j) buf = CHR 0x25 # u # l # t @ rest" by simp
  from drop_char_at [OF d] have 1: "at buf (p + j) = CHR 0x25" "drop (Suc (p + j)) buf = u # l # t @ rest" by simp_all
  from drop_char_at [OF 1(2)] have 2: "at buf (Suc (p + j)) = u" "drop (Suc (Suc (p + j))) buf = l # t @ rest" by simp_all
  from drop_char_at [OF 2(2)] have 3: "at buf (Suc (Suc (p + j))) = l" "drop (Suc (Suc (Suc (p + j)))) buf = t @ rest" by simp_all
  have len: "Suc (Suc (p + j)) < length buf" using drop_eq_Cons [OF 2(2)] by simp
  have r: "qs_decode_loop p i j buf = qs_decode_loop p (i + 1) (j + 3) (buf[p + i := hex_char u l])"
    using encodes_hex.hyps 1(1) 2(1) 3(1) by (simp add: qs_decode_loop.simps [of p i j])
  have "decoded (p + (i + 1)) s (p + (j + 3) + length t + 1) (buf[p + i := hex_char u l]) (qs_decode_loop p i j buf)"
    unfolding r using encodes_hex.prems 3(2) len by (intro encodes_hex.IH) (auto simp: numeral_3_eq_3)
  then show ?case using encodes_hex.prems(2) len by (intro decoded_step) (simp_all add: numeral_3_eq_3)
qed

section \<open>The pairs of a query\<close>

definition query_pair :: "string \<times> string \<Rightarrow> string" where
  "query_pair t = fst t @ CHR ''='' # snd t"

fun query_text :: "(string \<times> string) list \<Rightarrow> string" where
  "query_text [] = []"
| "query_text [t] = query_pair t"
| "query_text (t # ts) = query_pair t @ CHR 0x26 # query_text ts"

fun pair_starts :: "nat \<Rightarrow> (string \<times> string) list \<Rightarrow> nat list" where
  "pair_starts p [] = []"
| "pair_starts p (t # ts) = p # pair_starts (p + length (query_pair t) + 1) ts"

definition encodes_pair :: "string \<times> string \<Rightarrow> string \<times> string \<Rightarrow> bool" where
  "encodes_pair t kv \<longleftrightarrow> encodes (fst t) (fst kv) \<and> encodes (snd t) (snd kv)"

text \<open>A pair in the parsed buffer: the key as written, \<open>=\<close>, the decoded value, a terminator.\<close>

definition holds :: "string \<Rightarrow> nat \<Rightarrow> string \<times> string \<Rightarrow> string \<Rightarrow> bool" where
  "holds buf p t v \<longleftrightarrow>
     take (length (fst t) + 1 + length v) (drop p buf) = fst t @ CHR ''='' # v
     \<and> at buf (p + length (fst t) + 1 + length v) = NUL"

lemma takeWhile_encoded:
  "\<forall>c \<in> set k. P c \<Longrightarrow> rest = [] \<or> \<not> P (hd rest) \<Longrightarrow> takeWhile P (k @ rest) = k"
  by (cases rest) (auto simp: takeWhile_append)

lemma decode_pair_holds:
  assumes "encodes_pair t (k, v)" and "drop p buf = query_pair t @ rest" and "rest = [] \<or> hd rest = CHR 0x26" and "p \<le> length buf"
  shows "length (decode_pair p buf) = length buf \<and> take p (decode_pair p buf) = take p buf \<and> holds (decode_pair p buf) p t v
    \<and> drop (p + length (query_pair t) + 1) (decode_pair p buf) = drop (p + length (query_pair t) + 1) buf"
proof -
  define q where "q = p + length (fst t)"
  have chars: "\<forall>c \<in> set (fst t). QS_ISQSCHR c" "length v \<le> length (snd t)"
    using assms(1) encodes_chars by (auto simp: encodes_pair_def)
  have d: "drop p buf = fst t @ CHR ''='' # snd t @ rest" using assms(2) by (simp add: query_pair_def)
  have "strcspn buf p [CHR ''='', CHR 0x26, CHR 0x23] = length (fst t)"
    unfolding strcspn_def d using chars(1) by (subst takeWhile_encoded) (auto simp: QS_ISQSCHR_def)
  moreover have dq: "drop q buf = CHR ''='' # snd t @ rest" using arg_cong [OF d, of "drop (length (fst t))"] by (simp add: q_def add.commute)
  ultimately have run: "decode_pair p buf = qs_decode_loop (q + 1) 0 0 buf"
    using drop_char_at [OF dq] by (simp add: decode_pair_def qs_decode_def q_def Let_def)
  have dq1: "drop (q + 1 + 0) buf = snd t @ rest" and lq: "q + 1 + 0 \<le> length buf"
    using drop_char_at [OF dq] drop_eq_Cons [OF dq] by auto
  have e: "encodes (snd t) v" using assms(1) by (simp add: encodes_pair_def)
  have "decoded (q + 1 + 0) v (q + 1 + 0 + length (snd t) + 1) buf (decode_pair p buf)"
    unfolding run by (rule decode_encoded [OF e dq1 _ lq]) (use assms(3) in auto)
  then have dec: "length (decode_pair p buf) = length buf" "take (q + 1) (decode_pair p buf) = take (q + 1) buf"
    "take (length v) (drop (q + 1) (decode_pair p buf)) = v" "at (decode_pair p buf) (q + 1 + length v) = NUL"
    "drop (q + length (snd t) + 2) (decode_pair p buf) = drop (q + length (snd t) + 2) buf"
    by (simp_all add: decoded_def)
  have tp: "take p (decode_pair p buf) = take p buf"
    using arg_cong [OF dec(2), of "take p"] by (simp add: min_def q_def)
  have "take (length (fst t) + 1) (drop p (decode_pair p buf)) = take (length (fst t) + 1) (drop p buf)"
    using arg_cong [OF dec(2), of "drop p"] by (simp add: drop_take q_def)
  then have "take (length (fst t) + 1) (drop p (decode_pair p buf)) = fst t @ [CHR ''='']" by (simp add: d)
  then have "take (length (fst t) + 1 + length v) (drop p (decode_pair p buf)) = fst t @ CHR ''='' # v"
    unfolding take_add [of "length (fst t) + 1"] using dec(3) by (simp add: q_def add.commute)
  then have "holds (decode_pair p buf) p t v"
    using dec(4) by (simp add: holds_def q_def)
  then show ?thesis using dec(1,5) tp by (simp add: query_pair_def q_def add.commute add.left_commute)
qed

lemma holds_prefix:
  assumes "holds buf p t v" and "take n buf' = take n buf" and "length buf' = length buf" and "p + length (fst t) + 1 + length v < n"
  shows "holds buf' p t v"
proof -
  define m where "m = length (fst t) + 1 + length v"
  have n: "p + m < n" using assms(4) by (simp add: m_def)
  have "take m (drop p buf') = take m (drop p buf)"
  proof -
    have "m \<le> n - p" using n by simp
    then show ?thesis using arg_cong [OF assms(2), of "\<lambda>b. take m (drop p b)"] by (simp add: drop_take min_absorb1)
  qed
  moreover have "at buf' (p + m) = at buf (p + m)"
    using arg_cong [OF assms(2), of "\<lambda>b. b ! (p + m)"] n assms(3) by (auto simp: at_def)
  ultimately show ?thesis using assms(1) by (simp add: holds_def m_def add.assoc)
qed

lemma query_text_Cons: "query_text (t # ts) = query_pair t @ (if ts = [] then [] else CHR 0x26 # query_text ts)"
  by (cases ts) auto

lemma fold_decode_holds:
  "list_all2 encodes_pair ts kvs \<Longrightarrow> drop p buf = query_text ts \<Longrightarrow> p \<le> length buf \<Longrightarrow>
   length (fold decode_pair (pair_starts p ts) buf) = length buf
   \<and> take p (fold decode_pair (pair_starts p ts) buf) = take p buf
   \<and> list_all2 (\<lambda>(q, t) kv. holds (fold decode_pair (pair_starts p ts) buf) q t (snd kv)) (zip (pair_starts p ts) ts) kvs"
proof (induction ts kvs arbitrary: p buf rule: list_all2_induct)
  case Nil
  then show ?case by simp
next
  case (Cons t ts kv kvs)
  define rest where "rest = (if ts = [] then [] else CHR 0x26 # query_text ts)"
  define p' where "p' = p + length (query_pair t) + 1"
  define b1 where "b1 = decode_pair p buf"
  define b2 where "b2 = fold decode_pair (pair_starts p' ts) b1"
  have e: "encodes_pair t (fst kv, snd kv)" "length (snd kv) \<le> length (snd t)"
    using Cons.hyps(1) encodes_chars by (auto simp: encodes_pair_def)
  have d: "drop p buf = query_pair t @ rest" using Cons.prems(1) by (simp add: query_text_Cons rest_def)
  have 1: "length b1 = length buf" "take p b1 = take p buf" "holds b1 p t (snd kv)" "drop p' b1 = drop p' buf"
    using decode_pair_holds [OF e(1) d _ Cons.prems(2)] by (auto simp: b1_def p'_def rest_def)
  have 2: "length b2 = length b1 \<and> take p' b2 = take p' b1
     \<and> list_all2 (\<lambda>(q, t) kv. holds b2 q t (snd kv)) (zip (pair_starts p' ts) ts) kvs"
  proof (cases "ts = []")
    case True
    then show ?thesis using Cons.hyps(2) by (simp add: b2_def)
  next
    case False
    have "drop p' buf = drop 1 rest" using arg_cong [OF d, of "drop (length (query_pair t) + 1)"] by (simp add: p'_def add.commute)
    then have "drop p' b1 = query_text ts" using 1(4) False by (simp add: rest_def)
    moreover have "p' \<le> length b1"
      using arg_cong [OF d, of length] False Cons.prems(2) 1(1) by (simp add: p'_def rest_def)
    ultimately show ?thesis unfolding b2_def by (rule Cons.IH)
  qed
  have "take p b2 = take p buf"
    using arg_cong [OF conjunct1 [OF conjunct2 [OF 2]], of "take p"] 1(2) by (simp add: p'_def min_def)
  moreover have "holds b2 p t (snd kv)"
    using 2 e(2) by (intro holds_prefix [OF 1(3), of p']) (simp_all add: p'_def query_pair_def)
  moreover have "fold decode_pair (pair_starts p (t # ts)) buf = b2" by (simp add: b2_def b1_def p'_def)
  ultimately show ?case using 1(1) 2 by (simp add: p'_def)
qed

lemma length_pair_starts: "length (pair_starts p ts) = length ts"
  by (induction ts arbitrary: p) auto

lemma find_pairs_starts:
  "list_all2 encodes_pair ts kvs \<Longrightarrow> ts \<noteq> [] \<Longrightarrow> length ts \<le> n \<Longrightarrow> drop p buf = query_text ts \<Longrightarrow> p \<le> length buf \<Longrightarrow>
   find_pairs n p buf = pair_starts p ts"
proof (induction ts kvs arbitrary: n p rule: list_all2_induct)
  case Nil
  then show ?case by simp
next
  case (Cons t ts kv kvs)
  define rest where "rest = (if ts = [] then [] else CHR 0x26 # query_text ts)"
  obtain m where n: "n = Suc m" using Cons.prems(2) by (cases n) auto
  have d: "drop p buf = query_pair t @ rest" using Cons.prems(3) by (simp add: query_text_Cons rest_def)
  have "\<forall>c \<in> set (query_pair t). c \<noteq> NUL \<and> c \<noteq> CHR 0x26"
  proof -
    have "\<forall>c \<in> set (fst t) \<union> set (snd t). QS_ISQSCHR c"
      using Cons.hyps(1) encodes_chars unfolding encodes_pair_def by blast
    then show ?thesis by (auto simp: query_pair_def QS_ISQSCHR_def)
  qed
  then have j: "strcspn buf p ''&'' = length (query_pair t)"
    unfolding strcspn_def d by (subst takeWhile_encoded) (auto simp: rest_def)
  have dq: "drop (p + length (query_pair t)) buf = rest"
    using arg_cong [OF d, of "drop (length (query_pair t))"] by (simp add: add.commute)
  show ?case
  proof (cases "ts = []")
    case True
    then have "at buf (p + length (query_pair t)) = NUL" using dq by (simp add: rest_def at_def)
    then show ?thesis using True by (simp add: n j)
  next
    case False
    then have r: "drop (p + length (query_pair t)) buf = CHR 0x26 # query_text ts" using dq by (simp add: rest_def)
    have "find_pairs m (p + length (query_pair t) + 1) buf = pair_starts (p + length (query_pair t) + 1) ts"
      using drop_char_at [OF r] drop_eq_Cons [OF r] Cons.prems(2) False by (intro Cons.IH) (auto simp: n)
    then show ?thesis using drop_char_at [OF r] by (simp add: n j)
  qed
qed

lemma takeWhile_NUL_append:
  "takeWhile (\<lambda>c. c \<noteq> NUL) (v @ NUL # l) = takeWhile (\<lambda>c. c \<noteq> NUL) v"
  by (induction v) auto

lemma list_all2_both: "list_all2 P xs ys \<Longrightarrow> list_all2 Q xs ys \<Longrightarrow> list_all2 (\<lambda>x y. P x y \<and> Q x y) xs ys"
  by (simp add: list_all2_conv_all_nth)

lemma k2v_lookup:
  assumes "list_all plain name"
  shows "list_all2 (\<lambda>(q, t) kv. holds buf q t (snd kv) \<and> encodes (fst t) (fst kv)) qts kvs \<Longrightarrow>
   \<exists>r. qs_k2v name buf (map fst qts) 0 = Some r \<and> map_option (cstr_at buf) r = map_option cstr (map_of kvs name)"
proof (induction qts kvs rule: list_all2_induct)
  case Nil
  then show ?case by simp
next
  case (Cons qt qts kv kvs)
  obtain q t k v where qt: "qt = (q, t)" and kv: "kv = (k, v)" by (cases qt; cases kv) blast
  have h: "holds buf q t v" "encodes (fst t) k" using Cons.hyps(1) by (auto simp: qt kv)
  define m where "m = length (fst t)"
  obtain rest where d: "drop q buf = fst t @ CHR ''='' # v @ rest" and nul: "at buf (q + m + 1 + length v) = NUL"
    using h(1) append_take_drop_id [of "length (fst t) + 1 + length v" "drop q buf"]
    by (simp add: holds_def m_def) (metis append.assoc append_Cons)
  obtain r where r: "qs_strncmp name 0 buf q (length name) = Some r" "r = 0 \<longleftrightarrow> name = k"
    using strncmp_encoded [OF h(2) d assms, of "[]"] by auto
  show ?case
  proof (cases "name = k")
    case False
    then show ?thesis using r Cons.IH by (auto simp: qt kv)
  next
    case True
    have skip: "strcspn buf q ''='' = m"
      using encodes_chars [OF h(2)] unfolding strcspn_def d m_def
      by (subst takeWhile_encoded) (auto simp: QS_ISQSCHR_def)
    have dq: "drop (q + m) buf = CHR ''='' # v @ rest"
      using arg_cong [OF d, of "drop m"] by (simp add: m_def add.commute)
    have "cstr_at buf (q + m + 1) = cstr v"
    proof -
      have dv: "drop (q + m + 1) buf = v @ rest" using drop_char_at [OF dq] by simp
      have "drop (q + m + 1 + length v) buf = rest" using arg_cong [OF dv, of "drop (length v)"] by (simp add: add.commute)
      then have "rest = [] \<or> hd rest = NUL" using nul drop_char_at [of "q + m + 1 + length v" buf] by (cases rest) auto
      then have "takeWhile (\<lambda>c. c \<noteq> NUL) (v @ rest) = takeWhile (\<lambda>c. c \<noteq> NUL) v"
        by (cases rest) (simp_all add: takeWhile_NUL_append)
      then show ?thesis unfolding cstr_at_def dv cstr_def .
    qed
    then show ?thesis using True r skip drop_char_at [OF dq] by (simp add: qt kv add.commute)
  qed
qed

text \<open>
  C36: a parameter is found. For a URL whose query is a list of at most 256 pairs, keys and values
  written with any choice of percent escapes, looking up a plain name never reads outside the buffer
  and finds the value of the first pair with that name, or nothing.
\<close>

theorem url_param:
  assumes "list_all2 encodes_pair ts kvs" and "ts \<noteq> []" and "length ts \<le> 256"
    and "list_all (\<lambda>c. c \<notin> {NUL, CHR 0x3F, CHR 0x23}) path" and "list_all plain name"
  shows "let q = query_string_of (path @ CHR 0x3F # query_text ts) True
    in \<exists>r. get q name = Some r \<and> map_option (cstr_at (qs_url q)) r = map_of kvs name"
proof -
  define url where "url = path @ CHR 0x3F # query_text ts"
  define p where "p = length path + 1"
  define buf where "buf = fold decode_pair (pair_starts p ts) url"
  have s: "strcspn url 0 [CHR 0x3F, CHR 0x23] = length path"
    unfolding strcspn_def url_def drop_0 using assms(4) by (subst takeWhile_encoded) (auto simp: list_all_iff)
  have d: "drop p url = query_text ts" "p \<le> length url" by (simp_all add: url_def p_def)
  have pairs: "find_pairs 256 p url = pair_starts p ts" by (rule find_pairs_starts [OF assms(1-3) d])
  have "at url (length path) = CHR 0x3F" by (simp add: at_def url_def)
  then have q: "query_string_of url True = \<lparr>qs_url = buf, key_value_pairs = pair_starts p ts\<rparr>"
    using pairs s by (simp add: query_string_of_def qs_parse_def MAX_KEY_VALUE_PAIRS_COUNT_def NUL_def p_def url_def [symmetric] buf_def)
      (simp add: url_def Let_def)
  have h: "list_all2 (\<lambda>(q, t) kv. holds buf q t (snd kv)) (zip (pair_starts p ts) ts) kvs"
    unfolding buf_def using fold_decode_holds [OF assms(1) d] by blast
  have e: "list_all2 (\<lambda>(q, t) kv. encodes (fst t) (fst kv)) (zip (pair_starts p ts) ts) kvs"
    using assms(1) by (auto simp: list_all2_conv_all_nth encodes_pair_def length_pair_starts)
  have f: "map fst (zip (pair_starts p ts) ts) = pair_starts p ts"
    by (simp add: map_fst_zip length_pair_starts)
  have v: "map_option cstr (map_of kvs name) = map_of kvs name"
  proof (cases "map_of kvs name")
    case (Some w)
    then obtain i where "i < length kvs" "kvs ! i = (name, w)"
      using map_of_SomeD [OF Some] by (auto simp: in_set_conv_nth)
    then have "encodes_pair (ts ! i) (name, w)" using list_all2_nthD2 [OF assms(1)] by fastforce
    then have "encodes (snd (ts ! i)) w" by (simp add: encodes_pair_def)
    from encodes_chars [OF this] have "NUL \<notin> set w" by (rule conjunct1 [OF conjunct2])
    then show ?thesis by (simp add: Some)
  qed simp
  have "NUL \<notin> set name" using assms(5) special_chars(3) unfolding list_all_iff plain_def by blast
  then have n: "cstr name = name" by (rule cstr_id)
  have "list_all2 (\<lambda>(q, t) kv. holds buf q t (snd kv) \<and> encodes (fst t) (fst kv)) (zip (pair_starts p ts) ts) kvs"
    by (rule list_all2_mono [OF list_all2_both [OF h e]]) auto
  from k2v_lookup [OF assms(5) this] show ?thesis
    unfolding Let_def url_def [symmetric] q get_def query_string.select_convs f v n by simp
qed

theorem url_param_witness:
  "\<exists>r. get (query_string_of (''/ws?room=ab%20c'') True) ''room'' = Some r
    \<and> map_option (cstr_at (qs_url (query_string_of (''/ws?room=ab%20c'') True))) r = Some ''ab c''"
proof -
  have p: "list_all plain ''roomabc''" by (simp add: plain_def QS_ISQSCHR_def NUL_def)
  have "encodes (CHR 0x25 # CHR ''2'' # CHR ''0'' # ''c'') (hex_char (CHR ''2'') (CHR ''0'') # ''c'')"
    using p by (intro encodes_hex encodes_plain encodes_nil)
      (simp_all add: hex_char_def QS_HEX2DEC_def QS_ISHEX_def char_between_def NUL_def char_of_def bit_0)
  then have "encodes ''%20c'' '' c''" by (simp add: hex_char_def QS_HEX2DEC_def char_between_def char_of_def bit_0)
  then have e: "list_all2 encodes_pair [(''room'', ''ab%20c'')] [(''room'', ''ab c'')]"
    using p by (simp add: encodes_pair_def encodes_plain encodes_nil)
  show ?thesis
    using url_param [OF e, of "''/ws''" "''room''"]
    by (simp add: plain_def query_pair_def Let_def NUL_def QS_ISQSCHR_def)
qed

end
