(* ===== verification/Route_Trie.thy ===== *)
theory Route_Trie
  imports Clib
begin

text \<open>
  src/src/crowlib/crow/routing.h, \<open>class Trie\<close>, and the parameter types of common.h: the search tree a
  request's path is looked up in. A position in the path is what is left of it from there. What the C
  library's \<open>strtod\<close> reads is an argument: the number and how many characters it took, \<open>None\<close> for
  nothing or a range error.
\<close>

section \<open>Parameters\<close>

datatype ParamType = P_INT | P_UINT | P_DOUBLE | P_STRING | P_PATH | P_MAX

record 'f routing_params =
  int_params :: "int list"
  uint_params :: "int list"
  double_params :: "'f list"
  string_params :: "string list"

definition no_params :: "'f routing_params" where
  "no_params = \<lparr>int_params = [], uint_params = [], double_params = [], string_params = []\<rparr>"

type_synonym 'f strtod = "string \<Rightarrow> ('f \<times> nat) option"

section \<open>Nodes\<close>

definition INVALID_BP_ID :: "16 word" where
  "INVALID_BP_ID = 0xFFFF"

datatype node = Node (rule_index: "16 word") (blueprint_index: "16 word") (node_key: string) (param: ParamType) (children: "node list")

definition new_node :: node where
  "new_node = Node 0 INVALID_BP_ID [] P_MAX []"

definition IsSimpleNode :: "node \<Rightarrow> bool" where
  "IsSimpleNode n \<longleftrightarrow> rule_index n = 0 \<and> blueprint_index n = INVALID_BP_ID \<and> length (children n) < 2 \<and> param n = P_MAX
     \<and> list_all (\<lambda>x. param x = P_MAX) (children n)"

definition is_empty :: "node \<Rightarrow> bool" where
  "is_empty head = (children head = [])"

section \<open>Joining chains\<close>

primrec nodes :: "node \<Rightarrow> nat" where
  "nodes (Node r b k p cs) = Suc (sum_list (map nodes cs))"

lemma nodes_children: "sum_list (map nodes (children n)) < nodes n"
  by (cases n) simp

lemma nodes_le: "c \<in> set cs \<Longrightarrow> nodes c \<le> sum_list (map nodes cs)"
  by (simp add: member_le_sum_list)

function optimizeNode :: "node \<Rightarrow> node" where
  "optimizeNode (Node r b k p cs) =
     (if cs = [] then Node r b k p cs
      else if IsSimpleNode (Node r b k p cs)
      then let c = hd cs in optimizeNode (Node (rule_index c) (blueprint_index c) (k @ node_key c) p (children c))
      else Node r b k p (map optimizeNode cs))"
  by pat_completeness auto
termination optimizeNode
  by (relation "measure nodes") (auto intro: le_imp_less_Suc nodes_le less_le_trans [OF nodes_children nodes_le [OF hd_in_set]])

declare optimizeNode.simps [simp del]

definition optimize :: "node \<Rightarrow> node" where
  "optimize head =
     Node (rule_index head) (blueprint_index head) (node_key head) (param head) (map optimizeNode (children head))"

definition validate :: "node \<Rightarrow> exn + node" where
  "validate head =
     (if \<not> IsSimpleNode head then Inl (Runtime_Error ''Internal error: Trie header should be simple!'')
      else Inr (optimize head))"

section \<open>Looking a path up\<close>

text \<open>\<open>strtoll\<close> and \<open>strtoull\<close> in base 10, with the range check the code makes on \<open>errno\<close>.\<close>

definition strto :: "int \<Rightarrow> int \<Rightarrow> string \<Rightarrow> (int \<times> nat) option" where
  "strto lo hi s =
     (let (neg, r) = skip_sign s;
          ds = takeWhile (is_digit_base 10) r;
          v = (if neg then - digits_value 10 ds else digits_value 10 ds)
      in if ds = [] \<or> v < lo \<or> hi < v then None
         else Some (v, length s - length r + length ds))"

definition take_param :: "'f strtod \<Rightarrow> ParamType \<Rightarrow> string \<Rightarrow> 'f routing_params \<Rightarrow> (string \<times> 'f routing_params) option" where
  "take_param strtod ty s ps =
     (let c = peek s in
      case ty of
        P_INT \<Rightarrow>
          if is_digit c \<or> c = CHR ''+'' \<or> c = CHR ''-''
          then map_option (\<lambda>(v, n). (drop n s, ps\<lparr>int_params := int_params ps @ [v]\<rparr>)) (strto int_min64 int_max64 s)
          else None
      | P_UINT \<Rightarrow>
          if is_digit c \<or> c = CHR ''+''
          then map_option (\<lambda>(v, n). (drop n s, ps\<lparr>uint_params := uint_params ps @ [v]\<rparr>)) (strto 0 (2 ^ 64 - 1) s)
          else None
      | P_DOUBLE \<Rightarrow>
          if is_digit c \<or> c = CHR ''+'' \<or> c = CHR ''-'' \<or> c = CHR ''.''
          then map_option (\<lambda>(v, n). (drop n s, ps\<lparr>double_params := double_params ps @ [v]\<rparr>)) (strtod s)
          else None
      | P_STRING \<Rightarrow>
          let w = takeWhile (\<lambda>c. c \<noteq> CHR ''/'') s
          in if w \<noteq> [] then Some (drop (length w) s, ps\<lparr>string_params := string_params ps @ [w]\<rparr>) else None
      | P_PATH \<Rightarrow> if s \<noteq> [] then Some ([], ps\<lparr>string_params := string_params ps @ [s]\<rparr>) else None
      | P_MAX \<Rightarrow> None)"

definition take_fragment :: "'f strtod \<Rightarrow> node \<Rightarrow> string \<Rightarrow> 'f routing_params \<Rightarrow> (string \<times> 'f routing_params) option" where
  "take_fragment strtod child s ps =
     (if param child \<noteq> P_MAX then take_param strtod (param child) s ps
      else let fragment = node_key child
        in if take (length fragment) s = fragment then Some (drop (length fragment) s, ps) else None)"

type_synonym 'f found = "16 word \<times> 16 word list \<times> 'f routing_params"

definition update_found :: "'f found \<Rightarrow> 'f found \<Rightarrow> 'f found" where
  "update_found ret acc =
     (let (r, bp, ps) = ret; (found, _, mp) = acc
      in if r \<noteq> 0 \<and> (found = 0 \<or> r < found) then (r, bp, ps) else (found, bp, mp))"

text \<open>
  The blueprint indices are a vector that the calls share. It is moved away where the path ends, and
  what is then read from it is empty; after each child its last entry is dropped, whoever put it there.
\<close>

fun find :: "'f strtod \<Rightarrow> node \<Rightarrow> string \<Rightarrow> 'f routing_params \<Rightarrow> 16 word list \<Rightarrow> 'f found \<times> 16 word list"
and find_children ::
    "'f strtod \<Rightarrow> node list \<Rightarrow> string \<Rightarrow> 'f routing_params \<Rightarrow> 16 word list \<Rightarrow> 'f found \<Rightarrow> bool \<Rightarrow> 'f found \<times> 16 word list"
where
  "find strtod (Node r b k p cs) s ps bs =
     (if s = [] then ((r, [], ps), []) else find_children strtod cs s ps bs (0, [], no_params) False)"
| "find_children strtod [] s ps bs acc found_fragment =
     (if found_fragment then (acc, bs) else ((fst acc, bs, snd (snd acc)), []))"
| "find_children strtod (c # cs) s ps bs acc found_fragment =
     (case take_fragment strtod c s ps of
        None \<Rightarrow> find_children strtod cs s ps bs acc found_fragment
      | Some (s', ps') \<Rightarrow>
          let bs = (if blueprint_index c \<noteq> INVALID_BP_ID then bs @ [blueprint_index c] else bs);
              (ret, bs) = find strtod c s' ps' bs
          in find_children strtod cs s ps (butlast bs) (update_found ret acc) True)"

definition find_url :: "'f strtod \<Rightarrow> node \<Rightarrow> string \<Rightarrow> 'f found" where
  "find_url strtod head req_url = fst (find strtod head req_url no_params [])"

section \<open>Adding a path\<close>

definition paramTraits :: "(ParamType \<times> string) list" where
  "paramTraits =
     [(P_INT, ''<int>''), (P_UINT, ''<uint>''), (P_DOUBLE, ''<float>''), (P_DOUBLE, ''<double>''),
      (P_STRING, ''<str>''), (P_STRING, ''<string>''), (P_PATH, ''<path>'')]"

definition param_at :: "string \<Rightarrow> (ParamType \<times> string) option" where
  "param_at s = List.find (\<lambda>x. take (length (snd x)) s = snd x) paramTraits"

text \<open>The loop over the children: go on in the first that fits, or in a new one.\<close>

fun child_for :: "(node \<Rightarrow> bool) \<Rightarrow> node \<Rightarrow> (node \<Rightarrow> (exn + node) option) \<Rightarrow> node list \<Rightarrow> (exn + node list) option" where
  "child_for fits fresh f [] = map_option (map_sum id (\<lambda>n. [n])) (f fresh)"
| "child_for fits fresh f (c # cs) =
     (if fits c then map_option (map_sum id (\<lambda>n. n # cs)) (f c)
      else map_option (map_sum id ((#) c)) (child_for fits fresh f cs))"

definition in_children :: "(node list \<Rightarrow> (exn + node list) option) \<Rightarrow> node \<Rightarrow> (exn + node) option" where
  "in_children f n = map_option (map_sum id (Node (rule_index n) (blueprint_index n) (node_key n) (param n))) (f (children n))"

text \<open>
  \<open>None\<close>: the loop never ends, because the index steps back on a \<open><\<close> that starts no parameter.
\<close>

function add_from :: "string \<Rightarrow> 16 word \<Rightarrow> nat \<Rightarrow> 16 word \<Rightarrow> nat \<Rightarrow> string \<Rightarrow> node \<Rightarrow> (exn + node) option" where
  "add_from url ri bp_len bp i [] n =
     Some (if rule_index n \<noteq> 0 then Inl (Runtime_Error (''handler already exists for '' @ url))
           else Inr (Node ri (blueprint_index n) (node_key n) (param n) (children n)))"
| "add_from url ri bp_len bp i (c # s) n =
     (if c = CHR ''<''
      then (case param_at (c # s) of
              None \<Rightarrow> None
            | Some (ty, name) \<Rightarrow>
                in_children (child_for (\<lambda>child. param child = ty) (Node 0 INVALID_BP_ID [] ty [])
                  (add_from url ri bp_len bp (i + length name) (drop (length name - 1) s))) n)
      else let has_blueprint = bp_len \<noteq> 0 \<and> bp \<noteq> INVALID_BP_ID
        in in_children (child_for (\<lambda>child. peek (node_key child) = c)
              (Node 0 (if has_blueprint \<and> i = bp_len then bp else INVALID_BP_ID) [c] P_MAX [])
              (add_from url ri bp_len bp (i + 1) s)) n)"
  by pat_completeness auto
termination add_from
  by (relation "measure (\<lambda>(url, ri, bp_len, bp, i, s, n). length s)") auto

definition add :: "string \<Rightarrow> 16 word \<Rightarrow> nat \<Rightarrow> 16 word \<Rightarrow> node \<Rightarrow> (exn + node) option" where
  "add url ri bp_prefix_length bp head = add_from url ri bp_prefix_length bp 0 url head"

section \<open>What a tree stands for\<close>

text \<open>
  A path with parameters is a list of segments; what it matches, and the parameters it then yields, is
  read off segment by segment. The entries of a tree are the paths from its root to the nodes that carry a rule.
\<close>

datatype segment = Lit char | Par ParamType

function parse_pattern :: "string \<Rightarrow> segment list option" where
  "parse_pattern [] = Some []"
| "parse_pattern (c # s) =
     (if c = CHR ''<''
      then (case param_at (c # s) of
              None \<Rightarrow> None
            | Some (ty, name) \<Rightarrow> map_option ((#) (Par ty)) (parse_pattern (drop (length name - 1) s)))
      else map_option ((#) (Lit c)) (parse_pattern s))"
  by pat_completeness auto
termination parse_pattern
  by (relation "measure length") auto

fun seg_match :: "'f strtod \<Rightarrow> segment list \<Rightarrow> string \<Rightarrow> 'f routing_params \<Rightarrow> 'f routing_params option" where
  "seg_match strtod [] s ps = (if s = [] then Some ps else None)"
| "seg_match strtod (Lit c # xs) s ps = (if s \<noteq> [] \<and> hd s = c then seg_match strtod xs (tl s) ps else None)"
| "seg_match strtod (Par ty # xs) s ps =
     (if s = [] then None
      else case take_param strtod ty s ps of None \<Rightarrow> None | Some (s', ps') \<Rightarrow> seg_match strtod xs s' ps')"

definition edge :: "node \<Rightarrow> segment list" where
  "edge c = (if param c = P_MAX then map Lit (node_key c) else [Par (param c)])"

fun entries :: "node \<Rightarrow> (segment list \<times> 16 word) list" where
  "entries (Node r b k p cs) =
     (if r \<noteq> 0 then [([], r)] else []) @ concat (map (\<lambda>c. map (apfst ((@) (edge c))) (entries c)) cs)"

definition full :: "node \<Rightarrow> (segment list \<times> 16 word) list" where
  "full c = map (apfst ((@) (edge c))) (entries c)"

lemma entries_full: "entries (Node r b k p cs) = (if r \<noteq> 0 then [([], r)] else []) @ concat (map full cs)"
  by (simp add: full_def [abs_def])

lemma in_full: "(sg, i) \<in> set (full c) \<longleftrightarrow> (\<exists>sg'. sg = edge c @ sg' \<and> (sg', i) \<in> set (entries c))"
  by (force simp: full_def)

lemma entries_spread: "entries (Node (rule_index c) b' k' p' (children c)) = entries c"
  by (cases c) simp

declare entries.simps [simp del]

text \<open>The trees that occur: a literal child has a text, of one character before chains are joined.\<close>

fun keyed :: "node \<Rightarrow> bool" where
  "keyed (Node r b k p cs) = list_all (\<lambda>c. (param c = P_MAX \<longrightarrow> node_key c \<noteq> []) \<and> keyed c) cs"

definition one_char :: "node \<Rightarrow> bool" where
  "one_char c \<longleftrightarrow> (if param c = P_MAX then length (node_key c) = 1 \<and> node_key c \<noteq> [NUL] else node_key c = [])"

fun unjoined :: "node \<Rightarrow> bool" where
  "unjoined (Node r b k p cs) = list_all (\<lambda>c. one_char c \<and> unjoined c) cs"

lemma unjoined_keyed: "unjoined n \<Longrightarrow> keyed n"
  by (induction n rule: unjoined.induct) (auto simp: list_all_iff one_char_def)

lemma unjoined_spread: "unjoined (Node r b k p (children c)) = unjoined c"
  by (cases c) simp

section \<open>Joining chains changes nothing\<close>

definition same_paths :: "node \<Rightarrow> node \<Rightarrow> bool" where
  "same_paths n n' \<longleftrightarrow> full n' = full n \<and> param n' = param n \<and> (node_key n \<noteq> [] \<longrightarrow> node_key n' \<noteq> []) \<and> (keyed n \<longrightarrow> keyed n')"

lemma join_same:
  assumes "IsSimpleNode (Node r b k p [c])"
  shows "same_paths (Node r b k p [c]) (Node (rule_index c) (blueprint_index c) (k @ node_key c) p (children c))"
proof -
  define m where "m = Node (rule_index c) (blueprint_index c) (k @ node_key c) p (children c)"
  have s: "r = 0" "p = P_MAX" "param c = P_MAX" using assms by (auto simp: IsSimpleNode_def)
  have "full m = map (apfst ((@) (map Lit k))) (full c)"
    unfolding full_def m_def entries_spread by (simp add: edge_def s apfst_compose comp_def)
  also have "\<dots> = full (Node r b k p [c])"
    unfolding full_def [of "Node r b k p [c]"] entries_full by (simp add: edge_def s)
  finally have "full m = full (Node r b k p [c])" .
  moreover have "keyed (Node r b k p [c]) \<longrightarrow> keyed m" by (cases c) (simp add: m_def)
  ultimately show ?thesis by (simp add: same_paths_def m_def)
qed

lemma optimize_children_same:
  assumes "\<And>c. c \<in> set cs \<Longrightarrow> same_paths c (optimizeNode c)"
  shows "same_paths (Node r b k p cs) (Node r b k p (map optimizeNode cs))"
    and "entries (Node r b k p (map optimizeNode cs)) = entries (Node r b k p cs)"
proof -
  have m: "map (full \<circ> optimizeNode) cs = map full cs"
    using assms by (intro map_cong) (auto simp: same_paths_def)
  then show e: "entries (Node r b k p (map optimizeNode cs)) = entries (Node r b k p cs)"
    unfolding entries_full by (simp only: map_map m)
  show "same_paths (Node r b k p cs) (Node r b k p (map optimizeNode cs))"
    using assms unfolding same_paths_def full_def [of "Node _ _ _ _ _"] e by (auto simp: edge_def list_all_iff)
qed

lemma optimizeNode_same: "same_paths n (optimizeNode n)"
proof (induction n rule: optimizeNode.induct)
  case (1 r b k p cs)
  consider "cs = []" | c where "cs = [c]" "IsSimpleNode (Node r b k p cs)" | "cs \<noteq> []" "\<not> IsSimpleNode (Node r b k p cs)"
    by (cases cs) (auto simp: IsSimpleNode_def)
  then show ?case
  proof cases
    case 1
    then show ?thesis by (simp add: optimizeNode.simps same_paths_def)
  next
    case (2 c)
    let ?m = "Node (rule_index c) (blueprint_index c) (k @ node_key c) p (children c)"
    have "cs \<noteq> []" "c = hd cs" using 2(1) by simp_all
    then have "same_paths ?m (optimizeNode ?m)" by (rule "1.IH"(1) [OF _ 2(2)])
    moreover have "same_paths (Node r b k p [c]) ?m" using join_same 2 by simp
    ultimately show ?thesis
      unfolding 2(1) optimizeNode.simps [of r b k p "[c]"] using 2 by (simp add: same_paths_def)
  next
    case 3
    then have "same_paths c (optimizeNode c)" if "c \<in> set cs" for c using "1.IH"(2) that by simp
    from optimize_children_same(1) [OF this] show ?thesis using 3 by (simp add: optimizeNode.simps [of r b k p])
  qed
qed

lemma entries_optimize: "entries (optimize head) = entries head"
  using optimize_children_same(2) [OF optimizeNode_same] by (cases head) (simp add: optimize_def)

lemma keyed_optimize: "keyed head \<Longrightarrow> keyed (optimize head)"
  using optimize_children_same(1) [OF optimizeNode_same] by (cases head) (simp add: optimize_def same_paths_def)

section \<open>Lookup finds the best entry\<close>

definition matches :: "'f strtod \<Rightarrow> (segment list \<times> 16 word) list \<Rightarrow> string \<Rightarrow> 'f routing_params \<Rightarrow> (16 word \<times> 'f routing_params) set" where
  "matches strtod es s ps = {(i, q). \<exists>sg. (sg, i) \<in> set es \<and> seg_match strtod sg s ps = Some q}"

definition best :: "(16 word \<times> 'f routing_params) set \<Rightarrow> 16 word \<Rightarrow> 'f routing_params \<Rightarrow> bool" where
  "best M r q = (if M = {} then r = 0 else (r, q) \<in> M \<and> r \<noteq> 0 \<and> (\<forall>(i, _) \<in> M. r \<le> i))"

lemma matches_append: "matches strtod (xs @ ys) s ps = matches strtod xs s ps \<union> matches strtod ys s ps"
  by (auto simp: matches_def)

lemma seg_match_literal:
  "seg_match strtod (map Lit k @ sg) s ps = (if take (length k) s = k then seg_match strtod sg (drop (length k) s) ps else None)"
proof (induction k arbitrary: s)
  case (Cons c k)
  then show ?case by (cases s) auto
qed simp

lemma matches_child:
  "s \<noteq> [] \<Longrightarrow> matches strtod (full c) s ps =
     (case take_fragment strtod c s ps of None \<Rightarrow> {} | Some (s', ps') \<Rightarrow> matches strtod (entries c) s' ps')"
proof -
  assume s: "s \<noteq> []"
  have "seg_match strtod (edge c @ sg) s ps =
      (case take_fragment strtod c s ps of None \<Rightarrow> None | Some (s', ps') \<Rightarrow> seg_match strtod sg s' ps')" for sg
    using s by (auto simp: edge_def take_fragment_def seg_match_literal Let_def split: option.splits)
  then show ?thesis by (auto simp: matches_def in_full split: option.splits)
qed

lemma best_update:
  assumes "best M r q" and "best N found mp" and "update_found (r, bp, q) (found, fbp, mp) = (r', bp', q')"
  shows "best (N \<union> M) r' q'"
proof -
  consider "M = {}" | "N = {}" | "M \<noteq> {}" "N \<noteq> {}" by blast
  then show ?thesis
  proof cases
    case 3
    then have m: "(r, q) \<in> M" "r \<noteq> 0" "\<And>i x. (i, x) \<in> M \<Longrightarrow> r \<le> i"
      and n: "(found, mp) \<in> N" "found \<noteq> 0" "\<And>i x. (i, x) \<in> N \<Longrightarrow> found \<le> i"
      using assms(1,2) by (auto simp: best_def split: if_splits)
    show ?thesis
    proof (cases "r < found")
      case True
      then have "r' = r" "q' = q" using assms(3) m(2) by (simp_all add: update_found_def)
      then show ?thesis using m n True by (auto simp: best_def intro: order.trans [OF less_imp_le])
    next
      case False
      then have "r' = found" "q' = mp" using assms(3) n(2) by (simp_all add: update_found_def)
      then show ?thesis using m n False by (auto simp: best_def not_less intro: order.trans)
    qed
  qed (use assms in \<open>auto simp: best_def update_found_def split: if_splits\<close>)
qed

lemma keyed_child: "keyed (Node r b k p cs) = list_all (\<lambda>c. (param c = P_MAX \<longrightarrow> node_key c \<noteq> []) \<and> keyed c) cs"
  by simp

lemma matches_empty_path:
  assumes "keyed (Node r b k p cs)"
  shows "matches strtod (entries (Node r b k p cs)) [] ps = (if r = 0 then {} else {(r, ps)})"
proof -
  have "matches strtod (full c) [] ps = {}" if "c \<in> set cs" for c
  proof -
    have "edge c \<noteq> []" using assms that by (auto simp: edge_def list_all_iff)
    then obtain x xs where "edge c = x # xs" by (cases "edge c") auto
    then have "seg_match strtod (edge c @ sg) [] ps = None" for sg by (cases x) auto
    then show ?thesis by (auto simp: matches_def in_full)
  qed
  then have "matches strtod (concat (map full cs)) [] ps = {}" by (auto simp: matches_def)
  then show ?thesis unfolding entries_full by (auto simp: matches_def)
qed

lemma matches_nonempty_path:
  "s \<noteq> [] \<Longrightarrow> matches strtod (entries (Node r b k p cs)) s ps = matches strtod (concat (map full cs)) s ps"
  unfolding entries_full by (auto simp: matches_def)

lemma find_finds_best:
  "keyed n \<Longrightarrow> find strtod n s ps bs = ((r, bp, q), bs') \<Longrightarrow> best (matches strtod (entries n) s ps) r q"
  "list_all (\<lambda>c. (param c = P_MAX \<longrightarrow> node_key c \<noteq> []) \<and> keyed c) cs \<Longrightarrow> s \<noteq> [] \<Longrightarrow>
   find_children strtod cs s ps bs acc ff = ((r, bp, q), bs') \<Longrightarrow> best N (fst acc) (snd (snd acc)) \<Longrightarrow>
   best (N \<union> matches strtod (concat (map full cs)) s ps) r q"
proof (induction strtod n s ps bs and strtod cs s ps bs acc ff
    arbitrary: r bp q bs' and r bp q bs' N rule: find_find_children.induct)
  case (1 strtod r0 b k p cs s ps bs)
  show ?case
  proof (cases "s = []")
    case True
    then show ?thesis using "1.prems" matches_empty_path [OF "1.prems"(1), of strtod ps] by (auto simp: best_def)
  next
    case False
    have "best {} 0 no_params" by (simp add: best_def)
    from "1.IH" [OF False _ False, of r bp q bs' "{}"] this "1.prems" False show ?thesis
      by (simp add: matches_nonempty_path)
  qed
next
  case (2 strtod s ps bs acc ff)
  then show ?case by (auto simp: matches_def split: if_splits)
next
  case (3 strtod c cs s ps bs acc ff)
  have m: "matches strtod (concat (map full (c # cs))) s ps = matches strtod (full c) s ps \<union> matches strtod (concat (map full cs)) s ps"
    by (simp add: matches_append)
  show ?case
  proof (cases "take_fragment strtod c s ps")
    case None
    then show ?thesis
      using "3.IH"(1) [OF None] "3.prems" matches_child [OF "3.prems"(2), of strtod c ps] unfolding m by simp
  next
    case (Some x)
    obtain s' ps' where x: "x = (s', ps')" by (cases x) auto
    define bs1 where "bs1 = (if blueprint_index c \<noteq> INVALID_BP_ID then bs @ [blueprint_index c] else bs)"
    obtain r1 bp1 q1 bs2 where f: "find strtod c s' ps' bs1 = ((r1, bp1, q1), bs2)" by (metis prod_cases3 surj_pair)
    obtain found fbp mp where a: "acc = (found, fbp, mp)" by (metis prod_cases3)
    obtain r2 bp2 q2 where u: "update_found (r1, bp1, q1) (found, fbp, mp) = (r2, bp2, q2)" by (metis prod_cases3)
    have "best (matches strtod (entries c) s' ps') r1 q1"
      using "3.IH"(2) [OF Some x [symmetric] bs1_def] f "3.prems"(1) by simp
    then have "best (N \<union> matches strtod (full c) s ps) r2 q2"
      using best_update [OF _ _ u] "3.prems"(4) a matches_child [OF "3.prems"(2), of strtod c ps] Some x by simp
    then show ?thesis
      using "3.IH"(3) [OF Some x [symmetric] bs1_def f [symmetric]] "3.prems" u f Some x a unfolding m
      by (simp add: bs1_def [symmetric] Un_assoc [symmetric])
  qed
qed


text \<open>The search from the root.\<close>

lemma find_url_best:
  "keyed head \<Longrightarrow> find_url strtod head url = (r, bp, q) \<Longrightarrow> best (matches strtod (entries head) url no_params) r q"
  using find_finds_best(1) [of head strtod url no_params "[]" r bp q] by (cases "find strtod head url no_params []") (auto simp: find_url_def)

section \<open>Adding a path adds its entry\<close>

lemma map_sum_Inr [simp]: "map_sum id g z = Inr y \<longleftrightarrow> (\<exists>x. z = Inr x \<and> y = g x)"
  by (cases z) auto

lemma child_for_splits:
  "child_for fits fresh f cs = Some (Inr cs') \<Longrightarrow>
   \<exists>pre c post c'. (cs = pre @ c # post \<and> fits c \<or> cs = pre \<and> c = fresh \<and> post = []) \<and> f c = Some (Inr c') \<and> cs' = pre @ c' # post"
proof (induction cs arbitrary: cs')
  case Nil
  then show ?case by auto
next
  case (Cons d cs)
  show ?case
  proof (cases "fits d")
    case True
    then obtain d' where "f d = Some (Inr d')" "cs' = [] @ d' # cs" using Cons.prems by auto
    then show ?thesis using True by blast
  next
    case False
    then obtain cs1 where "child_for fits fresh f cs = Some (Inr cs1)" "cs' = d # cs1"
      using Cons.prems by auto
    with Cons.IH obtain pre c post c' where
      "cs = pre @ c # post \<and> fits c \<or> cs = pre \<and> c = fresh \<and> post = []" "f c = Some (Inr c')" "cs' = (d # pre) @ c' # post"
      by (metis append_Cons)
    then show ?thesis by (metis append_Cons)
  qed
qed

lemma entries_fresh [simp]: "entries (Node 0 b k p []) = []"
  by (simp add: entries_full)

text \<open>One step down: the child keeps its edge, and the new entry gets the edge in front.\<close>

lemma in_children_entries:
  assumes "in_children (child_for fits fresh f) n = Some (Inr n')" and "unjoined n"
    and "entries fresh = []" and "unjoined fresh" and "one_char fresh"
    and "\<And>c. c = fresh \<or> fits c \<and> one_char c \<Longrightarrow> edge c = [x]"
    and "\<And>c c'. f c = Some (Inr c') \<Longrightarrow> unjoined c \<Longrightarrow> \<exists>segs. parsed = Some segs
      \<and> set (entries c') = insert (segs, ri) (set (entries c)) \<and> unjoined c' \<and> param c' = param c \<and> node_key c' = node_key c"
  shows "\<exists>segs. parsed = Some segs \<and> set (entries n') = insert (x # segs, ri) (set (entries n)) \<and> unjoined n'
    \<and> param n' = param n \<and> node_key n' = node_key n"
proof (cases n)
  case (Node r b k p cs)
  then obtain cs' where c: "child_for fits fresh f cs = Some (Inr cs')" and n': "n' = Node r b k p cs'"
    using assms(1) by (auto simp: in_children_def)
  obtain pre d post d' where s: "cs = pre @ d # post \<and> fits d \<or> cs = pre \<and> d = fresh \<and> post = []" "f d = Some (Inr d')" "cs' = pre @ d' # post"
    using child_for_splits [OF c] by blast
  have u: "unjoined d \<and> one_char d" using s(1) assms(2,4,5) Node by auto
  have e: "edge d = [x]" using s(1) u assms(6) by blast
  obtain segs where segs: "parsed = Some segs" and d': "set (entries d') = insert (segs, ri) (set (entries d))" "unjoined d'" "param d' = param d" "node_key d' = node_key d"
    using assms(7) [OF s(2)] u by auto
  then have "edge d' = [x]" using e by (simp only: edge_def)
  have "one_char d'" using u unfolding one_char_def d'(3,4) by (rule conjunct2)
  have "set (full d') = insert (x # segs, ri) (set (full d))" using d'(1) e \<open>edge d' = [x]\<close> by (auto simp: full_def)
  moreover have "set (full fresh) = {}" using assms(3) by (simp add: full_def)
  ultimately have "set (entries n') = insert (x # segs, ri) (set (entries n))"
    using s(1) unfolding n' Node entries_full s(3) by auto
  then show ?thesis using segs s(1) assms(2) d'(2) \<open>one_char d'\<close> by (auto simp: n' Node s(3))
qed

lemma param_at_known: "param_at s = Some (ty, name) \<Longrightarrow> ty \<noteq> P_MAX"
  by (auto simp: param_at_def paramTraits_def split: if_splits)

lemma add_from_entries:
  "add_from url ri bp_len bp i s n = Some (Inr n') \<Longrightarrow> unjoined n \<Longrightarrow> NUL \<notin> set s \<Longrightarrow> ri \<noteq> 0 \<Longrightarrow>
   \<exists>segs. parse_pattern s = Some segs \<and> set (entries n') = insert (segs, ri) (set (entries n)) \<and> unjoined n'
     \<and> param n' = param n \<and> node_key n' = node_key n"
proof (induction url ri bp_len bp i s n arbitrary: n' rule: add_from.induct)
  case (1 url ri bp_len bp i n)
  then show ?case by (cases n) (auto simp: entries_full split: if_splits)
next
  case (2 url ri bp_len bp i c s n)
  show ?case
  proof (cases "c = CHR ''<''")
    case True
    then obtain ty name where p: "param_at (c # s) = Some (ty, name)" using "2.prems"(1) by (auto split: option.splits)
    define rest where "rest = drop (length name - 1) s"
    have NUL: "NUL \<notin> set rest" using "2.prems"(3) by (auto simp: rest_def dest: in_set_dropD)
    have "\<exists>segs. parse_pattern rest = Some segs \<and> set (entries n') = insert (Par ty # segs, ri) (set (entries n)) \<and> unjoined n'
        \<and> param n' = param n \<and> node_key n' = node_key n"
    proof (rule in_children_entries)
      show "in_children (child_for (\<lambda>child. param child = ty) (Node 0 INVALID_BP_ID [] ty [])
          (add_from url ri bp_len bp (i + length name) rest)) n = Some (Inr n')"
        using "2.prems"(1) True p by (simp add: rest_def)
    qed (use "2.IH"(1) [OF True p refl] NUL "2.prems" param_at_known [OF p] in \<open>auto simp: one_char_def edge_def rest_def\<close>)
    then show ?thesis using True p by (auto simp: rest_def)
  next
    case False
    let ?bi = "if (bp_len \<noteq> 0 \<and> bp \<noteq> INVALID_BP_ID) \<and> i = bp_len then bp else INVALID_BP_ID"
    have "\<exists>segs. parse_pattern s = Some segs \<and> set (entries n') = insert (Lit c # segs, ri) (set (entries n)) \<and> unjoined n'
        \<and> param n' = param n \<and> node_key n' = node_key n"
    proof (rule in_children_entries)
      show "in_children (child_for (\<lambda>child. peek (node_key child) = c) (Node 0 ?bi [c] P_MAX [])
          (add_from url ri bp_len bp (i + 1) s)) n = Some (Inr n')"
        using "2.prems"(1) False by (simp add: Let_def)
      show "edge d = [Lit c]" if "d = Node 0 ?bi [c] P_MAX [] \<or> peek (node_key d) = c \<and> one_char d" for d
        using that "2.prems"(3) by (cases "node_key d") (auto simp: edge_def one_char_def split: if_splits)
    qed (use "2.IH"(2) [OF False refl] "2.prems" in \<open>auto simp: one_char_def\<close>)
    then show ?thesis using False by auto
  qed
qed


section \<open>The router's tree\<close>

text \<open>Paths registered one after the other, as the router does while it is built.\<close>

fun add_routes :: "(string \<times> 16 word) list \<Rightarrow> node \<Rightarrow> (exn + node) option" where
  "add_routes [] head = Some (Inr head)"
| "add_routes ((url, ri) # routes) head =
     (case add url ri 0 INVALID_BP_ID head of
        Some (Inr head) \<Rightarrow> add_routes routes head
      | r \<Rightarrow> r)"

lemma add_routes_entries:
  "add_routes routes head = Some (Inr head') \<Longrightarrow> unjoined head \<Longrightarrow> list_all (\<lambda>(u, i). NUL \<notin> set u \<and> i \<noteq> 0) routes \<Longrightarrow>
   unjoined head' \<and> set (entries head') = set (entries head) \<union> {(segs, i). \<exists>u. (u, i) \<in> set routes \<and> parse_pattern u = Some segs}"
proof (induction routes arbitrary: head)
  case (Cons r routes)
  obtain u i where r: "r = (u, i)" by (cases r)
  obtain head1 where a: "add u i 0 INVALID_BP_ID head = Some (Inr head1)" "add_routes routes head1 = Some (Inr head')"
    using Cons.prems(1) by (auto simp: r split: option.splits sum.splits)
  obtain segs where "parse_pattern u = Some segs" "set (entries head1) = insert (segs, i) (set (entries head))" "unjoined head1"
    using add_from_entries [OF a(1) [unfolded add_def] Cons.prems(2)] Cons.prems(3) by (auto simp: r)
  then show ?case using Cons.IH [OF a(2)] Cons.prems(3) by (auto simp: r)
qed simp

lemma lookup_best:
  assumes "add_routes routes new_node = Some (Inr head)" and "validate head = Inr head'"
    and "list_all (\<lambda>(u, i). NUL \<notin> set u \<and> i \<noteq> 0) routes" and "find_url strtod head' url = (r, bp, q)"
  shows "best {(i, ps). \<exists>u segs. (u, i) \<in> set routes \<and> parse_pattern u = Some segs \<and> seg_match strtod segs url no_params = Some ps} r q"
proof -
  have "unjoined new_node" "entries new_node = []" by (simp_all add: new_node_def)
  note e = add_routes_entries [OF assms(1) this(1) assms(3), unfolded this(2)]
  have h: "head' = optimize head" using assms(2) by (auto simp: validate_def split: if_splits)
  have m: "matches strtod (entries head') url no_params =
      {(i, ps). \<exists>u segs. (u, i) \<in> set routes \<and> parse_pattern u = Some segs \<and> seg_match strtod segs url no_params = Some ps}"
    using e unfolding h entries_optimize matches_def by auto
  have "keyed head'" using e unfolding h by (auto intro: keyed_optimize unjoined_keyed)
  then show ?thesis unfolding m [symmetric] by (rule find_url_best [OF _ assms(4)])
qed

text \<open>
  C39: routing. In the tree built from any list of paths and then optimised, the lookup of a request's
  path finds the lowest rule index among the paths that match it, with the parameters of that path, and
  zero when none matches.
\<close>

theorem lookup_least_rule:
  assumes "add_routes routes new_node = Some (Inr head)" and "validate head = Inr head'"
    and "list_all (\<lambda>(u, i). NUL \<notin> set u \<and> i \<noteq> 0) routes" and "find_url strtod head' url = (r, bp, q)"
  shows "let found = {(i, ps). \<exists>u segs. (u, i) \<in> set routes \<and> parse_pattern u = Some segs \<and> seg_match strtod segs url no_params = Some ps}
    in if found = {} then r = 0 else (r, q) \<in> found \<and> r = Min (fst ` found)"
proof -
  define found where "found = {(i, ps). \<exists>u segs. (u, i) \<in> set routes \<and> parse_pattern u = Some segs \<and> seg_match strtod segs url no_params = Some ps}"
  have b: "best found r q"
    unfolding found_def by (rule lookup_best [OF assms(1-3) assms(4)])
  have "finite (fst ` found)" by (rule finite_subset [of _ "snd ` set routes"]) (force simp: found_def)+
  then have "found \<noteq> {} \<Longrightarrow> r = Min (fst ` found)" using b by (intro Min_eqI [symmetric]) (auto simp: best_def split: if_splits intro: rev_image_eqI)
  then show ?thesis using b unfolding Let_def found_def [symmetric] by (cases "found = {}") (auto simp: best_def)
qed

definition demo_routes :: "(string \<times> 16 word) list" where
  "demo_routes = [(''/a/<string>'', 2), (''/a/b'', 3), (''/a/<int>/c'', 4)]"

definition demo_tree :: node where
  "demo_tree = (case add_routes demo_routes new_node of Some (Inr head) \<Rightarrow> head | _ \<Rightarrow> new_node)"

theorem lookup_least_rule_witness:
  "let found = {(i, ps). \<exists>u segs. (u, i) \<in> set demo_routes \<and> parse_pattern u = Some segs
      \<and> seg_match (\<lambda>_. None :: (unit \<times> nat) option) segs ''/a/b'' no_params = Some ps}
   in (2, no_params\<lparr>string_params := [''b'']\<rparr>) \<in> found \<and> 2 = Min (fst ` found)"
proof -
  have a: "add_routes demo_routes new_node = Some (Inr demo_tree)" by code_simp
  have v: "validate demo_tree = Inr (optimize demo_tree)" by code_simp
  have l: "list_all (\<lambda>(u, i). NUL \<notin> set u \<and> i \<noteq> 0) demo_routes" by code_simp
  have f: "find_url (\<lambda>_. None :: (unit \<times> nat) option) (optimize demo_tree) ''/a/b'' = (2, [], no_params\<lparr>string_params := [''b'']\<rparr>)"
    by code_simp
  from lookup_least_rule [OF a v l f] show ?thesis by (simp add: Let_def split: if_splits)
qed

section \<open>When adding returns\<close>

lemma in_children_None:
  assumes "\<And>c. f c = None \<longleftrightarrow> P"
  shows "in_children (child_for fits fresh f) n = None \<longleftrightarrow> P"
proof -
  have "child_for fits fresh f cs = None \<longleftrightarrow> P" for cs
    by (induction cs) (auto simp: assms)
  then show ?thesis by (simp add: in_children_def)
qed

lemma add_from_None: "add_from url ri bp_len bp i s n = None \<longleftrightarrow> parse_pattern s = None"
proof (induction url ri bp_len bp i s n rule: add_from.induct)
  case (2 url ri bp_len bp i c s n)
  show ?case
  proof (cases "c = CHR ''<''")
    case True
    then show ?thesis using "2.IH"(1) by (auto simp: in_children_None split: option.split)
  next
    case False
    then show ?thesis using "2.IH"(2) by (simp add: in_children_None Let_def)
  qed
qed simp

text \<open>A character that opens no parameter.\<close>

definition stray :: "string \<Rightarrow> bool" where
  "stray s \<longleftrightarrow> s \<noteq> [] \<and> hd s = CHR ''<'' \<and> list_all (\<lambda>x. take (length (snd x)) s \<noteq> snd x) paramTraits"

lemma param_at_stray: "param_at (CHR ''<'' # s) = None \<longleftrightarrow> stray (CHR ''<'' # s)"
  by (auto simp: param_at_def stray_def find_None_iff list_all_iff)

lemma param_names: "x \<in> set paramTraits \<Longrightarrow> snd x \<noteq> [] \<and> CHR ''<'' \<notin> set (tl (snd x))"
  by (auto simp: paramTraits_def)

lemma param_at_Some:
  assumes "param_at s = Some (ty, name)"
  shows "take (length name) s = name \<and> name \<noteq> [] \<and> CHR ''<'' \<notin> set (tl name)"
proof -
  have "(ty, name) \<in> set paramTraits" "take (length name) s = name"
    using assms by (auto simp: param_at_def find_Some_iff in_set_conv_nth) (metis snd_conv)
  then show ?thesis using param_names [of "(ty, name)"] by simp
qed

lemma parse_pattern_stray: "parse_pattern s = None \<longleftrightarrow> (\<exists>i. stray (drop i s))"
proof (induction s rule: parse_pattern.induct)
  case 1
  then show ?case by (simp add: stray_def)
next
  case (2 c s)
  have split: "(\<exists>i. stray (drop i (c # s))) \<longleftrightarrow> stray (c # s) \<or> (\<exists>i. stray (drop i s))"
    by (metis drop_0 drop_Suc_Cons not0_implies_Suc)
  show ?case
  proof (cases "c = CHR ''<''")
    case False
    then show ?thesis using "2.IH"(2) split by (simp add: stray_def)
  next
    case True
    show ?thesis
    proof (cases "param_at (c # s)")
      case None
      then show ?thesis using True param_at_stray [of s] split by simp
    next
      case (Some x)
      obtain ty name where x: "x = (ty, name)" by (cases x)
      note name = param_at_Some [OF Some [unfolded x]]
      obtain ns where n: "name = c # ns" using name by (cases name) auto
      then have ns: "take (length ns) s = ns" "CHR ''<'' \<notin> set ns" using name by auto
      have "\<not> stray (c # s)" using True Some param_at_stray [of s] by auto
      moreover have "(\<exists>i. stray (drop i s)) \<longleftrightarrow> (\<exists>i. stray (drop i (drop (length ns) s)))"
      proof
        assume "\<exists>i. stray (drop i s)"
        then obtain i where i: "stray (drop i s)" by blast
        have "length ns \<le> i"
        proof (rule ccontr)
          assume "\<not> length ns \<le> i"
          moreover have "drop i s \<noteq> []" "hd (drop i s) = CHR ''<''" using i by (auto simp: stray_def)
          ultimately have "ns ! i = CHR ''<''" using ns(1) by (metis drop_eq_Nil2 hd_drop_conv_nth not_le nth_take)
          then show False using ns(2) \<open>\<not> length ns \<le> i\<close> by (metis not_le nth_mem)
        qed
        then show "\<exists>i. stray (drop i (drop (length ns) s))" using i by (metis drop_drop le_add_diff_inverse2)
      qed (auto intro: exI)
      ultimately show ?thesis using True Some x n split "2.IH"(1) [OF True Some [unfolded x] refl] by simp
    qed
  qed
qed

text \<open>
  C40: registering a path returns, with a tree or with the exception for a path that is there already,
  exactly when no \<open><\<close> in the path fails to open one of the seven parameter names; otherwise its loop
  never ends.
\<close>

theorem add_returns: "add url ri bp_len bp head \<noteq> None \<longleftrightarrow> \<not> (\<exists>i. stray (drop i url))"
  unfolding add_def add_from_None parse_pattern_stray by simp

end
