(* ===== verification/Router.thy ===== *)
theory Router
  imports Route_Trie Web_Http
begin

text \<open>
  src/src/crowlib/crow/routing.h and common.h: methods, rules and the class \<open>Router\<close> over one tree per
  method. The program registers no blueprint and no catchall rule; those parts are left out. A rule
  names what it runs (\<open>'h\<close>): a request handler, or what an upgraded connection is served by.
\<close>

section \<open>Methods\<close>

datatype HTTPMethod =
    DELETE | GET | HEAD | POST | PUT | CONNECT | OPTIONS | TRACE | PATCH | PURGE
  | COPY | LOCK | MKCOL | MOVE | PROPFIND | PROPPATCH | SEARCH | UNLOCK | BIND | REBIND | UNBIND | ACL
  | REPORT | MKACTIVITY | CHECKOUT | MERGE | MSEARCH | NOTIFY | SUBSCRIBE | UNSUBSCRIBE
  | MKCALENDAR | LINK | UNLINK | SOURCE

text \<open>The values of the enumeration, in order, and their names.\<close>

definition all_methods :: "HTTPMethod list" where
  "all_methods =
     [DELETE, GET, HEAD, POST, PUT, CONNECT, OPTIONS, TRACE, PATCH, PURGE,
      COPY, LOCK, MKCOL, MOVE, PROPFIND, PROPPATCH, SEARCH, UNLOCK, BIND, REBIND, UNBIND, ACL,
      REPORT, MKACTIVITY, CHECKOUT, MERGE, MSEARCH, NOTIFY, SUBSCRIBE, UNSUBSCRIBE,
      MKCALENDAR, LINK, UNLINK, SOURCE]"

definition method_strings :: "string list" where
  "method_strings =
     [''DELETE'', ''GET'', ''HEAD'', ''POST'', ''PUT'', ''CONNECT'', ''OPTIONS'', ''TRACE'', ''PATCH'', ''PURGE'',
      ''COPY'', ''LOCK'', ''MKCOL'', ''MOVE'', ''PROPFIND'', ''PROPPATCH'', ''SEARCH'', ''UNLOCK'', ''BIND'', ''REBIND'', ''UNBIND'', ''ACL'',
      ''REPORT'', ''MKACTIVITY'', ''CHECKOUT'', ''MERGE'', ''M-SEARCH'', ''NOTIFY'', ''SUBSCRIBE'', ''UNSUBSCRIBE'',
      ''MKCALENDAR'', ''LINK'', ''UNLINK'', ''SOURCE'']"

definition method_index :: "HTTPMethod \<Rightarrow> nat" where
  "method_index m = length (takeWhile (\<lambda>x. x \<noteq> m) all_methods)"

definition method_name :: "HTTPMethod \<Rightarrow> string" where
  "method_name m = method_strings ! method_index m"

section \<open>Rules\<close>

record 'h rule =
  rule_text :: string
  rule_methods :: u32
  is_websocket :: bool
  rule_handler :: 'h

text \<open>\<open>methods(m)\<close>; a shift by 32 or more has no meaning.\<close>

definition method_mask :: "HTTPMethod \<Rightarrow> exn + u32" where
  "method_mask m =
     (if 32 \<le> method_index m then Inl (Undefined ''1 << method'') else Inr (push_bit (method_index m) 1))"

definition foreach_method :: "u32 \<Rightarrow> HTTPMethod list" where
  "foreach_method bits = filter (\<lambda>m. bits AND push_bit (method_index m) 1 \<noteq> 0) all_methods"

definition rule_validate :: "'h rule \<Rightarrow> exn + unit" where
  "rule_validate r =
     (if is_websocket r then Inr ()
      else if rule_text r = [] then Inl (Runtime_Error ''basic_string::at'')
      else if hd (rule_text r) \<noteq> CHR ''/'' then Inl (Runtime_Error ''Internal error: Routes must start with a /'')
      else Inr ())"

section \<open>The tables\<close>

record 'h per_method =
  rules :: "'h rule option list"
  trie :: node

type_synonym 'h router = "HTTPMethod \<Rightarrow> 'h per_method"

definition new_router :: "'h router" where
  "new_router = (\<lambda>_. \<lparr>rules = [None, None], trie = new_node\<rparr>)"

definition RULE_SPECIAL_REDIRECT_SLASH :: "16 word" where
  "RULE_SPECIAL_REDIRECT_SLASH = 1"

definition then_add :: "string \<Rightarrow> 16 word \<Rightarrow> (exn + node) option \<Rightarrow> (exn + node) option" where
  "then_add url ri r = (case r of Some (Inr t) \<Rightarrow> add url ri 0 INVALID_BP_ID t | _ \<Rightarrow> r)"

text \<open>A rule in the tables of one of its methods; \<open>None\<close> when \<open>add\<close> does not return.\<close>

definition add_to_method :: "'h rule \<Rightarrow> 'h per_method \<Rightarrow> (exn + 'h per_method) option" where
  "add_to_method r pm =
     (let has_trailing_slash = 1 < length (rule_text r) \<and> last (rule_text r) = CHR ''/'';
          rs = rules pm @ [Some r];
          t = add (rule_text r) (word_of_nat (length rs - 1)) 0 INVALID_BP_ID (trie pm);
          t = (if has_trailing_slash then then_add (butlast (rule_text r)) RULE_SPECIAL_REDIRECT_SLASH t else t)
      in map_option (map_sum id (\<lambda>t. \<lparr>rules = rs, trie = t\<rparr>)) t)"

fun add_to_methods :: "'h rule \<Rightarrow> HTTPMethod list \<Rightarrow> 'h router \<Rightarrow> (exn + 'h router) option" where
  "add_to_methods r [] router = Some (Inr router)"
| "add_to_methods r (m # ms) router =
     (case add_to_method r (router m) of
        None \<Rightarrow> None
      | Some (Inl e) \<Rightarrow> Some (Inl e)
      | Some (Inr pm) \<Rightarrow> add_to_methods r ms (router(m := pm)))"

definition internal_add_rule_object :: "'h rule \<Rightarrow> 'h router \<Rightarrow> (exn + 'h router) option" where
  "internal_add_rule_object r router = add_to_methods r (foreach_method (rule_methods r)) router"

fun add_rules :: "'h rule list \<Rightarrow> 'h router \<Rightarrow> (exn + 'h router) option" where
  "add_rules [] router = Some (Inr router)"
| "add_rules (r # rs) router =
     (case rule_validate r of
        Inl e \<Rightarrow> Some (Inl e)
      | Inr _ \<Rightarrow>
          (case internal_add_rule_object r router of
             Some (Inr router) \<Rightarrow> add_rules rs router
           | x \<Rightarrow> x))"

fun validate_tries :: "HTTPMethod list \<Rightarrow> 'h router \<Rightarrow> exn + 'h router" where
  "validate_tries [] router = Inr router"
| "validate_tries (m # ms) router =
     exn_bind (validate (trie (router m))) (\<lambda>t. validate_tries ms (router(m := (router m)\<lparr>trie := t\<rparr>)))"

text \<open>\<open>Router::validate\<close> for the rules registered, in order.\<close>

definition router_validate :: "'h rule list \<Rightarrow> (exn + 'h router) option" where
  "router_validate rs =
     (case add_rules rs new_router of
        Some (Inr router) \<Rightarrow> Some (validate_tries all_methods router)
      | x \<Rightarrow> x)"

section \<open>Responses under way\<close>

record res_state =
  resp :: response
  completed :: bool
  skip_body :: bool
  manual_length_header :: bool

definition new_res :: res_state where
  "new_res = \<lparr>resp = response_code 200, completed = False, skip_body = False, manual_length_header = False\<rparr>"

text \<open>\<open>res = response(...)\<close> keeps the two flags of the object it assigns to.\<close>

definition res_assign :: "response \<Rightarrow> res_state \<Rightarrow> res_state" where
  "res_assign r s = s\<lparr>resp := r, completed := False\<rparr>"

definition res_end :: "res_state \<Rightarrow> res_state" where
  "res_end s =
     (if completed s then s
      else if skip_body s
      then s\<lparr>completed := True, manual_length_header := True,
             resp := (set_header ''Content-Length'' (to_string (int (length (body (resp s))))) (resp s))\<lparr>body := []\<rparr>\<rparr>
      else s\<lparr>completed := True\<rparr>)"

definition res_fail :: "int \<Rightarrow> res_state \<Rightarrow> res_state" where
  "res_fail c s = res_end (res_assign (response_code c) s)"

section \<open>Looking a request up\<close>

definition lookup :: "'f strtod \<Rightarrow> 'h router \<Rightarrow> HTTPMethod \<Rightarrow> string \<Rightarrow> 16 word \<times> 'f routing_params" where
  "lookup strtod router m url = (let (r, _, ps) = find_url strtod (trie (router m)) url in (r, ps))"

text \<open>\<open>get_error\<close> without a catchall rule.\<close>

definition get_error :: "int \<Rightarrow> res_state \<Rightarrow> res_state" where
  "get_error c s = s\<lparr>resp := (resp s)\<lparr>code := c\<rparr>\<rparr>"

definition append_name :: "HTTPMethod \<Rightarrow> string \<Rightarrow> string" where
  "append_name m allow = allow @ '', '' @ method_name m"

definition allow_all :: "'h router \<Rightarrow> string" where
  "allow_all router =
     fold (\<lambda>m allow. if m = HEAD then allow else if \<not> is_empty (trie (router m)) then append_name m allow else allow)
       all_methods ''OPTIONS, HEAD''"

definition allow_matching :: "'f strtod \<Rightarrow> 'h router \<Rightarrow> string \<Rightarrow> bool \<times> string" where
  "allow_matching strtod router url =
     fold (\<lambda>m (matched, allow).
             if fst (lookup strtod router m url) \<noteq> 0
             then (True, if m = HEAD then allow else append_name m allow) else (matched, allow))
       all_methods (False, ''OPTIONS, HEAD'')"

definition options_ok :: "string \<Rightarrow> res_state \<Rightarrow> res_state" where
  "options_ok allow s =
     (let s = res_assign (response_code 204) s in res_end (s\<lparr>resp := set_header ''Allow'' allow (resp s)\<rparr>))"

text \<open>The rule found, zero where the response is already complete; its parameters and its method.\<close>

definition handle_initial ::
    "'f strtod \<Rightarrow> 'h router \<Rightarrow> HTTPMethod \<Rightarrow> string \<Rightarrow> res_state
     \<Rightarrow> (16 word \<times> 'f routing_params \<times> HTTPMethod) \<times> res_state" where
  "handle_initial strtod router m url res =
     (if m = HEAD
      then let (r, ps) = lookup strtod router HEAD url;
               (r, ps, actual) = (if r = 0 then let (r, ps) = lookup strtod router GET url in (r, ps, GET) else (r, ps, HEAD))
        in if r = 0 then ((0, ps, actual), res_fail 404 res)
           else ((r, ps, actual), res\<lparr>skip_body := True\<rparr>)
      else if m = OPTIONS
      then if url = ''/*'' then ((0, no_params, OPTIONS), options_ok (allow_all router) res)
           else let (matched, allow) = allow_matching strtod router url
             in if matched then ((0, no_params, OPTIONS), options_ok allow res)
                else ((0, no_params, OPTIONS), res_fail 404 res)
      else let (r, ps) = lookup strtod router m url
        in if r = 0
           then if list_ex (\<lambda>m'. fst (lookup strtod router m' url) \<noteq> 0) all_methods
                then ((0, ps, m), res_end (get_error 405 res))
                else ((0, ps, m), res_end (get_error 404 res))
           else ((r, ps, m), res))"

text \<open>What becomes of a request: an answer, or a handler to run with its parameters.\<close>

datatype ('h, 'f) dispatched = Answered res_state | Call 'h "'f routing_params" res_state | Throws exn

definition redirect_slash :: "string \<Rightarrow> res_state \<Rightarrow> res_state" where
  "redirect_slash url s =
     (let s = res_assign (response_code 301) s in res_end (s\<lparr>resp := add_header ''Location'' (url @ ''/'') (resp s)\<rparr>))"

definition rule_of :: "'h router \<Rightarrow> HTTPMethod \<Rightarrow> 16 word \<Rightarrow> 'h rule option" where
  "rule_of router m r = rules (router m) ! unat r"

definition handle_found ::
    "'h router \<Rightarrow> string \<Rightarrow> 16 word \<times> 'f routing_params \<times> HTTPMethod \<Rightarrow> res_state \<Rightarrow> ('h, 'f) dispatched" where
  "handle_found router url found res =
     (let (r, ps, m) = found
      in if length (rules (router m)) \<le> unat r then Throws (Runtime_Error ''Trie internal structure corrupted!'')
         else if r = RULE_SPECIAL_REDIRECT_SLASH then Answered (redirect_slash url res)
         else case rule_of router m r of
                None \<Rightarrow> Throws (Undefined ''rules[0]'')
              | Some rl \<Rightarrow> if is_websocket rl then Answered (res_fail 404 res) else Call (rule_handler rl) ps res)"

definition handle_upgrade ::
    "'f strtod \<Rightarrow> 'h router \<Rightarrow> HTTPMethod \<Rightarrow> string \<Rightarrow> res_state \<Rightarrow> ('h, 'f) dispatched" where
  "handle_upgrade strtod router m url res =
     (let (r, ps) = lookup strtod router m url
      in if r = 0
         then if list_ex (\<lambda>m'. fst (lookup strtod router m' url) \<noteq> 0) all_methods
              then Answered (res_fail 405 res) else Answered (res_fail 404 res)
         else if length (rules (router m)) \<le> unat r then Throws (Runtime_Error ''Trie internal structure corrupted!'')
         else if r = RULE_SPECIAL_REDIRECT_SLASH then Answered (redirect_slash url res)
         else case rule_of router m r of
                None \<Rightarrow> Throws (Undefined ''rules[0]'')
              | Some rl \<Rightarrow> if is_websocket rl then Call (rule_handler rl) ps res else Answered (res_fail 404 res))"

text \<open>\<open>Crow::handle_full\<close> of app.h, what a connection does with a request that is no upgrade.\<close>

definition handle_full :: "'f strtod \<Rightarrow> 'h router \<Rightarrow> HTTPMethod \<Rightarrow> string \<Rightarrow> res_state \<Rightarrow> ('h, 'f) dispatched" where
  "handle_full strtod router m url res =
     (let (found, res) = handle_initial strtod router m url res
      in if fst found \<noteq> 0 then handle_found router url found res else Answered res)"

section \<open>The tables of a validated router\<close>

lemma all_methods_complete [simp]: "m \<in> set all_methods"
  by (cases m) (simp_all add: all_methods_def)

lemma distinct_all_methods [simp]: "distinct all_methods"
  by (simp add: all_methods_def)

definition slashed :: "'h rule \<Rightarrow> bool" where
  "slashed r \<longleftrightarrow> 1 < length (rule_text r) \<and> last (rule_text r) = CHR ''/''"

fun routes_from :: "nat \<Rightarrow> 'h rule list \<Rightarrow> (string \<times> 16 word) list" where
  "routes_from k [] = []"
| "routes_from k (r # rs) =
     (rule_text r, word_of_nat k) # (if slashed r then [(butlast (rule_text r), RULE_SPECIAL_REDIRECT_SLASH)] else [])
     @ routes_from (Suc k) rs"

definition rules_for :: "HTTPMethod \<Rightarrow> 'h rule list \<Rightarrow> 'h rule list" where
  "rules_for m rs = filter (\<lambda>r. m \<in> set (foreach_method (rule_methods r))) rs"

lemma add_routes_append:
  "add_routes (xs @ ys) head = (case add_routes xs head of Some (Inr h) \<Rightarrow> add_routes ys h | r \<Rightarrow> r)"
proof (induction xs arbitrary: head)
  case (Cons x xs)
  obtain u i where x: "x = (u, i)" by (cases x)
  then show ?case
  proof (cases "add u i 0 INVALID_BP_ID head")
    case (Some y)
    then show ?thesis using Cons x by (cases y) auto
  qed simp
qed simp

lemma add_to_method_routes:
  assumes "add_to_method r pm = Some (Inr pm')"
  shows "rules pm' = rules pm @ [Some r] \<and> add_routes (routes_from (length (rules pm)) [r]) (trie pm) = Some (Inr (trie pm'))"
proof (cases "slashed r")
  case True
  then show ?thesis using assms
    by (auto simp: add_to_method_def Let_def slashed_def then_add_def split: option.splits sum.splits if_splits)
next
  case False
  then show ?thesis using assms
    by (auto simp: add_to_method_def Let_def slashed_def split: option.splits sum.splits if_splits)
qed

lemma add_to_methods_each:
  "add_to_methods r ms router = Some (Inr router') \<Longrightarrow> distinct ms \<Longrightarrow>
   (if m \<in> set ms then add_to_method r (router m) = Some (Inr (router' m)) else router' m = router m)"
proof (induction ms arbitrary: router)
  case (Cons m0 ms)
  obtain pm where "add_to_method r (router m0) = Some (Inr pm)" "add_to_methods r ms (router(m0 := pm)) = Some (Inr router')"
    using Cons.prems(1) by (auto split: option.splits sum.splits)
  note a = this
  obtain router1 where r1: "router1 = router(m0 := pm)" by simp
  then have "router1 m = (if m = m0 then pm else router m)" by simp
  with Cons.IH [of router1] a(2) [folded r1] a(1) Cons.prems(2) show ?case by (cases "m = m0") auto
qed simp

lemma distinct_foreach [simp]: "distinct (foreach_method ms)"
  by (simp add: foreach_method_def)

lemma routes_from_Cons: "routes_from k (r # rs) = routes_from k [r] @ routes_from (Suc k) rs"
  by simp

lemma add_rules_tables:
  "add_rules rs router = Some (Inr router') \<Longrightarrow>
   rules (router' m) = rules (router m) @ map Some (rules_for m rs)
   \<and> add_routes (routes_from (length (rules (router m))) (rules_for m rs)) (trie (router m)) = Some (Inr (trie (router' m)))"
proof (induction rs arbitrary: router)
  case Nil
  then show ?case by (simp add: rules_for_def)
next
  case (Cons r rs)
  obtain router1 where a: "internal_add_rule_object r router = Some (Inr router1)" "add_rules rs router1 = Some (Inr router')"
    using Cons.prems by (auto split: option.splits sum.splits)
  note one = add_to_methods_each [OF a(1) [unfolded internal_add_rule_object_def] distinct_foreach, of m]
  note ih = Cons.IH [OF a(2)]
  show ?case
  proof (cases "m \<in> set (foreach_method (rule_methods r))")
    case True
    then have t: "rules (router1 m) = rules (router m) @ [Some r]"
        "add_routes (routes_from (length (rules (router m))) [r]) (trie (router m)) = Some (Inr (trie (router1 m)))"
      using one add_to_method_routes [of r "router m" "router1 m"] by simp_all
    have f: "rules_for m (r # rs) = r # rules_for m rs" using True by (simp add: rules_for_def)
    have "routes_from (length (rules (router m))) (rules_for m (r # rs)) =
        routes_from (length (rules (router m))) [r] @ routes_from (length (rules (router1 m))) (rules_for m rs)"
      unfolding f t(1) by simp
    then show ?thesis using ih t f by (simp only: add_routes_append) simp
  next
    case False
    then have "rules_for m (r # rs) = rules_for m rs" by (simp add: rules_for_def)
    then show ?thesis using ih one False by simp
  qed
qed

lemma validate_tries_each:
  "validate_tries ms router = Inr router' \<Longrightarrow> distinct ms \<Longrightarrow>
   rules (router' m) = rules (router m)
   \<and> (if m \<in> set ms then validate (trie (router m)) = Inr (trie (router' m)) else router' m = router m)"
proof (induction ms arbitrary: router)
  case (Cons m0 ms)
  obtain t where "validate (trie (router m0)) = Inr t" "validate_tries ms (router(m0 := (router m0)\<lparr>trie := t\<rparr>)) = Inr router'"
    using Cons.prems(1) by (auto simp: exn_bind_Inr)
  note a = this
  obtain router1 where r1: "router1 = router(m0 := (router m0)\<lparr>trie := t\<rparr>)" by simp
  then have "router1 m = (if m = m0 then (router m0)\<lparr>trie := t\<rparr> else router m)" by simp
  with Cons.IH [of router1] a(2) [folded r1] a(1) Cons.prems(2) show ?case by (cases "m = m0") auto
qed simp

lemma router_tables:
  assumes "router_validate rs = Some (Inr router)"
  shows "rules (router m) = [None, None] @ map Some (rules_for m rs)
    \<and> (\<exists>t. add_routes (routes_from 2 (rules_for m rs)) new_node = Some (Inr t) \<and> validate t = Inr (trie (router m)))"
proof -
  obtain router1 where r1: "add_rules rs new_router = Some (Inr router1)" "validate_tries all_methods router1 = Inr router"
    using assms by (auto simp: router_validate_def split: option.splits sum.splits)
  then show ?thesis
    using add_rules_tables [OF r1(1), of m] validate_tries_each [OF r1(2) distinct_all_methods, of m]
    by (auto simp: new_router_def numeral_2_eq_2)
qed

section \<open>The first rule that matches\<close>

definition pattern_match :: "'f strtod \<Rightarrow> string \<Rightarrow> string \<Rightarrow> 'f routing_params option" where
  "pattern_match strtod u url = (case parse_pattern u of None \<Rightarrow> None | Some segs \<Rightarrow> seg_match strtod segs url no_params)"

fun first_match :: "'f strtod \<Rightarrow> 'h rule list \<Rightarrow> string \<Rightarrow> (nat \<times> 'f routing_params) option" where
  "first_match strtod [] url = None"
| "first_match strtod (r # rs) url =
     (case pattern_match strtod (rule_text r) url of
        Some ps \<Rightarrow> Some (0, ps)
      | None \<Rightarrow> map_option (apfst Suc) (first_match strtod rs url))"

definition slash_match :: "'f strtod \<Rightarrow> 'h rule list \<Rightarrow> string \<Rightarrow> bool" where
  "slash_match strtod rs url \<longleftrightarrow> list_ex (\<lambda>r. slashed r \<and> pattern_match strtod (butlast (rule_text r)) url \<noteq> None) rs"

definition hits :: "'f strtod \<Rightarrow> (string \<times> 16 word) list \<Rightarrow> string \<Rightarrow> (16 word \<times> 'f routing_params) set" where
  "hits strtod routes url = {(i, ps). \<exists>u segs. (u, i) \<in> set routes \<and> parse_pattern u = Some segs \<and> seg_match strtod segs url no_params = Some ps}"

lemma hits_Nil [simp]: "hits strtod [] url = {}"
  by (simp add: hits_def)

lemma hits_Cons: "hits strtod ((u, i) # routes) url =
    (case pattern_match strtod u url of None \<Rightarrow> {} | Some ps \<Rightarrow> {(i, ps)}) \<union> hits strtod routes url"
  by (auto simp: hits_def pattern_match_def split: option.splits)

lemma hits_bound:
  "(i, ps) \<in> hits strtod (routes_from k rs) url \<Longrightarrow> \<not> slash_match strtod rs url \<Longrightarrow> k + length rs \<le> 65536 \<Longrightarrow> k \<le> unat i"
proof (induction rs arbitrary: k)
  case (Cons r rs)
  have "\<not> slash_match strtod rs url" using Cons.prems(2) by (simp add: slash_match_def)
  moreover have "unat (word_of_nat k :: 16 word) = k" using Cons.prems(3) by (simp add: unat_of_nat)
  ultimately show ?case using Cons.IH [of "Suc k"] Cons.prems
    by (auto simp: hits_Cons slash_match_def split: option.splits if_splits)
qed simp

lemma best_first_match:
  "best (hits strtod (routes_from k rs) url) r q \<Longrightarrow> \<not> slash_match strtod rs url \<Longrightarrow> k + length rs \<le> 65536 \<Longrightarrow> 0 < k \<Longrightarrow>
   (case first_match strtod rs url of None \<Rightarrow> r = 0 | Some (j, ps) \<Rightarrow> r \<noteq> 0 \<and> unat r = k + j \<and> q = ps \<and> j < length rs)"
proof (induction rs arbitrary: k)
  case Nil
  then show ?case by (simp add: best_def)
next
  case (Cons rl rs)
  have s: "\<not> slash_match strtod rs url" using Cons.prems(2) by (simp add: slash_match_def)
  have k: "unat (word_of_nat k :: 16 word) = k" using Cons.prems(3) by (simp add: unat_of_nat)
  have h: "hits strtod (routes_from k (rl # rs)) url =
      (case pattern_match strtod (rule_text rl) url of None \<Rightarrow> {} | Some ps \<Rightarrow> {(word_of_nat k, ps)})
      \<union> hits strtod (routes_from (Suc k) rs) url"
    using Cons.prems(2) by (auto simp: hits_Cons slash_match_def split: option.splits)
  show ?case
  proof (cases "pattern_match strtod (rule_text rl) url")
    case None
    then show ?thesis using Cons.IH [of "Suc k"] Cons.prems s h by (auto split: option.splits)
  next
    case (Some ps)
    have rest: "(i, x) \<in> hits strtod (routes_from (Suc k) rs) url \<Longrightarrow> Suc k \<le> unat i" for i x
      using hits_bound [OF _ s] Cons.prems(3) by simp
    have b: "(r, q) \<in> insert (word_of_nat k, ps) (hits strtod (routes_from (Suc k) rs) url)" "r \<le> word_of_nat k" "r \<noteq> 0"
      using Cons.prems(1) unfolding h Some by (auto simp: best_def)
    have "unat r \<le> k" using b(2) k by (simp add: word_le_nat_alt)
    have "(r, q) = (word_of_nat k, ps)"
    proof (rule ccontr)
      assume "(r, q) \<noteq> (word_of_nat k, ps)"
      then have "(r, q) \<in> hits strtod (routes_from (Suc k) rs) url" using b(1) by blast
      then have "Suc k \<le> unat r" by (rule rest)
      then show False using \<open>unat r \<le> k\<close> by simp
    qed
    then show ?thesis using Some k b(3) by simp
  qed
qed

lemma best_slash:
  assumes "best (hits strtod (routes_from k rs) url) r q" and "slash_match strtod rs url"
  shows "r = RULE_SPECIAL_REDIRECT_SLASH"
proof -
  have "\<exists>ps. (RULE_SPECIAL_REDIRECT_SLASH, ps) \<in> hits strtod (routes_from k rs) url"
    using assms(2)
  proof (induction rs arbitrary: k)
    case (Cons rl rs)
    then show ?case by (auto simp: hits_Cons slash_match_def split: option.splits)
  qed (simp add: slash_match_def)
  then obtain ps where "(RULE_SPECIAL_REDIRECT_SLASH, ps) \<in> hits strtod (routes_from k rs) url" by blast
  then have "r \<noteq> 0" "r \<le> RULE_SPECIAL_REDIRECT_SLASH"
    using assms(1) unfolding best_def by (metis empty_iff, metis (no_types, lifting) case_prodD empty_iff)
  then have "unat r \<noteq> 0" "unat r \<le> 1" by (simp_all add: RULE_SPECIAL_REDIRECT_SLASH_def word_le_nat_alt unat_eq_zero)
  then have "unat r = 1" by linarith
  then show ?thesis by (simp add: RULE_SPECIAL_REDIRECT_SLASH_def word_unat_eq_iff)
qed

lemma routes_from_valid:
  "list_all (\<lambda>r. NUL \<notin> set (rule_text r)) rs \<Longrightarrow> 0 < k \<Longrightarrow> k + length rs \<le> 65536 \<Longrightarrow>
   list_all (\<lambda>(u, i). NUL \<notin> set u \<and> i \<noteq> 0) (routes_from k rs)"
proof (induction rs arbitrary: k)
  case (Cons r rs)
  have "unat (word_of_nat k :: 16 word) = k" using Cons.prems(3) by (simp add: unat_of_nat)
  then have "(word_of_nat k :: 16 word) \<noteq> 0" using Cons.prems(2) by (metis less_irrefl unat_0)
  moreover have "list_all (\<lambda>(u, i). NUL \<notin> set u \<and> i \<noteq> 0) (routes_from (Suc k) rs)" using Cons by simp
  ultimately show ?case using Cons.prems(1) by (auto simp: RULE_SPECIAL_REDIRECT_SLASH_def dest: in_set_butlastD)
qed simp

text \<open>What a lookup finds, in terms of the rules registered for the method.\<close>

definition found_as :: "'f strtod \<Rightarrow> 'h rule list \<Rightarrow> string \<Rightarrow> 16 word \<Rightarrow> 'f routing_params \<Rightarrow> bool" where
  "found_as strtod rm url r ps \<longleftrightarrow>
     (if slash_match strtod rm url then r = RULE_SPECIAL_REDIRECT_SLASH
      else case first_match strtod rm url of
             None \<Rightarrow> r = 0
           | Some (j, q) \<Rightarrow> r \<noteq> 0 \<and> unat r = 2 + j \<and> ps = q \<and> j < length rm)"

lemma lookup_found_as:
  assumes "router_validate rs = Some (Inr router)" and "length rs \<le> 65534" and "list_all (\<lambda>r. NUL \<notin> set (rule_text r)) rs"
    and "lookup strtod router m url = (r, ps)"
  shows "found_as strtod (rules_for m rs) url r ps"
proof -
  obtain t where t: "add_routes (routes_from 2 (rules_for m rs)) new_node = Some (Inr t)" "validate t = Inr (trie (router m))"
    using router_tables [OF assms(1), of m] by blast
  obtain bp where f: "find_url strtod (trie (router m)) url = (r, bp, ps)"
    using assms(4) by (auto simp: lookup_def split: prod.splits)
  have l: "2 + length (rules_for m rs) \<le> 65536"
    using le_trans [OF length_filter_le assms(2)] by (simp add: rules_for_def)
  have "list_all (\<lambda>r. NUL \<notin> set (rule_text r)) (rules_for m rs)"
    using assms(3) by (auto simp: rules_for_def list_all_iff)
  then have "list_all (\<lambda>(u, i). NUL \<notin> set u \<and> i \<noteq> 0) (routes_from 2 (rules_for m rs))" using l by (intro routes_from_valid) simp_all
  from lookup_best [OF t this f] have b: "best (hits strtod (routes_from 2 (rules_for m rs)) url) r ps" by (simp add: hits_def)
  show ?thesis
  proof (cases "slash_match strtod (rules_for m rs) url")
    case True
    then show ?thesis using best_slash [OF b] by (simp add: found_as_def)
  next
    case False
    then show ?thesis using best_first_match [OF b False l] by (simp add: found_as_def split: option.splits prod.splits)
  qed
qed

lemma found_as_0: "found_as strtod rm url r ps \<Longrightarrow> r \<noteq> 0 \<longleftrightarrow> slash_match strtod rm url \<or> first_match strtod rm url \<noteq> None"
  by (auto simp: found_as_def RULE_SPECIAL_REDIRECT_SLASH_def split: if_splits option.splits)

text \<open>What the router does with a path for which it has found a rule.\<close>

definition rule_answer :: "'f strtod \<Rightarrow> 'h rule list \<Rightarrow> string \<Rightarrow> res_state \<Rightarrow> ('h, 'f) dispatched option" where
  "rule_answer strtod rm url res =
     (if slash_match strtod rm url then Some (Answered (redirect_slash url res))
      else map_option (\<lambda>(j, ps). if is_websocket (rm ! j) then Answered (res_fail 404 res) else Call (rule_handler (rm ! j)) ps res)
             (first_match strtod rm url))"

lemma handle_found_answer:
  assumes "router_validate rs = Some (Inr router)" and "found_as strtod (rules_for m rs) url r ps" and "r \<noteq> 0"
  shows "rule_answer strtod (rules_for m rs) url res = Some (handle_found router url (r, ps, m) res)"
proof -
  have t: "rules (router m) = [None, None] @ map Some (rules_for m rs)" using router_tables [OF assms(1)] by blast
  show ?thesis
  proof (cases "slash_match strtod (rules_for m rs) url")
    case True
    then show ?thesis using assms(2) t
      by (simp add: rule_answer_def found_as_def handle_found_def RULE_SPECIAL_REDIRECT_SLASH_def)
  next
    case False
    then obtain j q where f: "first_match strtod (rules_for m rs) url = Some (j, q)" "unat r = 2 + j" "ps = q" "j < length (rules_for m rs)"
      using assms(2,3) by (auto simp: found_as_def split: option.splits)
    have "unat RULE_SPECIAL_REDIRECT_SLASH = 1" by (simp add: RULE_SPECIAL_REDIRECT_SLASH_def)
    then have "r \<noteq> RULE_SPECIAL_REDIRECT_SLASH" using f(2) by auto
    then show ?thesis using False f t by (simp add: rule_answer_def handle_found_def rule_of_def)
  qed
qed

lemma any_method_iff:
  assumes "router_validate rs = Some (Inr router)" and "length rs \<le> 65534" and "list_all (\<lambda>r. NUL \<notin> set (rule_text r)) rs"
  shows "fst (lookup strtod router m url) \<noteq> 0 \<longleftrightarrow> rule_answer strtod (rules_for m rs) url res \<noteq> None"
  using found_as_0 [OF lookup_found_as [OF assms, of strtod m url "fst (lookup strtod router m url)" "snd (lookup strtod router m url)"]]
  by (auto simp: rule_answer_def)

lemma handle_full_answer:
  assumes "router_validate rs = Some (Inr router)" and "length rs \<le> 65534" and "list_all (\<lambda>r. NUL \<notin> set (rule_text r)) rs"
    and "m \<noteq> HEAD" and "m \<noteq> OPTIONS"
  shows "handle_full strtod router m url res =
    (case rule_answer strtod (rules_for m rs) url res of
       Some a \<Rightarrow> a
     | None \<Rightarrow> Answered (res_end (get_error
         (if list_ex (\<lambda>m'. rule_answer strtod (rules_for m' rs) url res \<noteq> None) all_methods then 405 else 404) res)))"
proof -
  obtain r ps where l: "lookup strtod router m url = (r, ps)" by (cases "lookup strtod router m url")
  note f = lookup_found_as [OF assms(1-3) l]
  show ?thesis
  proof (cases "r = 0")
    case False
    then show ?thesis using handle_found_answer [OF assms(1) f False] assms(4,5) l
      by (simp add: handle_full_def handle_initial_def)
  next
    case True
    then have "rule_answer strtod (rules_for m rs) url res = None"
      using any_method_iff [OF assms(1-3), of strtod m url res] l by simp
    then show ?thesis using True assms(4,5) l any_method_iff [OF assms(1-3), of strtod _ url res, symmetric]
      by (simp add: handle_full_def handle_initial_def)
  qed
qed

end
