(* ===== verification/Server.thy ===== *)
theory Server
  imports Web_Socket
begin

text \<open>
  src/src/main.cpp: the command line, the start of the process and the purge thread; and the server as
  a whole, a relation whose steps are the handlers of the other theories, each taken as one step, in
  any order. A process starts with an empty manager and the schema applied; what the engine, the
  clock and the network do is arbitrary.
\<close>

section \<open>The command line\<close>

definition kDefaultConfigPath :: string where
  "kDefaultConfigPath = ''/etc/hashhush/config.ini''"

text \<open>What the loop over the arguments does: it ends the process, writes a default file, or goes on.\<close>

datatype cli =
    Help
  | Version
  | Generate string
  | Missing_Path
  | Unknown_Argument string
  | Run string

fun parse_args :: "string \<Rightarrow> string list \<Rightarrow> cli" where
  "parse_args configPath [] = Run configPath"
| "parse_args configPath (a # as) =
     (if a = ''-h'' \<or> a = ''--help'' then Help
      else if a = ''-V'' \<or> a = ''--version'' then Version
      else if a = ''-g'' \<or> a = ''--generate-config''
      then (case as of [] \<Rightarrow> Missing_Path | path # _ \<Rightarrow> Generate path)
      else if a = ''-c'' \<or> a = ''--config''
      then (case as of [] \<Rightarrow> Missing_Path | path # rest \<Rightarrow> parse_args path rest)
      else Unknown_Argument a)"

datatype severity = Log_None | Fatal | Error_Level | Warning | Info | Debug | Verbose

definition parseLogLevel :: "string \<Rightarrow> severity" where
  "parseLogLevel s =
     (let l = map to_lower s
      in if l = ''verbose'' then Verbose else if l = ''debug'' then Debug else if l = ''info'' then Info
         else if l = ''warning'' then Warning else if l = ''error'' then Error_Level
         else if l = ''fatal'' then Fatal else if l = ''none'' then Log_None else Info)"

section \<open>Starting\<close>

text \<open>
  A file system is a map from paths to contents with the set of paths that can be written;
  \<open>generateConfig\<close> truncates the file.
\<close>

record files =
  file_at :: "string \<rightharpoonup> string"
  writable :: "string \<Rightarrow> bool"

definition generateConfig :: "string \<Rightarrow> files \<Rightarrow> bool \<times> files" where
  "generateConfig path fs =
     (if writable fs path then (True, fs\<lparr>file_at := (file_at fs)(path \<mapsto> kDefaultConfigContent)\<rparr>) else (False, fs))"

text \<open>\<open>sqlite3_open_v2\<close> is an argument: the store behind a path, or nothing where it fails.\<close>

definition open_database :: "(string \<Rightarrow> 'd option) \<Rightarrow> 'd sql_engine \<Rightarrow> string \<Rightarrow> exn + 'd" where
  "open_database opener run path =
     (case opener path of None \<Rightarrow> Inl (Runtime_Error ''sqlite3_open_v2: '') | Some d \<Rightarrow> applySchema run d)"

text \<open>\<open>main\<close> up to \<open>api.run()\<close>: an exit code, or a server with its precomputed bodies.\<close>

datatype 'd boot = Exit int | Serving "'d env" web_api severity "'d server"

definition start_server :: "'d env \<Rightarrow> (string \<Rightarrow> 'd option) \<Rightarrow> string \<Rightarrow> files \<Rightarrow> mt \<Rightarrow> 'd boot" where
  "start_server e opener path fs g =
     (let (ok, c) = loadFromFile (file_at fs path) default_config
      in if \<not> ok then Exit 1
         else let e = e\<lparr>cfg := c\<rparr>
              in (case open_database opener (db_run e) (dbPath c) of
                    Inl x \<Rightarrow> Exit 1
                  | Inr d \<Rightarrow>
                      let (st, g) = init captcha_start g
                      in Serving e (WebAPI e) (parseLogLevel (logLevel c))
                           \<lparr>database = d, rooms_mgr = empty_manager, captcha_st = st, generator = g\<rparr>))"

definition main :: "'d env \<Rightarrow> (string \<Rightarrow> 'd option) \<Rightarrow> string list \<Rightarrow> files \<Rightarrow> mt \<Rightarrow> 'd boot \<times> files" where
  "main e opener args fs g =
     (case parse_args kDefaultConfigPath args of
        Help \<Rightarrow> (Exit 0, fs)
      | Version \<Rightarrow> (Exit 0, fs)
      | Generate path \<Rightarrow> let (ok, fs) = generateConfig path fs in (Exit (if ok then 0 else 1), fs)
      | Missing_Path \<Rightarrow> (Exit 2, fs)
      | Unknown_Argument a \<Rightarrow> (Exit 2, fs)
      | Run path \<Rightarrow> (start_server e opener path fs g, fs))"

section \<open>The purge thread\<close>

text \<open>One turn of the loop: the rooms that have been idle for too long are closed and deleted.\<close>

fun purge_rooms :: "'d env \<Rightarrow> string list \<Rightarrow> 'd server \<Rightarrow> ws_event list \<times> 'd server" where
  "purge_rooms e [] s = ([], s)"
| "purge_rooms e (rid # rids) s =
     (let (evs, m) = closeRoom (conn_order e) rid (deleted_frame e) (rooms_mgr s);
          (_, d) = deleteRoom (db_run e) rid (database s);
          (evs', s) = purge_rooms e rids (s\<lparr>rooms_mgr := m, database := d\<rparr>)
      in (evs @ evs', s))"

definition purge :: "'d env \<Rightarrow> int \<Rightarrow> 'd server \<Rightarrow> ws_event list \<times> 'd server" where
  "purge e now s =
     (let cutoff = now - idleTtlSeconds (cfg e);
          (stale, d) = roomsIdleSince (db_run e) cutoff (database s)
      in purge_rooms e stale (s\<lparr>database := d\<rparr>))"

section \<open>The server\<close>

datatype event =
    Http_Pow
  | Http_Create string
  | Http_Activate string string
  | Http_Alive string
  | Http_Delete string string
  | Ws_Open conn "string option"
  | Ws_Message conn string
  | Ws_Close conn
  | Ws_Error conn
  | Purge int

text \<open>
  A step is one handler. A connection is opened once: \<open>onopen\<close> is called for an object that has no
  peer, as its peer is erased before the object is freed.
\<close>

inductive serve :: "'d env \<Rightarrow> 'd server \<Rightarrow> event \<Rightarrow> ws_event list \<Rightarrow> 'd server \<Rightarrow> bool" for e where
  pow: "pow_challenge e now s = (r, s') \<Longrightarrow> serve e s Http_Pow [] s'"
| create: "create_room e now b s = (r, evs, s') \<Longrightarrow> serve e s (Http_Create b) evs s'"
| activate: "activate_room e rid b s = (r, evs, s') \<Longrightarrow> serve e s (Http_Activate rid b) evs s'"
| alive: "is_alive e b s = (r, evs, s') \<Longrightarrow> serve e s (Http_Alive b) evs s'"
| delete: "delete_room_route e rid b s = (r, evs, s') \<Longrightarrow> serve e s (Http_Delete rid b) evs s'"
| opened: "peers (rooms_mgr s) c = None \<Longrightarrow> on_open c ud s = (evs, s') \<Longrightarrow> serve e s (Ws_Open c ud) evs s'"
| message: "on_message e now c data s = (r, evs, s') \<Longrightarrow> serve e s (Ws_Message c data) evs s'"
| closed: "on_close e c s = (evs, s') \<Longrightarrow> serve e s (Ws_Close c) evs s'"
| failed: "on_error e c s = (evs, s') \<Longrightarrow> serve e s (Ws_Error c) evs s'"
| purged: "purge e now s = (evs, s') \<Longrightarrow> serve e s (Purge now) evs s'"

inductive_cases serve_pow: "serve e s Http_Pow evs s'"
inductive_cases serve_message: "serve e s (Ws_Message c data) evs s'"
inductive_simps serve_open_iff: "serve e s (Ws_Open c ud) evs s'"

inductive serve_run :: "'d env \<Rightarrow> 'd server \<Rightarrow> (event \<times> ws_event list) list \<Rightarrow> 'd server \<Rightarrow> bool" for e where
  stop: "serve_run e s [] s"
| step: "serve_run e s tr s1 \<Longrightarrow> serve e s1 ev evs s2 \<Longrightarrow> serve_run e s (tr @ [(ev, evs)]) s2"

section \<open>What every step keeps\<close>

lemma calls_ok:
  assumes "documented run view" and "db_ok (view d)"
  shows "db_ok (view (snd (createRoom run r d)))" "db_ok (view (snd (findRoom run i d)))"
    "db_ok (view (snd (deleteRoom run i d)))" "db_ok (view (snd (countRooms run d)))"
    "db_ok (view (touchRoom run i d))" "db_ok (view (snd (roomsIdleSince run n d)))"
    "db_ok (view (snd (activateRoom run i d)))" "db_ok (view (snd (insertChallenges run i ps d)))"
    "db_ok (view (snd (consumeChallenge run i d)))" "db_ok (view (snd (insertAccessToken run k i d)))"
    "db_ok (view (snd (roomForToken run k d)))"
proof -
  have e: "sqlite_engine run view" by unfold_locales (rule assms(1))
  note c = sqlite_engine.call_ok [OF e, of d, OF assms(2)]
  show "db_ok (view (snd (createRoom run r d)))" "db_ok (view (snd (findRoom run i d)))"
    "db_ok (view (snd (deleteRoom run i d)))" "db_ok (view (snd (countRooms run d)))"
    "db_ok (view (touchRoom run i d))" "db_ok (view (snd (roomsIdleSince run n d)))"
    "db_ok (view (snd (activateRoom run i d)))" "db_ok (view (snd (insertChallenges run i ps d)))"
    "db_ok (view (snd (consumeChallenge run i d)))" "db_ok (view (snd (insertAccessToken run k i d)))"
    "db_ok (view (snd (roomForToken run k d)))"
    using c [of "Create_Room r"] c [of "Find_Room i"] c [of "Delete_Room_Call i"] c [of Count_Rooms_Call]
      c [of "Touch_Room_Call i"] c [of "Rooms_Idle_Since n"] c [of "Activate_Room_Call i"]
      c [of "Insert_Challenges i ps"] c [of "Consume_Challenge i"] c [of "Insert_Access_Token k i"]
      c [of "Room_For_Token k"]
    by simp_all
qed

definition cache_bounded :: "int \<Rightarrow> manager \<Rightarrow> bool" where
  "cache_bounded n m \<longleftrightarrow> (\<forall>rid q. msg_cache m rid = Some q \<longrightarrow> q \<noteq> [] \<and> int (length q) \<le> n)"

definition server_ok :: "('d \<Rightarrow> db) \<Rightarrow> 'd env \<Rightarrow> 'd server \<Rightarrow> bool" where
  "server_ok view e s \<longleftrightarrow> db_ok (view (database s)) \<and> manager_ok (rooms_mgr s)
     \<and> cache_bounded (messageCacheSize (cfg e)) (rooms_mgr s)"

lemma set_peer_ok:
  assumes "manager_ok m" and "\<And>p. peer_room (f p) = peer_room p"
  shows "manager_ok (set_peer c f m)"
  using assms peer_update_ok [of m c] by (auto simp: set_peer_def split: option.split)

lemma append_bounded:
  assumes "cache_bounded n m"
  shows "cache_bounded n (appendCachedMessage rid s p n now m)"
proof (cases "n \<le> 0")
  case True
  then show ?thesis using assms by (simp add: appendCachedMessage_def)
next
  case False
  have "length (pop_front_while (nat n) q) = min (nat n) (length q)" for q
    by (simp add: pop_front_last length_last_n)
  then show ?thesis using assms False
    by (auto simp: cache_bounded_def appendCachedMessage_def Let_def min_def simp flip: length_greater_0_conv)
qed

lemma bounded_frame:
  "msg_cache m' = msg_cache m \<Longrightarrow> cache_bounded n m' = cache_bounded n m"
  "cache_bounded n m \<Longrightarrow> cache_bounded n (snd (closeRoom co rid f m))"
  by (auto simp: cache_bounded_def closeRoom_def Let_def)

text \<open>The HTTP handlers.\<close>

lemma create_room_tail_ok:
  assumes "documented (db_run e) view" "db_ok (view (database s))" "create_room_tail e now bd s = (r, evs, s')"
  shows "db_ok (view (database s')) \<and> rooms_mgr s' = rooms_mgr s"
  using assms(3) calls_ok [OF assms(1)] assms(2)
  by (simp add: create_room_tail_def Let_def split_beta split: if_splits sum.splits prod.splits) (auto simp: assms(2))

lemma create_room_ok:
  assumes "documented (db_run e) view" "db_ok (view (database s))" "create_room e now b s = (r, evs, s')"
  shows "db_ok (view (database s')) \<and> rooms_mgr s' = rooms_mgr s"
  using assms(3) create_room_tail_ok [OF assms(1), of "s\<lparr>captcha_st := x\<rparr>" now for x] assms(2)
  by (force simp: create_room_def split: option.splits sum.splits prod.splits if_splits)

lemma activate_room_ok:
  assumes "documented (db_run e) view" "db_ok (view (database s))" "activate_room e rid b s = (r, evs, s')"
  shows "db_ok (view (database s')) \<and> rooms_mgr s' = rooms_mgr s"
  using assms(3) calls_ok [OF assms(1)] assms(2)
  by (simp add: activate_room_def Let_def split_beta split: option.splits if_splits sum.splits) (auto simp: assms(2))

lemma alive_loop_ok:
  assumes "documented (db_run e) view"
  shows "db_ok (view d) \<Longrightarrow> alive_loop e vs d = Inr (a, g, d') \<Longrightarrow> db_ok (view d')"
proof (induction vs arbitrary: d a g)
  case (Cons v vs)
  show ?case
    using Cons.prems(2) Cons.IH [OF Cons.prems(1)] Cons.IH [OF calls_ok(2) [OF assms Cons.prems(1)]]
    by (auto simp: split_beta Let_def exn_bind_Inr split: if_splits option.splits)
qed simp

lemma is_alive_ok:
  assumes "documented (db_run e) view" "db_ok (view (database s))" "is_alive e b s = (r, evs, s')"
  shows "db_ok (view (database s')) \<and> rooms_mgr s' = rooms_mgr s"
  using assms(3) alive_loop_ok [OF assms(1,2)] assms(2)
  by (fastforce simp: is_alive_def split: option.splits sum.splits prod.splits)

lemma delete_room_route_ok:
  assumes "documented (db_run e) view" "server_ok view e s" "delete_room_route e rid b s = (r, evs, s')"
  shows "server_ok view e s'"
proof -
  have ok: "db_ok (view (database s))" "manager_ok (rooms_mgr s)" "cache_bounded (messageCacheSize (cfg e)) (rooms_mgr s)"
    using assms(2) by (simp_all add: server_ok_def)
  show ?thesis
    using assms(3) ok calls_ok [OF assms(1)] cache_ops_ok(1) [OF ok(2)] bounded_frame(2) [OF ok(3)]
    by (auto simp: delete_room_route_def server_ok_def split_beta Let_def split: option.splits sum.splits if_splits)
qed

lemma pow_ok: "pow_challenge e now s = (r, s') \<Longrightarrow> database s' = database s \<and> rooms_mgr s' = rooms_mgr s"
  by (auto simp: pow_challenge_def split_beta Let_def)

section \<open>The WebSocket handlers\<close>

lemma finalizeJoin_ok:
  assumes "documented (db_run e) view" "server_ok view e s" "finalizeJoin e c t f rid s = (evs, s')"
  shows "server_ok view e s'"
  using assms calls_ok [OF assms(1)] mark_ok
  by (auto simp: finalizeJoin_def server_ok_def split_beta Let_def bounded_frame(1) [OF mark_cache])

lemma hello_token_ok:
  assumes "documented (db_run e) view" "server_ok view e s" "hello_token e c t rid s = (r, evs, s')"
  shows "server_ok view e s'"
proof -
  have "server_ok view e (s\<lparr>database := snd (roomForToken (db_run e) t (database s))\<rparr>)"
    using assms(2) calls_ok(11) [OF assms(1)] by (simp add: server_ok_def)
  then show ?thesis
    using assms(3) finalizeJoin_ok [OF assms(1)]
    by (auto simp: hello_token_def split_beta Let_def split: if_splits prod.splits)
qed

lemma hello_fresh_ok:
  assumes "documented (db_run e) view" "server_ok view e s" "hello_fresh e c rid s = (r, evs, s')"
  shows "server_ok view e s'"
proof -
  have ok: "db_ok (view (database s))" using assms(2) by (simp add: server_ok_def)
  obtain tk ex where m: "rooms_mgr s' = set_peer c (\<lambda>p. p\<lparr>pending_token := tk, expected_plaintext := ex\<rparr>) (rooms_mgr s)"
    using hello_fresh_mgr [OF assms(3)] by blast
  have "database s' = snd (findRoom (db_run e) rid (database s))
      \<or> database s' = snd (consumeChallenge (db_run e) rid (snd (findRoom (db_run e) rid (database s))))"
    using assms(3) by (auto simp: hello_fresh_def split_beta Let_def split: if_splits option.splits)
  then have "db_ok (view (database s'))" using calls_ok [OF assms(1)] ok by auto
  then show ?thesis using assms(2) m by (simp add: server_ok_def set_peer_ok bounded_frame(1) [OF set_peer_cache])
qed

lemma challenge_response_ok:
  assumes "documented (db_run e) view" "server_ok view e s" "challenge_response e c a p s = (r, evs, s')"
  shows "server_ok view e s'"
proof -
  define s1 where "s1 = s\<lparr>rooms_mgr := set_peer c (\<lambda>p. p\<lparr>pending_token := [], expected_plaintext := []\<rparr>) (rooms_mgr s)\<rparr>"
  define s2 where "s2 = s1\<lparr>database := snd (insertAccessToken (db_run e) (pending_token p) (peer_room p) (database s1))\<rparr>"
  have s1: "server_ok view e s1"
    using assms(2) by (simp add: s1_def server_ok_def set_peer_ok bounded_frame(1) [OF set_peer_cache])
  then have s2: "server_ok view e s2"
    using calls_ok(10) [OF assms(1)] by (simp add: s2_def server_ok_def)
  have "s' = s \<or> s' = s1 \<or> s' = s2
      \<or> (\<exists>evs. finalizeJoin e c (pending_token p) True (peer_room p) s2 = (evs, s'))"
    using assms(3) by (auto simp: challenge_response_def s1_def s2_def split_beta Let_def split: if_splits prod.splits)
  then show ?thesis using assms(2) s1 s2 finalizeJoin_ok [OF assms(1) s2] by auto
qed

lemma relay_ok:
  assumes "documented (db_run e) view" "server_ok view e s" "relay e now c ty pl p s = (r, evs, s')"
  shows "server_ok view e s'"
  using assms calls_ok(5) [OF assms(1)] cache_ops_ok(2) append_bounded
  by (auto simp: relay_def server_ok_def Let_def split: if_splits)

lemma on_message_ok:
  assumes "documented (db_run e) view" "server_ok view e s" "on_message e now c data s = (r, evs, s')"
  shows "server_ok view e s'"
  using assms(3)
proof (cases rule: on_message_cases)
  case 1
  then show ?thesis using assms(2) by simp
next
  case (2 p j ty)
  then show ?thesis
    using assms(2) hello_token_ok [OF assms(1,2)] hello_fresh_ok [OF assms(1,2)] challenge_response_ok [OF assms(1,2)]
      relay_ok [OF assms(1,2)]
    by (auto simp: on_frame_def split: if_splits sum.splits)
qed

lemma on_open_ok:
  assumes "server_ok view e s" "peers (rooms_mgr s) c = None" "on_open c ud s = (evs, s')"
  shows "server_ok view e s'"
proof -
  have "msg_cache (fst (onWsAccept c rid m g)) = msg_cache m" for rid m g
    by (simp add: onWsAccept_def split_beta Let_def)
  then show ?thesis
    using assms accept_ok [of "rooms_mgr s" c]
    by (fastforce simp: on_open_def server_ok_def cache_bounded_def split_beta Let_def split: option.splits)
qed

lemma on_close_ok:
  assumes "server_ok view e s" "on_close e c s = (evs, s') \<or> on_error e c s = (evs, s')"
  shows "server_ok view e s'"
proof -
  have "msg_cache (snd (onWsClose jo co c m)) = msg_cache m" for jo co m
    by (auto simp: onWsClose_def drop_conn_def Let_def split: option.splits)
  then show ?thesis
    using assms close_ok [of "rooms_mgr s"]
    by (fastforce simp: on_close_def on_error_def server_ok_def cache_bounded_def split_beta Let_def)
qed

section \<open>The purge thread and the whole\<close>

lemma purge_rooms_ok:
  assumes "documented (db_run e) view"
  shows "server_ok view e s \<Longrightarrow> server_ok view e (snd (purge_rooms e rids s))"
proof (induction rids arbitrary: s)
  case (Cons rid rids)
  have "server_ok view e (s\<lparr>rooms_mgr := snd (closeRoom (conn_order e) rid (deleted_frame e) (rooms_mgr s)),
      database := snd (deleteRoom (db_run e) rid (database s))\<rparr>)"
    using Cons.prems calls_ok(3) [OF assms] cache_ops_ok(1) bounded_frame(2) by (simp add: server_ok_def)
  from Cons.IH [OF this] show ?case by (simp add: split_beta Let_def)
qed simp

lemma purge_ok:
  assumes "documented (db_run e) view" "server_ok view e s" "purge e now s = (evs, s')"
  shows "server_ok view e s'"
proof -
  have "server_ok view e (s\<lparr>database := snd (roomsIdleSince (db_run e) (now - idleTtlSeconds (cfg e)) (database s))\<rparr>)"
    using assms(2) calls_ok(6) [OF assms(1)] by (simp add: server_ok_def)
  from purge_rooms_ok [OF assms(1) this] show ?thesis
    using assms(3) by (auto simp: purge_def split_beta Let_def prod_eq_iff)
qed

lemma serve_ok: "serve e s ev evs s' \<Longrightarrow> documented (db_run e) view \<Longrightarrow> server_ok view e s \<Longrightarrow> server_ok view e s'"
proof (induction rule: serve.induct)
  case (pow now s r s')
  then show ?case using pow_ok [OF pow(1)] by (simp add: server_ok_def)
next
  case (create now b s r evs s')
  then show ?case using create_room_ok [OF create(2) _ create(1)] by (simp add: server_ok_def)
next
  case (activate rid b s r evs s')
  then show ?case using activate_room_ok [OF activate(2) _ activate(1)] by (simp add: server_ok_def)
next
  case (alive b s r evs s')
  then show ?case using is_alive_ok [OF alive(2) _ alive(1)] by (simp add: server_ok_def)
qed (blast intro: delete_room_route_ok on_open_ok on_message_ok on_close_ok purge_ok)+

lemma serve_run_ok:
  "serve_run e s tr s' \<Longrightarrow> documented (db_run e) view \<Longrightarrow> server_ok view e s \<Longrightarrow> server_ok view e s'"
  by (induction rule: serve_run.induct) (blast intro: serve_ok)+

section \<open>Membership over a run\<close>

lemma other_steps_join_nobody:
  "on_open c ud s = (evs, s') \<Longrightarrow> is_joined (rooms_mgr s') c' \<Longrightarrow> is_joined (rooms_mgr s) c'"
  "on_close e c s = (evs, s') \<Longrightarrow> is_joined (rooms_mgr s') c' \<Longrightarrow> is_joined (rooms_mgr s) c'"
  "on_error e c s = (evs, s') \<Longrightarrow> is_joined (rooms_mgr s') c' \<Longrightarrow> is_joined (rooms_mgr s) c'"
  by (auto simp: on_open_def on_close_def on_error_def onWsAccept_def onWsClose_def drop_conn_def is_joined_def
      split_beta Let_def split: option.splits if_splits)

lemma closeRoom_joined [simp]: "is_joined (snd (closeRoom co rid f m)) c = is_joined m c"
  by (simp add: closeRoom_def is_joined_def)

lemma purge_rooms_joined: "is_joined (rooms_mgr (snd (purge_rooms e rids s))) c = is_joined (rooms_mgr s) c"
  by (induction rids arbitrary: s) (simp_all add: split_beta Let_def)

lemma delete_joined: "delete_room_route e rid b s = (r, evs, s') \<Longrightarrow> is_joined (rooms_mgr s') c = is_joined (rooms_mgr s) c"
  by (auto simp: delete_room_route_def split_beta Let_def split: option.splits sum.splits if_splits)

lemma http_mgr:
  "create_room e now b s = (r, evs, s') \<Longrightarrow> rooms_mgr s' = rooms_mgr s"
  "activate_room e rid b s = (r, evs, s') \<Longrightarrow> rooms_mgr s' = rooms_mgr s"
  "is_alive e b s = (r, evs, s') \<Longrightarrow> rooms_mgr s' = rooms_mgr s"
  by (auto simp: create_room_def create_room_tail_def activate_room_def is_alive_def split_beta Let_def
      split: option.splits sum.splits if_splits prod.splits)

lemma serve_join:
  assumes "serve e s ev evs s'" and "\<not> is_joined (rooms_mgr s) c" and "is_joined (rooms_mgr s') c"
  shows "\<exists>data. ev = Ws_Message c data \<and> admits e s c data"
  using assms
proof (cases rule: serve.cases)
  case (message now c' data r)
  then show ?thesis using join_step [OF message(2) assms(2,3)] by simp
next
  case (purged now)
  then show ?thesis using assms(2,3)
    by (auto simp: purge_def split_beta Let_def purge_rooms_joined dest!: arg_cong [of _ _ snd])
qed (auto dest: other_steps_join_nobody http_mgr delete_joined pow_ok)

lemma serve_run_join:
  "serve_run e s tr s' \<Longrightarrow> \<not> is_joined (rooms_mgr s) c \<Longrightarrow> is_joined (rooms_mgr s') c \<Longrightarrow>
   \<exists>tr1 tr2 s1 data evs. tr = tr1 @ (Ws_Message c data, evs) # tr2 \<and> serve_run e s tr1 s1 \<and> admits e s1 c data"
proof (induction rule: serve_run.induct)
  case (step s tr s1 ev evs s2)
  show ?case
  proof (cases "is_joined (rooms_mgr s1) c")
    case True
    then show ?thesis using step.IH [OF step.prems(1)] by fastforce
  next
    case False
    obtain data where "ev = Ws_Message c data" "admits e s1 c data"
      using serve_join [OF step.hyps(2) False step.prems(2)] by blast
    then show ?thesis using step.hyps(1) by blast
  qed
qed simp

section \<open>What a purge does\<close>

definition idle_room :: "int \<Rightarrow> room_row \<Rightarrow> bool" where
  "idle_room cutoff r \<longleftrightarrow> r_active r < cutoff"

context reliable_engine begin

lemma idle_rooms_run:
  "fst (roomsIdleSince run n s) = map (\<lambda>r. cstr (r_id r)) (filter (idle_room n) (rooms (tabs (view s))))
   \<and> view (snd (roomsIdleSince run n s)) = view s"
  using run_exec [of Idle_Rooms "[SInt n]" s]
  by (auto simp: roomsIdleSince_def split_beta Let_def exec_stmt_def column_text_def idle_room_def [abs_def] comp_def
      dest!: sym [of _ "fst _"])

end

lemma fold_delete_rooms:
  "rooms (fold (\<lambda>rid t. snd (delete_room rid t)) rids t) = filter (\<lambda>r. r_id r \<notin> set rids) (rooms t)"
proof (induction rids arbitrary: t)
  case (Cons rid rids)
  have "rooms (snd (delete_room rid t)) = filter (\<lambda>r. r_id r \<noteq> rid) (rooms t)" by (simp add: delete_room_def)
  then show ?case using Cons.IH by (simp add: filter_filter conj_commute)
qed simp

lemma fold_delete_ok: "tables_ok t \<Longrightarrow> tables_ok (fold (\<lambda>rid t. snd (delete_room rid t)) rids t)"
  by (induction rids arbitrary: t) (simp_all add: delete_room_ok)

lemma purge_rooms_run:
  assumes "reliable (db_run e) view"
  shows "view (database (snd (purge_rooms e rids s)))
      = (view (database s))\<lparr>tabs := fold (\<lambda>rid t. snd (delete_room rid t)) rids (tabs (view (database s)))\<rparr>
    \<and> peers (rooms_mgr (snd (purge_rooms e rids s))) = peers (rooms_mgr s)
    \<and> msg_cache (rooms_mgr (snd (purge_rooms e rids s))) = (msg_cache (rooms_mgr s)) |` (- set rids)
    \<and> fst (purge_rooms e rids s) = concat (map (\<lambda>rid. fst (closeRoom (conn_order e) rid (deleted_frame e) (rooms_mgr s))) rids)"
proof (induction rids arbitrary: s)
  case (Cons rid rids)
  have e: "reliable_engine (db_run e) view" by unfold_locales (rule assms)
  have "fst (closeRoom co i f (snd (closeRoom co' j f' m))) = fst (closeRoom co i f m)" for co i f co' j f' m
    by (simp add: closeRoom_def Let_def)
  moreover have "(f(rid := None)) |` (- set rids) = f |` (- insert rid (set rids))" for f :: "string \<rightharpoonup> CachedMessage list"
    by (auto simp: restrict_map_def)
  ultimately show ?case
    using Cons.IH reliable_engine.deleteRoom_run [OF e, of rid "database s"]
    by (simp add: split_beta Let_def closeRoom_def fun_upd_def)
qed (simp add: restrict_map_def)

text \<open>
  C28: the process never leaves its well-formed states. Whatever requests, frames, closes and purges
  arrive in whatever order, and whichever SQL statements fail, the tables keep their integrity, the
  two indexes of the manager agree, and no message cache outgrows its configured size.
\<close>

theorem server_invariant:
  assumes "documented (db_run e) view" and "db_ok (view d)"
    and "serve_run e \<lparr>database = d, rooms_mgr = empty_manager, captcha_st = st, generator = g\<rparr> tr s"
  shows "db_ok (view (database s)) \<and> manager_ok (rooms_mgr s)
    \<and> (\<forall>rid q. msg_cache (rooms_mgr s) rid = Some q \<longrightarrow> q \<noteq> [] \<and> int (length q) \<le> messageCacheSize (cfg e))"
proof -
  have "server_ok view e \<lparr>database = d, rooms_mgr = empty_manager, captcha_st = st, generator = g\<rparr>"
    using assms(2) empty_manager_ok by (simp add: server_ok_def cache_bounded_def) (simp add: empty_manager_def)
  from serve_run_ok [OF assms(3,1) this] show ?thesis
    by (simp add: server_ok_def cache_bounded_def)
qed

definition demo_start :: "(db \<times> int) server" where
  "demo_start = \<lparr>database = (demo_db, 7), rooms_mgr = empty_manager, captcha_st = captcha_start, generator = rng_instance 1\<rparr>"

definition demo_opened :: "(db \<times> int) server" where
  "demo_opened = snd (on_open 3 (Some ''r'') demo_start)"

definition demo_joined :: "(db \<times> int) server" where
  "demo_joined = snd (snd (on_message demo_env (\<lambda>_. 0) 3 hello_data demo_opened))"

lemma demo_run_open: "serve_run demo_env demo_start [(Ws_Open 3 (Some ''r''), fst (on_open 3 (Some ''r'') demo_start))] demo_opened"
proof -
  have "serve demo_env demo_start (Ws_Open 3 (Some ''r'')) (fst (on_open 3 (Some ''r'') demo_start)) demo_opened"
    unfolding serve_open_iff demo_opened_def by (simp add: demo_start_def empty_manager_def)
  from serve_run.step [OF serve_run.stop this] show ?thesis by simp
qed

lemma demo_run: "\<exists>evs. serve_run demo_env demo_start
   [(Ws_Open 3 (Some ''r''), fst (on_open 3 (Some ''r'') demo_start)), (Ws_Message 3 hello_data, evs)] demo_joined"
proof -
  obtain r evs where "on_message demo_env (\<lambda>_. 0) 3 hello_data demo_opened = (r, evs, demo_joined)"
    unfolding demo_joined_def by (metis prod.collapse)
  from serve_run.step [OF demo_run_open serve.message [OF this]] show ?thesis by auto
qed

theorem server_invariant_witness:
  "db_ok (fst (database demo_joined)) \<and> manager_ok (rooms_mgr demo_joined)
   \<and> length (recentMessages (rooms_mgr demo_joined) ''r'') \<le> 5"
proof -
  obtain tr where run: "serve_run demo_env demo_start tr demo_joined" using demo_run by blast
  have "documented (db_run demo_env) fst" by (simp add: mem.documented)
  moreover have "db_ok demo_db"
    by (simp add: db_ok_def tables_ok_def demo_db_def room_ids_def row_of_room_def demo_room_def)
  ultimately show ?thesis
    using server_invariant [where view = fst, OF _ _ run [unfolded demo_start_def]]
    by (auto simp: recentMessages_def default_config_def split: option.split)
qed

text \<open>
  C29: membership is earned, over any history. If a connection is joined after a run of the server and
  was not before it, the run contains a message of that very connection which, in the state it met,
  showed a stored token of the connection's room or the answer to its pending challenge.
\<close>

theorem membership_earned:
  assumes "serve_run e s tr s'" and "\<not> is_joined (rooms_mgr s) c" and "is_joined (rooms_mgr s') c"
  shows "\<exists>tr1 tr2 s1 data evs. tr = tr1 @ (Ws_Message c data, evs) # tr2 \<and> serve_run e s tr1 s1
    \<and> (\<exists>p j. peers (rooms_mgr s1) c = Some p \<and> load data = Some j
        \<and> (type_of e j = Inr ''hello''
             \<and> (\<exists>token. js_str e j ''token'' [] = Inr token \<and> token \<noteq> []
                 \<and> fst (roomForToken (db_run e) token (database s1)) = Some (peer_room p))
           \<or> type_of e j = Inr ''challenge_response''
             \<and> js_str e j ''plaintext'' [] = Inr (expected_plaintext p)
             \<and> expected_plaintext p \<noteq> [] \<and> pending_token p \<noteq> []
             \<and> fst (insertAccessToken (db_run e) (pending_token p) (peer_room p) (database s1))))"
  using serve_run_join [OF assms] unfolding admits_def .

theorem membership_earned_witness:
  "\<exists>tr1 tr2 s1 data evs evs'. [(Ws_Open 3 (Some ''r''), []), (Ws_Message 3 hello_data, evs')] = tr1 @ (Ws_Message 3 data, evs) # tr2
    \<and> serve_run demo_env demo_start tr1 s1"
proof -
  have opened: "rooms_mgr demo_opened = fst (onWsAccept 3 ''r'' empty_manager (rng_instance 1))"
    "database demo_opened = (demo_db, 7)" "fst (on_open 3 (Some ''r'') demo_start) = []"
    by (simp_all add: demo_opened_def demo_start_def on_open_def split_beta)
  have p: "peers (rooms_mgr demo_opened) 3 = Some \<lparr>peer_id = fst (randomPeerId (rng_instance 1)), peer_room = ''r'',
      joined = False, pending_token = [], expected_plaintext = []\<rparr>"
    by (simp add: opened accept_peers empty_manager_def)
  have len: "length hello_data = 28" by code_simp
  have "rooms_mgr demo_joined = markPeerJoined 3 (peerIdFromToken ''t'') (rooms_mgr demo_opened)"
    using p by (simp add: demo_joined_def on_message_def to_int32_def len findByConn_def load_hello lookup_simps
        on_frame_def js_str_def hello_token_def demo_token opened default_config_def split_beta Let_def
        finalize_mgr [OF surjective_pairing])
  then have "is_joined (rooms_mgr demo_joined) 3" using p by (simp add: is_joined_mark)
  moreover have "\<not> is_joined (rooms_mgr demo_start) 3" by (simp add: demo_start_def is_joined_def empty_manager_def)
  ultimately show ?thesis
    using demo_run membership_earned [of demo_env demo_start _ demo_joined 3] by (fastforce simp: opened)
qed

text \<open>
  C30: a purge removes the idle rooms and nothing else. On an engine whose statements do not fail, the
  rooms left are those active within the configured time, the caches left are those of rooms not
  purged, no peer is dropped by the purge itself, and what is sent is the \<open>deleted\<close> frame and a close
  for every connection of every purged room.
\<close>

theorem purge_exact:
  assumes "reliable (db_run e) view" and "idle (view (database s))"
    and "\<forall>r \<in> set (rooms (tabs (view (database s)))). NUL \<notin> set (r_id r)" and "purge e now s = (evs, s')"
  shows "rooms (tabs (view (database s'))) = filter (\<lambda>r. now - idleTtlSeconds (cfg e) \<le> r_active r) (rooms (tabs (view (database s))))
    \<and> idle (view (database s')) \<and> peers (rooms_mgr s') = peers (rooms_mgr s)
    \<and> (let gone = map r_id (filter (\<lambda>r. r_active r < now - idleTtlSeconds (cfg e)) (rooms (tabs (view (database s)))))
       in msg_cache (rooms_mgr s') = (msg_cache (rooms_mgr s)) |` (- set gone)
          \<and> evs = concat (map (\<lambda>rid. fst (closeRoom (conn_order e) rid (deleted_frame e) (rooms_mgr s))) gone))"
proof -
  define n where "n = now - idleTtlSeconds (cfg e)"
  let ?rs = "rooms (tabs (view (database s)))"
  define gone where "gone = map r_id (filter (\<lambda>r. r_active r < n) ?rs)"
  have e: "reliable_engine (db_run e) view" by unfold_locales (rule assms(1))
  have "map (\<lambda>r. cstr (r_id r)) (filter (idle_room n) ?rs) = gone"
    using assms(3) by (auto simp: gone_def idle_room_def [abs_def] cstr_id)
  then have st: "fst (roomsIdleSince (db_run e) n (database s)) = gone"
    "view (snd (roomsIdleSince (db_run e) n (database s))) = view (database s)"
    using reliable_engine.idle_rooms_run [OF e, of n "database s"] by simp_all
  let ?s = "s\<lparr>database := snd (roomsIdleSince (db_run e) n (database s))\<rparr>"
  have p: "(evs, s') = purge_rooms e gone ?s"
    using assms(4) st by (simp add: purge_def split_beta Let_def flip: n_def)
  note run = purge_rooms_run [OF assms(1), of gone ?s, folded p]
  have ok: "tables_ok (tabs (view (database s)))" using assms(2) by (simp add: idle_def db_ok_def)
  then have d: "distinct (map r_id ?rs)" by (simp add: tables_ok_def)
  have "filter (\<lambda>r. r_id r \<notin> set gone) ?rs = filter (\<lambda>r. n \<le> r_active r) ?rs"
    using d by (auto simp: gone_def distinct_map inj_on_def not_le intro!: filter_cong)
  moreover have "idle (view (database s'))"
    using run assms(2) st fold_delete_ok [OF ok] by (simp add: idle_def db_ok_def)
  ultimately show ?thesis
    using run st by (simp add: fold_delete_rooms Let_def flip: n_def gone_def)
qed

theorem purge_exact_witness:
  "rooms (tabs (fst (database (snd (purge demo_env 100000 demo_server))))) = []
   \<and> peers (rooms_mgr (snd (purge demo_env 100000 demo_server))) = peers demo_manager"
proof -
  have "idle (fst (database demo_server))"
    by (simp add: idle_def db_ok_def tables_ok_def demo_db_def room_ids_def row_of_room_def demo_room_def)
  moreover have "NUL \<notin> set (r_id r)" if "r \<in> set (rooms (tabs (fst (database demo_server))))" for r
    using that by (simp add: demo_db_def row_of_room_def demo_room_def NUL_def)
  ultimately show ?thesis
    using purge_exact [where view = fst and e = demo_env and s = demo_server, OF _ _ _ surjective_pairing] mem_reliable
    by (simp add: demo_db_def row_of_room_def demo_room_def default_config_def)
qed

end
