(* ===== verification/App_Routes.thy ===== *)
theory App_Routes
  imports Router Server
begin

text \<open>
  The routes webapi.cpp registers, in the order it does, the table they amount to, and what a request
  that is no upgrade does to the server.
\<close>

section \<open>The rules\<close>

datatype app_handler =
    Serve_Bundle | Pow_Challenge | Create_Room_Route | Activate_Route | Is_Alive_Route | Delete_Room_Route
  | Get_Info | Get_Version | Ws_Route

definition route :: "string \<Rightarrow> HTTPMethod \<Rightarrow> bool \<Rightarrow> app_handler \<Rightarrow> app_handler rule" where
  "route url m ws h = \<lparr>rule_text = url, rule_methods = push_bit (method_index m) 1, is_websocket = ws, rule_handler = h\<rparr>"

definition app_rules :: "app_handler rule list" where
  "app_rules =
     [route ''/'' GET False Serve_Bundle,
      route ''/api/pow_challenge'' GET False Pow_Challenge,
      route ''/api/rooms'' POST False Create_Room_Route,
      route ''/api/rooms/<string>/activate'' POST False Activate_Route,
      route ''/api/is_alive'' POST False Is_Alive_Route,
      route ''/api/rooms/<string>'' DELETE False Delete_Room_Route,
      route ''/api/info'' GET False Get_Info,
      route ''/api/version'' GET False Get_Version,
      route ''/ws'' GET True Ws_Route]"

definition app_router :: "app_handler router" where
  "app_router = (case router_validate app_rules of Some (Inr router) \<Rightarrow> router | _ \<Rightarrow> new_router)"

lemma app_router_valid: "router_validate app_rules = Some (Inr app_router)"
proof -
  have "case router_validate app_rules of Some (Inr _) \<Rightarrow> True | _ \<Rightarrow> False" by code_simp
  then show ?thesis by (auto simp: app_router_def split: option.splits sum.splits)
qed

section \<open>The table of the program's routes\<close>

text \<open>A room's id between the common prefix and what follows it.\<close>

definition room_param :: "string \<Rightarrow> string \<Rightarrow> string option" where
  "room_param rest url =
     (let n = length ''/api/rooms/''; rid = takeWhile (\<lambda>c. c \<noteq> CHR ''/'') (drop n url)
      in if take n url = ''/api/rooms/'' \<and> rid \<noteq> [] \<and> drop (n + length rid) url = rest then Some rid else None)"

definition app_route :: "HTTPMethod \<Rightarrow> string \<Rightarrow> (app_handler \<times> string list) option" where
  "app_route m url =
     (if m = GET
      then (if url = ''/'' then Some (Serve_Bundle, [])
            else if url = ''/api/pow_challenge'' then Some (Pow_Challenge, [])
            else if url = ''/api/info'' then Some (Get_Info, [])
            else if url = ''/api/version'' then Some (Get_Version, [])
            else if url = ''/ws'' then Some (Ws_Route, [])
            else None)
      else if m = POST
      then (if url = ''/api/rooms'' then Some (Create_Room_Route, [])
            else if url = ''/api/is_alive'' then Some (Is_Alive_Route, [])
            else map_option (\<lambda>rid. (Activate_Route, [rid])) (room_param ''/activate'' url))
      else if m = DELETE then map_option (\<lambda>rid. (Delete_Room_Route, [rid])) (room_param [] url)
      else None)"

lemma parse_literal: "CHR ''<'' \<notin> set u \<Longrightarrow> parse_pattern (u @ v) = map_option ((@) (map Lit u)) (parse_pattern v)"
proof (induction u)
  case Nil
  then show ?case by (cases "parse_pattern v") auto
next
  case (Cons c u)
  then show ?case by (cases "parse_pattern v") auto
qed

lemma seg_match_text: "seg_match strtod (map Lit u) url ps = (if url = u then Some ps else None)"
proof -
  have "take (length u) url = u \<and> drop (length u) url = [] \<longleftrightarrow> url = u" by (metis append_Nil2 append_take_drop_id drop_all order_refl take_all)
  then show ?thesis using seg_match_literal [of strtod u "[]" url ps] by auto
qed

lemma pattern_match_literal:
  "CHR ''<'' \<notin> set u \<Longrightarrow> pattern_match strtod u url = (if url = u then Some no_params else None)"
  using parse_literal [of u "[]"] by (simp add: pattern_match_def seg_match_text)

lemma pattern_match_room:
  assumes "CHR ''<'' \<notin> set rest"
  shows "pattern_match strtod (''/api/rooms/'' @ ''<string>'' @ rest) url =
    map_option (\<lambda>rid. no_params\<lparr>string_params := [rid]\<rparr>) (room_param rest url)"
proof -
  have "parse_pattern (''<string>'' @ rest) = map_option ((#) (Par P_STRING)) (parse_pattern rest)"
    by (simp add: param_at_def paramTraits_def)
  also have "parse_pattern rest = Some (map Lit rest)" using parse_literal [OF assms, of "[]"] by simp
  finally have p: "parse_pattern (''/api/rooms/'' @ ''<string>'' @ rest) = Some (map Lit ''/api/rooms/'' @ Par P_STRING # map Lit rest)"
    using parse_literal [of "''/api/rooms/''" "''<string>'' @ rest"] by simp
  have m: "seg_match strtod (Par P_STRING # map Lit rest) s no_params =
      (let w = takeWhile (\<lambda>c. c \<noteq> CHR ''/'') s
       in if w \<noteq> [] \<and> drop (length w) s = rest then Some (no_params\<lparr>string_params := [w]\<rparr>) else None)" for s
    by (cases s) (simp_all add: take_param_def Let_def seg_match_text no_params_def)
  show ?thesis
    unfolding pattern_match_def p option.case seg_match_literal m room_param_def Let_def
    by (simp add: add.commute)
qed

lemma foreach_one:
  "foreach_method (push_bit (method_index GET) 1) = [GET]"
  "foreach_method (push_bit (method_index POST) 1) = [POST]"
  "foreach_method (push_bit (method_index DELETE) 1) = [DELETE]"
  by code_simp+

lemma rules_for_app:
  "rules_for GET app_rules =
     [route ''/'' GET False Serve_Bundle, route ''/api/pow_challenge'' GET False Pow_Challenge, route ''/api/info'' GET False Get_Info,
      route ''/api/version'' GET False Get_Version, route ''/ws'' GET True Ws_Route]"
  "rules_for POST app_rules =
     [route ''/api/rooms'' POST False Create_Room_Route, route ''/api/rooms/<string>/activate'' POST False Activate_Route,
      route ''/api/is_alive'' POST False Is_Alive_Route]"
  "rules_for DELETE app_rules = [route ''/api/rooms/<string>'' DELETE False Delete_Room_Route]"
  "m \<noteq> GET \<Longrightarrow> m \<noteq> POST \<Longrightarrow> m \<noteq> DELETE \<Longrightarrow> rules_for m app_rules = []"
  unfolding rules_for_def app_rules_def route_def by (simp_all only: filter.simps rule.simps foreach_one) simp_all

lemma not_room [simp]: "room_param rest ''/api/is_alive'' = None" "room_param rest ''/api/rooms'' = None"
  by (simp_all add: room_param_def)

definition route_answer :: "res_state \<Rightarrow> app_handler \<times> string list \<Rightarrow> (app_handler, 'f) dispatched" where
  "route_answer res x =
     (let (h, ids) = x in if h = Ws_Route then Answered (res_fail 404 res) else Call h (no_params\<lparr>string_params := ids\<rparr>) res)"

lemma rule_answer_app: "rule_answer strtod (rules_for m app_rules) url res = map_option (route_answer res) (app_route m url)"
proof -
  have s: "\<not> slash_match strtod (rules_for m app_rules) url"
  proof -
    have "\<not> slashed r" if "r \<in> set app_rules" for r
      using that by (auto simp: app_rules_def route_def slashed_def)
    then show ?thesis by (auto simp: slash_match_def list_ex_iff rules_for_def)
  qed
  note lit = pattern_match_literal [of "''/''"] pattern_match_literal [of "''/api/pow_challenge''"] pattern_match_literal [of "''/api/info''"]
    pattern_match_literal [of "''/api/version''"] pattern_match_literal [of "''/ws''"] pattern_match_literal [of "''/api/rooms''"]
    pattern_match_literal [of "''/api/is_alive''"]
  note room = pattern_match_room [of "''/activate''", simplified] pattern_match_room [of "[]", simplified]
  have n: "no_params\<lparr>string_params := []\<rparr> = no_params" by (simp add: no_params_def)
  consider "m = GET" | "m = POST" | "m = DELETE" | "m \<noteq> GET" "m \<noteq> POST" "m \<noteq> DELETE" by blast
  then show ?thesis
  proof cases
    case 1
    show ?thesis using s unfolding 1 rules_for_app rule_answer_def
      by (simp add: lit route_def app_route_def route_answer_def n)
  next
    case 2
    show ?thesis using s unfolding 2 rules_for_app rule_answer_def
      by (cases "room_param ''/activate'' url") (auto simp: lit room route_def app_route_def route_answer_def n)
  next
    case 3
    show ?thesis using s unfolding 3 rules_for_app rule_answer_def
      by (cases "room_param [] url") (auto simp: room route_def app_route_def route_answer_def)
  next
    case 4
    then show ?thesis using s rules_for_app(4) [OF 4] by (simp add: rule_answer_def app_route_def)
  qed
qed

text \<open>What a router with the program's rules should do with a method and a path.\<close>

definition app_answer :: "HTTPMethod \<Rightarrow> string \<Rightarrow> res_state \<Rightarrow> (app_handler, 'f) dispatched" where
  "app_answer m url res =
     (let ms = filter (\<lambda>m. app_route m url \<noteq> None) [DELETE, GET, POST]
      in if m = OPTIONS
         then if url = ''/*'' then Answered (options_ok ''OPTIONS, HEAD, DELETE, GET, POST'' res)
              else if ms = [] then Answered (res_fail 404 res)
              else Answered (options_ok (''OPTIONS, HEAD'' @ concat (map (\<lambda>m. '', '' @ method_name m) ms)) res)
         else if m = HEAD
         then case app_route GET url of
                None \<Rightarrow> Answered (res_fail 404 res)
              | Some x \<Rightarrow> route_answer (res\<lparr>skip_body := True\<rparr>) x
         else case app_route m url of
                None \<Rightarrow> Answered (res_end (get_error (if ms = [] then 404 else 405) res))
              | Some x \<Rightarrow> route_answer res x)"

lemma app_rules_ok: "length app_rules \<le> 65534" "list_all (\<lambda>r. NUL \<notin> set (rule_text r)) app_rules"
  by (simp_all add: app_rules_def route_def NUL_def)

lemma any_app_route:
  "list_ex (\<lambda>m'. app_route m' url \<noteq> None) all_methods \<longleftrightarrow> filter (\<lambda>m. app_route m url \<noteq> None) [DELETE, GET, POST] \<noteq> []"
  by (auto simp: all_methods_def app_route_def split: if_splits)

lemma lookup_app: "fst (lookup strtod app_router m url) \<noteq> 0 \<longleftrightarrow> app_route m url \<noteq> None"
  using any_method_iff [OF app_router_valid app_rules_ok, of strtod m url new_res] by (simp add: rule_answer_app)

lemma allow_matching_fold:
  "fold (\<lambda>m (matched, allow). if P m then (True, if m = HEAD then allow else append_name m allow) else (matched, allow)) ms (b, a)
    = (b \<or> list_ex P ms, a @ concat (map (\<lambda>m. '', '' @ method_name m) (filter (\<lambda>m. P m \<and> m \<noteq> HEAD) ms)))"
  by (induction ms arbitrary: b a) (auto simp: append_name_def)

lemma options_app:
  "allow_matching strtod app_router url =
    (let ms = filter (\<lambda>m. app_route m url \<noteq> None) [DELETE, GET, POST]
     in (ms \<noteq> [], ''OPTIONS, HEAD'' @ concat (map (\<lambda>m. '', '' @ method_name m) ms)))"
proof -
  have f: "filter (\<lambda>m. app_route m url \<noteq> None \<and> m \<noteq> HEAD) all_methods = filter (\<lambda>m. app_route m url \<noteq> None) [DELETE, GET, POST]"
    by (simp add: all_methods_def app_route_def)
  show ?thesis
    unfolding allow_matching_def lookup_app allow_matching_fold f any_app_route [symmetric] Let_def by simp
qed

lemma empty_lookup: "is_empty (trie (router m)) \<Longrightarrow> url \<noteq> [] \<Longrightarrow> fst (lookup strtod router m url) = 0"
  by (cases "trie (router m)") (simp add: is_empty_def lookup_def find_url_def)

lemma app_empty: "is_empty (trie (app_router m)) \<longleftrightarrow> m \<noteq> GET \<and> m \<noteq> POST \<and> m \<noteq> DELETE"
proof -
  have "app_route GET ''/'' \<noteq> None" "app_route POST ''/api/rooms'' \<noteq> None" "app_route DELETE ''/api/rooms/x'' \<noteq> None"
    by (simp_all add: app_route_def room_param_def)
  then have n: "\<not> is_empty (trie (app_router GET))" "\<not> is_empty (trie (app_router POST))" "\<not> is_empty (trie (app_router DELETE))"
    using empty_lookup [of app_router] lookup_app by (metis list.distinct(1))+
  have "is_empty (trie (app_router m))" if "m \<noteq> GET" "m \<noteq> POST" "m \<noteq> DELETE"
    using router_tables [OF app_router_valid, of m] rules_for_app(4) [OF that]
    by (auto simp: validate_def optimize_def new_node_def is_empty_def split: if_splits) (metis node.sel(5))
  with n show ?thesis by blast
qed

lemma allow_all_app: "allow_all app_router = ''OPTIONS, HEAD, DELETE, GET, POST''"
proof -
  have f: "fold (\<lambda>m allow. if m = HEAD then allow else if \<not> P m then append_name m allow else allow) ms a
      = a @ concat (map (\<lambda>m. '', '' @ method_name m) (filter (\<lambda>m. \<not> P m \<and> m \<noteq> HEAD) ms))" for P ms and a :: string
    by (induction ms arbitrary: a) (auto simp: append_name_def)
  show ?thesis unfolding allow_all_def f app_empty by (simp add: method_name_def method_index_def all_methods_def method_strings_def)
qed

lemma handle_full_app: "handle_full strtod app_router m url res = app_answer m url res"
proof -
  consider "m = OPTIONS" | "m = HEAD" | "m \<noteq> OPTIONS" "m \<noteq> HEAD" by blast
  then show ?thesis
  proof cases
    case 1
    then show ?thesis
      by (simp add: handle_full_def handle_initial_def app_answer_def allow_all_app options_app Let_def)
  next
    case 2
    obtain r ps where l: "lookup strtod app_router GET url = (r, ps)" by (cases "lookup strtod app_router GET url")
    have h: "fst (lookup strtod app_router HEAD url) = 0" using lookup_app [of strtod HEAD url] by (simp add: app_route_def)
    show ?thesis
    proof (cases "r = 0")
      case True
      then have "app_route GET url = None" using lookup_app [of strtod GET url] l by (cases "app_route GET url") auto
      then show ?thesis using True 2 h l
        by (cases "lookup strtod app_router HEAD url") (simp add: handle_full_def handle_initial_def app_answer_def Let_def)
    next
      case False
      have "rule_answer strtod (rules_for GET app_rules) url (res\<lparr>skip_body := True\<rparr>) = Some (handle_found app_router url (r, ps, GET) (res\<lparr>skip_body := True\<rparr>))"
        by (rule handle_found_answer [OF app_router_valid lookup_found_as [OF app_router_valid app_rules_ok l] False])
      then show ?thesis using 2 h l False
        by (cases "lookup strtod app_router HEAD url") (auto simp: handle_full_def handle_initial_def app_answer_def Let_def rule_answer_app)
    qed
  next
    case 3
    then show ?thesis
      using handle_full_answer [OF app_router_valid app_rules_ok 3(2,1), of strtod url res] any_app_route [of url]
      by (cases "app_route m url") (simp_all add: rule_answer_app app_answer_def Let_def)
  qed
qed


text \<open>
  C37: the program's routes. Its router answers every method and path as the table of its routes says:
  it runs the handler of the route with the room id that stands in the path, answers 404 where no
  method has the path and 405 where only other methods have it, treats \<open>HEAD\<close> as \<open>GET\<close> without a body
  and lists the methods of the path for \<open>OPTIONS\<close>.
\<close>

theorem app_routing: "handle_full strtod app_router m url res = app_answer m url res"
  by (rule handle_full_app)

section \<open>Requests and the server\<close>

text \<open>
  A request that is no upgrade, from its method and path to its response: \<open>handle\<close> runs the handler of
  the route, assigns what it returns and ends the response; an exception becomes a 500.
\<close>

definition run_handler ::
    "'d env \<Rightarrow> clock \<Rightarrow> string \<Rightarrow> string \<Rightarrow> app_handler \<Rightarrow> 'f routing_params \<Rightarrow> 'd server \<Rightarrow> 'd http_result" where
  "run_handler e now inm req_body h ps s =
     (case h of
        Serve_Bundle \<Rightarrow> (Inr (serveBundle (WebAPI e) inm), [], s)
      | Pow_Challenge \<Rightarrow> let (r, s) = pow_challenge e now s in (Inr r, [], s)
      | Create_Room_Route \<Rightarrow> create_room e now req_body s
      | Activate_Route \<Rightarrow> activate_room e (string_params ps ! 0) req_body s
      | Is_Alive_Route \<Rightarrow> is_alive e req_body s
      | Delete_Room_Route \<Rightarrow> delete_room_route e (string_params ps ! 0) req_body s
      | Get_Info \<Rightarrow> (Inr (get_info (WebAPI e) inm), [], s)
      | Get_Version \<Rightarrow> (Inr (get_version e), [], s)
      | Ws_Route \<Rightarrow> (Inl (Undefined ''no request handler''), [], s))"

definition finish :: "exn + response \<Rightarrow> res_state \<Rightarrow> exn + res_state" where
  "finish r res =
     (case r of
        Inr r \<Rightarrow> Inr (res_end (res_assign r res))
      | Inl (Runtime_Error _) \<Rightarrow> Inr (res_end (res_assign (response_code 500) res))
      | Inl (Undefined u) \<Rightarrow> Inl (Undefined u))"

definition http_request ::
    "'f strtod \<Rightarrow> 'd env \<Rightarrow> clock \<Rightarrow> HTTPMethod \<Rightarrow> string \<Rightarrow> string \<Rightarrow> string \<Rightarrow> 'd server
     \<Rightarrow> (exn + res_state) \<times> ws_event list \<times> 'd server" where
  "http_request strtod e now m url inm req_body s =
     (case handle_full strtod app_router m url new_res of
        Answered res \<Rightarrow> (Inr res, [], s)
      | Throws x \<Rightarrow> (Inl x, [], s)
      | Call h ps res \<Rightarrow> let (r, evs, s) = run_handler e now inm req_body h ps s in (finish r res, evs, s))"

text \<open>The step of the server a request stands for, if any.\<close>

definition request_event :: "HTTPMethod \<Rightarrow> string \<Rightarrow> string \<Rightarrow> event option" where
  "request_event m url req_body =
     (case app_route (if m = HEAD then GET else m) url of
        Some (Pow_Challenge, _) \<Rightarrow> Some Http_Pow
      | Some (Create_Room_Route, _) \<Rightarrow> Some (Http_Create req_body)
      | Some (Activate_Route, ids) \<Rightarrow> Some (Http_Activate (hd ids) req_body)
      | Some (Is_Alive_Route, _) \<Rightarrow> Some (Http_Alive req_body)
      | Some (Delete_Room_Route, ids) \<Rightarrow> Some (Http_Delete (hd ids) req_body)
      | _ \<Rightarrow> None)"

lemma app_route_options: "app_route OPTIONS url = None" "app_route HEAD url = None"
  by (simp_all add: app_route_def)

lemma app_route_ids:
  "app_route m url = Some (h, ids) \<Longrightarrow> (h = Activate_Route \<or> h = Delete_Room_Route) \<longrightarrow> (\<exists>rid. ids = [rid])"
  by (auto simp: app_route_def split: if_splits)

lemma http_request_step:
  fixes strtod :: "'f strtod"
  assumes "http_request strtod e now m url inm req_body s = (r, evs, s')"
  shows "case request_event m url req_body of
           None \<Rightarrow> evs = [] \<and> s' = s
         | Some ev \<Rightarrow> serve e s ev evs s'"
proof -
  define m' where "m' = (if m = HEAD then GET else m)"
  have a: "handle_full strtod app_router m url new_res =
      (case app_route m' url of
         Some (h, ids) \<Rightarrow> route_answer (if m = HEAD then new_res\<lparr>skip_body := True\<rparr> else new_res) (h, ids)
       | None \<Rightarrow> handle_full strtod app_router m url new_res)"
    using app_route_options by (auto simp: handle_full_app app_answer_def m'_def Let_def split: option.split)
  show ?thesis
  proof (cases "app_route m' url")
    case None
    then have "\<exists>res. handle_full strtod app_router m url new_res = Answered res"
      by (auto simp: handle_full_app app_answer_def m'_def Let_def split: if_splits)
    then show ?thesis using assms None by (auto simp: http_request_def request_event_def m'_def [symmetric])
  next
    case (Some x)
    obtain h ids where x: "x = (h, ids)" by (cases x)
    define res where "res = (if m = HEAD then new_res\<lparr>skip_body := True\<rparr> else new_res)"
    have f: "handle_full strtod app_router m url new_res = route_answer res (h, ids)" using a Some x by (simp add: res_def)
    show ?thesis
    proof (cases "h = Ws_Route")
      case True
      then show ?thesis using assms f Some x
        by (auto simp: http_request_def request_event_def m'_def [symmetric] route_answer_def)
    next
      case False
      define q :: "'f routing_params" where "q = no_params\<lparr>string_params := ids\<rparr>"
      obtain r0 evs0 s0 where h: "run_handler e now inm req_body h q s = (r0, evs0, s0)" by (metis prod_cases3)
      have "evs0 = evs" "s0 = s'" using assms f h False by (auto simp: http_request_def route_answer_def q_def)
      with h have h: "run_handler e now inm req_body h q s = (r0, evs, s')" by simp
      have ids: "(h = Activate_Route \<or> h = Delete_Room_Route) \<longrightarrow> ids ! 0 = hd ids" using app_route_ids [of m' url h ids] Some x by auto
      show ?thesis
        using h ids Some x False
        by (cases h) (auto simp: run_handler_def request_event_def m'_def [symmetric] q_def split: prod.splits intro: serve.intros)
    qed
  qed
qed


end
