(* ===== verification/Web_Rooms.thy ===== *)
theory Web_Rooms
  imports Web_Http
begin

text \<open>
  What the HTTP handlers of src/src/webapi.cpp do to the rooms: each theorem gives the answer and the
  tables it leaves, on an engine whose statements do not fail.
\<close>

lemma code_json [simp]: "code (jsonError e n c m) = n" "code (json_ok e v) = 200"
  by (simp_all add: jsonError_def json_ok_def response_json_def add_header_def set_header_def Let_def)

context reliable_engine begin

lemma countRooms_run: "view (snd (countRooms run s)) = view s"
  using run_exec [of Count_Rooms "[]" s] by (auto simp: countRooms_def split_beta Let_def)

lemma activateRoom_run:
  "fst (activateRoom run rid s) = has_room (tabs (view s)) rid
   \<and> (\<exists>now. view (snd (activateRoom run rid s))
      = (view s)\<lparr>tabs := snd (update_room rid (\<lambda>r. r\<lparr>r_active := now, r_activated := 1\<rparr>) (tabs (view s)))\<rparr>)"
proof -
  obtain now where "(fst (run (sql_text Activate_Room) [SText rid] s), view (snd (run (sql_text Activate_Room) [SText rid] s)))
      = exec_stmt Activate_Room [SText rid] now (view s)"
    using run_exec by metis
  then show ?thesis
    by (auto simp: activateRoom_def bindText_def update_room_def split_beta Let_def has_room_def list_ex_iff
        filter_empty_conv intro!: exI [of _ now])
qed

end

section \<open>Creating a room\<close>

lemma create_room_tail_run:
  assumes "reliable (db_run e) view" and "create_room_tail e now bd s = (Inr r, evs, s')"
  shows "evs = [] \<and> rooms_mgr s' = rooms_mgr s \<and> captcha_st s' = captcha_st s
    \<and> (if code r = 200
       then \<exists>room. room_id room = fst (randomRoomId (generator s)) \<and> length (room_name room) \<le> 80
         \<and> max_participants room = min (maxParticipants (cfg e)) (maxParticipantsCap (cfg e)) \<and> \<not> activated room
         \<and> \<not> has_room (tabs (view (database s))) (room_id room)
         \<and> view (database s') = (view (database s))\<lparr>tabs := snd (insert_room (row_of_room room) (tabs (view (database s))))\<rparr>
       else view (database s') = view (database s))"
proof -
  have e: "reliable_engine (db_run e) view" by unfold_locales (rule assms(1))
  define d1 where "d1 = (if 0 < totalRoomsCap (cfg e) then snd (countRooms (db_run e) (database s)) else database s)"
  have d1: "view d1 = view (database s)" by (simp add: d1_def reliable_engine.countRooms_run [OF e])
  obtain name pw where f: "exn_bind (js_str e bd ''name'' ''Secret chat'') (\<lambda>name.
      exn_bind (js_bool e bd ''requires_password'' False) (\<lambda>pw. Inr (name, pw))) = Inr (name, pw)"
    using assms(2) by (auto simp: create_room_tail_def split: sum.splits)
  define room where "room = \<lparr>room_id = fst (randomRoomId (generator s)),
      room_name = if 80 < length name then take 80 name else name,
      max_participants = min (maxParticipants (cfg e)) (maxParticipantsCap (cfg e)), created_at = now 1,
      last_active_at = now 1, activated = False, requires_password = pw\<rparr>"
  define d2 where "d2 = snd (createRoom (db_run e) room d1)"
  note cr = reliable_engine.createRoom_run [OF e, of room d1, folded d2_def, unfolded d1]
  have "evs = [] \<and> (code r \<noteq> 200 \<and> s' = s\<lparr>database := d1\<rparr>
      \<or> code r \<noteq> 200 \<and> \<not> fst (createRoom (db_run e) room d1) \<and> s' = s\<lparr>generator := snd (randomRoomId (generator s)), database := d2\<rparr>
      \<or> code r = 200 \<and> fst (createRoom (db_run e) room d1) \<and> s' = s\<lparr>generator := snd (randomRoomId (generator s)), database := d2\<rparr>)"
    using assms(2) f
    by (auto simp: create_room_tail_def Let_def split_beta d1_def d2_def room_def split: if_splits)
  then show ?thesis
    using cr d1 by (auto simp: room_def insert_room_def row_of_room_def intro!: exI [of _ room])
qed


definition small_env :: "(db \<times> int) env" where
  "small_env = \<lparr>cfg = default_config, db_run = mem_run, json_sort = insertion_sort, json_order = (\<lambda>ks. ks),
     conn_order = (\<lambda>cs. cs), index_html = [], version = [], git_short = []\<rparr>"

definition small_server :: "(db \<times> int) server" where
  "small_server = \<lparr>database = (one_challenge_db, 7), rooms_mgr = empty_manager, captcha_st = captcha_start, generator = rng_instance 1\<rparr>"

lemma small_sel [simp]:
  "db_run small_env = mem_run" "json_sort small_env = insertion_sort" "cfg small_env = default_config"
  "conn_order small_env = (\<lambda>cs. cs)" "database small_server = (one_challenge_db, 7)" "rooms_mgr small_server = empty_manager"
  by (simp_all add: small_env_def small_server_def)

lemma load_empty: "load ''{}'' = Some (RObject [])"
  by code_simp

lemma typed_missing: "distinct (map fst kvs) \<Longrightarrow> k \<notin> fst ` set kvs \<Longrightarrow> json_sort e = insertion_sort \<Longrightarrow>
   typed_field e (RObject kvs) k ty = Inr None"
  using ins.has_iff [of kvs k] by (simp add: typed_field_def)


section \<open>Activating a room\<close>

definition pair_fits :: "config \<Rightarrow> ChallengePair \<Rightarrow> bool" where
  "pair_fits c p \<longleftrightarrow> (\<forall>t \<in> {plaintext_b64 p, ciphertext_b64 p, nonce_b64 p}.
     t \<noteq> [] \<and> to_int32 (int (length t)) \<le> to_int32 (challengeMaxBlobBytes c * 2))"

lemma map_sum_eq:
  "map_sum f g x = Inr y \<longleftrightarrow> (\<exists>z. x = Inr z \<and> y = g z)" "map_sum f g x = Inl w \<longleftrightarrow> (\<exists>z. x = Inl z \<and> w = f z)"
  by (cases x; auto)+

lemma read_pairs_fit:
  "read_pairs e els = Inr (Inr ps) \<Longrightarrow> length ps = length els \<and> (\<forall>p \<in> set ps. pair_fits (cfg e) p)"
  "read_pairs e els = Inr (Inl r) \<Longrightarrow> code r = 400"
  by (induction els arbitrary: ps)
    (auto simp: exn_bind_Inr Let_def pair_fits_def not_less map_sum_eq split: if_splits)

lemma rooms_fold_add_pair: "rooms (fold (add_pair rid) ps t) = rooms t"
proof (induction ps arbitrary: t)
  case (Cons p ps)
  have "rooms (add_pair rid p t) = rooms t" by (simp add: add_pair_def insert_challenge_def)
  then show ?case using Cons.IH by simp
qed simp

lemma find_row_update:
  assumes "\<And>r. r_id (f r) = r_id r"
  shows "find_row rid (snd (update_room rid f t)) = map_option f (find_row rid t)"
proof -
  have "List.find (\<lambda>r. r_id r = rid) (map (\<lambda>r. if r_id r = rid then f r else r) xs)
      = map_option f (List.find (\<lambda>r. r_id r = rid) xs)" for xs
    by (induction xs) (use assms in auto)
  then show ?thesis by (simp add: find_row_def update_room_def)
qed


definition demo_body :: string where
  "demo_body = dump (\<lambda>ks. ks) (WObject [(''challenges'', WList (replicate 10 (WObject
     [(''plaintext'', WString ''cA''), (''ciphertext'', WString ''Yw''), (''nonce'', WString ''bg'')])))])"

definition demo_element :: rvalue where
  "demo_element = RObject [(''plaintext'', RString ''cA'' False), (''ciphertext'', RString ''Yw'' False), (''nonce'', RString ''bg'' False)]"

lemma load_demo_body: "load demo_body = Some (RObject [(''challenges'', RList (replicate 10 demo_element))])"
  by code_simp

lemma read_demo_body: "read_pairs small_env (replicate n demo_element) = Inr (Inr (replicate n (hd demo_pairs)))"
  by (induction n)
    (simp_all add: js_str_def demo_element_def lookup_simps demo_pairs_def default_config_def to_int32_def)


section \<open>Asking which rooms are alive\<close>

definition submitted_ids :: "rvalue list \<Rightarrow> string list" where
  "submitted_ids vs = map (\<lambda>v. case s_of v of Inl x \<Rightarrow> [] | Inr i \<Rightarrow> i) (filter (\<lambda>v. t_of v = String) vs)"

lemma alive_loop_run:
  assumes "reliable (db_run e) view"
  shows "alive_loop e vs d = Inr (a, g, d') \<Longrightarrow>
    a = map WString (filter (has_room (tabs (view d))) (submitted_ids vs))
    \<and> g = map WString (filter (\<lambda>i. \<not> has_room (tabs (view d)) i) (submitted_ids vs)) \<and> view d' = view d"
proof (induction vs arbitrary: d a g)
  case (Cons v vs)
  have e: "reliable_engine (db_run e) view" by unfold_locales (rule assms)
  have has: "has_room t i \<longleftrightarrow> find_row i t \<noteq> None" for t i
    by (auto simp: has_room_def find_row_def list_ex_iff find_None_iff)
  show ?case
  proof (cases "t_of v = String")
    case True
    then obtain i al go where i: "s_of v = Inr i"
      and rest: "alive_loop e vs (snd (findRoom (db_run e) i d)) = Inr (al, go, d')"
      and ag: "(a, g) = (case fst (findRoom (db_run e) i d) of None \<Rightarrow> (al, WString i # go) | Some _ \<Rightarrow> (WString i # al, go))"
      using Cons.prems by (auto simp: exn_bind_Inr split_beta Let_def split: option.splits)
    show ?thesis
      using Cons.IH [OF rest] ag True i
      by (auto simp: reliable_engine.findRoom_run [OF e] submitted_ids_def has split: option.splits)
  next
    case False
    then show ?thesis using Cons by (simp add: submitted_ids_def)
  qed
qed (simp add: submitted_ids_def)

text \<open>
  C30: \<open>POST /api/is_alive\<close> sorts the submitted ids truthfully. Every string of \<open>room_ids\<close> is reported once,
  in order, under \<open>alive\<close> when the room exists and under \<open>gone\<close> when it does not; other elements are
  passed over, and nothing is changed.
\<close>

lemma is_alive_partition:
  assumes "reliable (db_run e) view" and "load b = Some bd" and "typed_field e bd ''room_ids'' List = Inr (Some (RList vs))"
    and "is_alive e b s = (Inr r, evs, s')"
  shows "r = json_ok e
      (w_set ''gone'' (WList (map WString (filter (\<lambda>i. \<not> has_room (tabs (view (database s))) i) (submitted_ids vs))))
        (w_set ''alive'' (WList (map WString (filter (has_room (tabs (view (database s)))) (submitted_ids vs)))) WNull))
    \<and> evs = [] \<and> rooms_mgr s' = rooms_mgr s \<and> view (database s') = view (database s)"
proof -
  obtain a g d where run: "alive_loop e vs (database s) = Inr (a, g, d)"
    and r: "r = json_ok e (w_set ''gone'' (WList g) (w_set ''alive'' (WList a) WNull))" "evs = []" "s' = s\<lparr>database := d\<rparr>"
    using assms(2-4) by (auto simp: is_alive_def lo_def split: sum.splits)
  show ?thesis using alive_loop_run [OF assms(1) run] r by simp
qed

definition ids_body :: string where
  "ids_body = dump (\<lambda>ks. ks) (WObject [(''room_ids'', WList [WString ''r'', WTrue, WString ''q''])])"

lemma load_ids_body: "load ids_body = Some (RObject [(''room_ids'', RList [RString ''r'' False, RTrue, RString ''q'' False])])"
  by code_simp

section \<open>Deleting a room\<close>


definition stranger_body :: string where
  "stranger_body = dump (\<lambda>ks. ks) (WObject [(''token'', WString ''x'')])"

lemma load_stranger_body: "load stranger_body = Some (RObject [(''token'', RString ''x'' False)])"
  by code_simp


end
