(* ===== verification/Http_Parser.thy ===== *)
theory Http_Parser
  imports Router
begin

text \<open>
  src/src/crowlib/crow/http_parser_merged.h: the state machine that reads requests. \<open>execute\<close> is
  called with each piece of data that arrives; it reports what it finds through callbacks, which
  may change the parser and the state \<open>'h\<close> of whoever owns it. A pointer into the data is its offset;
  a mark that is not set is \<open>None\<close>. The callbacks of the program all return zero.
\<close>

section \<open>States\<close>

datatype pstate =
    s_dead | s_start_req | s_req_method | s_req_spaces_before_url | s_req_schema | s_req_schema_slash
  | s_req_schema_slash_slash | s_req_server_start | s_req_server | s_req_server_with_at | s_req_path
  | s_req_query_string_start | s_req_query_string | s_req_http_start | s_req_http_H | s_req_http_HT
  | s_req_http_HTT | s_req_http_HTTP | s_req_http_I | s_req_http_IC | s_req_http_major | s_req_http_dot
  | s_req_http_minor | s_req_http_end | s_req_line_almost_done
  | s_header_field_start | s_header_field | s_header_value_discard_ws | s_header_value_discard_ws_almost_done
  | s_header_value_discard_lws | s_header_value_start | s_header_value | s_header_value_lws
  | s_header_almost_done
  | s_chunk_size_start | s_chunk_size | s_chunk_parameters | s_chunk_size_almost_done
  | s_headers_almost_done | s_headers_done
  | s_chunk_data | s_chunk_data_almost_done | s_chunk_data_done
  | s_body_identity | s_body_identity_eof | s_message_done

text \<open>\<open>state <= s_headers_done\<close>: all but the last six.\<close>

definition PARSING_HEADER :: "pstate \<Rightarrow> bool" where
  "PARSING_HEADER s \<longleftrightarrow>
     s \<notin> {s_chunk_data, s_chunk_data_almost_done, s_chunk_data_done, s_body_identity, s_body_identity_eof, s_message_done}"

datatype hstate =
    h_general | h_C | h_CO | h_CON
  | h_matching_connection | h_matching_proxy_connection | h_matching_content_length
  | h_matching_transfer_encoding | h_matching_upgrade
  | h_connection | h_content_length | h_content_length_num | h_content_length_ws | h_transfer_encoding | h_upgrade
  | h_matching_transfer_encoding_token_start | h_matching_transfer_encoding_chunked | h_matching_transfer_encoding_token
  | h_matching_connection_keep_alive | h_matching_connection_close
  | h_transfer_encoding_chunked | h_connection_keep_alive | h_connection_close

datatype http_errno =
    CHPE_OK | CHPE_INVALID_EOF_STATE | CHPE_HEADER_OVERFLOW | CHPE_CLOSED_CONNECTION | CHPE_INVALID_VERSION
  | CHPE_INVALID_METHOD | CHPE_INVALID_URL | CHPE_LF_EXPECTED | CHPE_INVALID_HEADER_TOKEN
  | CHPE_INVALID_CONTENT_LENGTH | CHPE_UNEXPECTED_CONTENT_LENGTH | CHPE_INVALID_CHUNK_SIZE
  | CHPE_INVALID_CONSTANT | CHPE_STRICT | CHPE_UNKNOWN | CHPE_INVALID_TRANSFER_ENCODING

text \<open>The flags, one field for each bit.\<close>

record http_flags =
  F_CHUNKED :: bool
  F_CONNECTION_KEEP_ALIVE :: bool
  F_CONNECTION_CLOSE :: bool
  F_TRAILING :: bool
  F_UPGRADE :: bool
  F_SKIPBODY :: bool
  F_CONTENTLENGTH :: bool

definition no_flags :: http_flags where
  "no_flags = \<lparr>F_CHUNKED = False, F_CONNECTION_KEEP_ALIVE = False, F_CONNECTION_CLOSE = False, F_TRAILING = False,
     F_UPGRADE = False, F_SKIPBODY = False, F_CONTENTLENGTH = False\<rparr>"

record http_parser =
  pflags :: http_flags
  pstate :: pstate
  header_state :: hstate
  pindex :: "5 word"
  uses_transfer_encoding :: bool
  allow_chunked_length :: bool
  lenient_http_headers :: bool
  nread :: u32
  content_length :: u64
  qs_point :: u64
  http_major :: byte
  http_minor :: byte
  pmethod :: HTTPMethod
  perrno :: http_errno
  upgrade :: bool

text \<open>\<open>http_parser_init\<close>: everything zero, the state at the start of a request.\<close>

definition http_parser_init :: http_parser where
  "http_parser_init =
     \<lparr>pflags = no_flags, pstate = s_start_req, header_state = h_general, pindex = 0, uses_transfer_encoding = False,
      allow_chunked_length = False, lenient_http_headers = False, nread = 0, content_length = 0, qs_point = 0,
      http_major = 0, http_minor = 0, pmethod = DELETE, perrno = CHPE_OK, upgrade = False\<rparr>"

definition max_header_size :: nat where
  "max_header_size = 80 * 1024"

definition ULLONG_MAX :: u64 where
  "ULLONG_MAX = - 1"

section \<open>Characters\<close>

definition cr :: char where "cr = CHR 0x0D"
definition lf :: char where "lf = CHR 0x0A"
definition tab :: char where "tab = CHR 0x09"

definition LOWER :: "char \<Rightarrow> char" where
  "LOWER c = char_of (of_char c OR (0x20 :: nat))"

definition IS_ALPHA :: "char \<Rightarrow> bool" where
  "IS_ALPHA c \<longleftrightarrow> char_between (CHR ''a'') (CHR ''z'') (LOWER c)"

definition IS_NUM :: "char \<Rightarrow> bool" where
  "IS_NUM c \<longleftrightarrow> char_between (CHR ''0'') (CHR ''9'') c"

definition IS_MARK :: "char \<Rightarrow> bool" where
  "IS_MARK c \<longleftrightarrow> c \<in> {CHR ''-'', CHR ''_'', CHR ''.'', CHR ''!'', CHR ''~'', CHR ''*'', CHR 0x27, CHR ''('', CHR '')''}"

definition IS_USERINFO_CHAR :: "char \<Rightarrow> bool" where
  "IS_USERINFO_CHAR c \<longleftrightarrow> IS_ALPHA c \<or> IS_NUM c \<or> IS_MARK c
     \<or> c \<in> {CHR ''%'', CHR '';'', CHR '':'', CHR ''&'', CHR ''='', CHR ''+'', CHR ''$'', CHR '',''}"

definition IS_HEADER_CHAR :: "char \<Rightarrow> bool" where
  "IS_HEADER_CHAR c \<longleftrightarrow> c = cr \<or> c = lf \<or> c = tab \<or> (31 < (of_char c :: nat) \<and> of_char c \<noteq> (127 :: nat))"

text \<open>The table of token characters, in lower case; NUL stands for a character that is none.\<close>

definition tokens :: string where
  "tokens =
     replicate 33 NUL
     @ [CHR ''!'', NUL, CHR ''#'', CHR ''$'', CHR ''%'', CHR ''&'', CHR 0x27, NUL, NUL, CHR ''*'', CHR ''+'', NUL, CHR ''-'', CHR ''.'', NUL]
     @ ''0123456789'' @ replicate 7 NUL @ ''abcdefghijklmnopqrstuvwxyz'' @ [NUL, NUL, NUL, CHR ''^'', CHR ''_'', CHR 0x60]
     @ ''abcdefghijklmnopqrstuvwxyz'' @ [NUL, CHR ''|'', NUL, CHR ''~'', NUL]"

definition TOKEN :: "char \<Rightarrow> char" where
  "TOKEN c = (if of_char c < length tokens then tokens ! of_char c else NUL)"

text \<open>The bit table of URL characters and the table of hexadecimal digits; what is not listed is zero.\<close>

definition normal_url_char :: "nat list" where
  "normal_url_char = [0, 0, 0, 0, 246, 255, 255, 127, 255, 255, 255, 255, 255, 255, 255, 127] @ replicate 16 0"

definition IS_URL_CHAR :: "char \<Rightarrow> bool" where
  "IS_URL_CHAR c = bit (normal_url_char ! (of_char c div 8)) (of_char c mod 8)"

definition unhex :: "char \<Rightarrow> int" where
  "unhex c =
     (if char_between (CHR ''0'') (CHR ''9'') c then of_char c - 48
      else if char_between (CHR ''A'') (CHR ''F'') c then of_char c - 55
      else if char_between (CHR ''a'') (CHR ''f'') c then of_char c - 87
      else if (of_char c :: nat) < 128 then - 1 else 0)"

section \<open>URLs\<close>

text \<open>
  The state after a character of the URL, and the offset of the query where it starts. The offset is a
  difference of pointers; \<open>wild p\<close> is what it comes to when the start of the URL is not known, because
  it came with an earlier piece of data.
\<close>

definition mark_query :: "(nat \<Rightarrow> u64) \<Rightarrow> nat option \<Rightarrow> nat \<Rightarrow> http_parser \<Rightarrow> http_parser" where
  "mark_query wild url_mark p ps =
     ps\<lparr>qs_point := (case url_mark of Some m \<Rightarrow> word_of_nat (p - m) | None \<Rightarrow> wild p)\<rparr>"

definition url_state :: "pstate \<Rightarrow> char \<Rightarrow> pstate" where
  "url_state s ch =
     (if ch = CHR '' '' \<or> ch = cr \<or> ch = lf \<or> ch = tab \<or> ch = CHR 0x0C then s_dead
      else case s of
        s_req_spaces_before_url \<Rightarrow>
          if ch = CHR ''/'' \<or> ch = CHR ''*'' then s_req_path else if IS_ALPHA ch then s_req_schema else s_dead
      | s_req_schema \<Rightarrow> if IS_ALPHA ch then s else if ch = CHR '':'' then s_req_schema_slash else s_dead
      | s_req_schema_slash \<Rightarrow> if ch = CHR ''/'' then s_req_schema_slash_slash else s_dead
      | s_req_schema_slash_slash \<Rightarrow> if ch = CHR ''/'' then s_req_server_start else s_dead
      | s_req_server_with_at \<Rightarrow>
          if ch = CHR ''@'' then s_dead
          else if ch = CHR ''/'' then s_req_path
          else if ch = CHR ''?'' then s_req_query_string_start
          else if IS_USERINFO_CHAR ch \<or> ch = CHR ''['' \<or> ch = CHR '']'' then s_req_server else s_dead
      | s_req_server_start \<Rightarrow>
          if ch = CHR ''/'' then s_req_path
          else if ch = CHR ''?'' then s_req_query_string_start
          else if ch = CHR ''@'' then s_req_server_with_at
          else if IS_USERINFO_CHAR ch \<or> ch = CHR ''['' \<or> ch = CHR '']'' then s_req_server else s_dead
      | s_req_server \<Rightarrow>
          if ch = CHR ''/'' then s_req_path
          else if ch = CHR ''?'' then s_req_query_string_start
          else if ch = CHR ''@'' then s_req_server_with_at
          else if IS_USERINFO_CHAR ch \<or> ch = CHR ''['' \<or> ch = CHR '']'' then s_req_server else s_dead
      | s_req_path \<Rightarrow> if IS_URL_CHAR ch then s else if ch = CHR ''?'' then s_req_query_string_start else s_dead
      | s_req_query_string_start \<Rightarrow> if IS_URL_CHAR ch \<or> ch = CHR ''?'' then s_req_query_string else s_dead
      | s_req_query_string \<Rightarrow> if IS_URL_CHAR ch \<or> ch = CHR ''?'' then s_req_query_string else s_dead
      | _ \<Rightarrow> s_dead)"

definition parse_url_char ::
    "(nat \<Rightarrow> u64) \<Rightarrow> pstate \<Rightarrow> char \<Rightarrow> nat option \<Rightarrow> nat \<Rightarrow> http_parser \<Rightarrow> http_parser" where
  "parse_url_char wild s ch url_mark p ps =
     (let s' = url_state s ch; ps = ps\<lparr>pstate := s'\<rparr>
      in if s' = s_req_query_string_start then mark_query wild url_mark p ps else ps)"

section \<open>One call of the parser\<close>

datatype callback =
    On_message_begin | On_method | On_url string | On_header_field string | On_header_value string
  | On_headers_complete | On_body string | On_message_complete

type_synonym 'h callbacks = "callback \<Rightarrow> http_parser \<times> 'h \<Rightarrow> http_parser \<times> 'h"

text \<open>The local variables of a call, with the parser and its owner.\<close>

record 'h exec =
  parser :: http_parser
  owner :: 'h
  nread_local :: u32
  header_field_mark :: "nat option"
  header_value_mark :: "nat option"
  url_mark :: "nat option"
  url_start_mark :: "nat option"
  body_mark :: "nat option"

text \<open>
  How a case of the loop ends: \<open>break\<close>, a jump to \<open>reexecute\<close>, a \<open>return\<close>, or a jump to \<open>error\<close>.
\<close>

datatype 'h outcome = Break nat "'h exec" | Reexecute char nat "'h exec" | Return nat "'h exec" | Goto_error nat "'h exec"

definition on_parser :: "(http_parser \<Rightarrow> http_parser) \<Rightarrow> 'h exec \<Rightarrow> 'h exec" where
  "on_parser f x = x\<lparr>parser := f (parser x)\<rparr>"

definition set_state :: "pstate \<Rightarrow> 'h exec \<Rightarrow> 'h exec" where
  "set_state s = on_parser (\<lambda>ps. ps\<lparr>pstate := s\<rparr>)"

definition goto_state :: "pstate \<Rightarrow> nat \<Rightarrow> 'h exec \<Rightarrow> 'h outcome" where
  "goto_state s p x = Break p (set_state s x)"

text \<open>\<open>CROW_SET_ERRNO\<close> with the jump to \<open>error\<close> that follows it.\<close>

definition set_errno :: "http_errno \<Rightarrow> 'h exec \<Rightarrow> 'h exec" where
  "set_errno e x = on_parser (\<lambda>ps. ps\<lparr>nread := nread_local x, perrno := e\<rparr>) x"

definition fail :: "http_errno \<Rightarrow> nat \<Rightarrow> 'h exec \<Rightarrow> 'h outcome" where
  "fail e p x = Goto_error p (set_errno e x)"

text \<open>\<open>CROW_STRICT_CHECK\<close>.\<close>

definition strict_check :: "bool \<Rightarrow> nat \<Rightarrow> ('h exec \<Rightarrow> 'h outcome) \<Rightarrow> 'h exec \<Rightarrow> 'h outcome" where
  "strict_check bad p k x = (if bad then fail CHPE_STRICT p x else k x)"

definition save_nread :: "'h exec \<Rightarrow> 'h exec" where
  "save_nread x = on_parser (\<lambda>ps. ps\<lparr>nread := nread_local x\<rparr>) x"

definition reset_nread :: "'h exec \<Rightarrow> 'h exec" where
  "reset_nread x = (on_parser (\<lambda>ps. ps\<lparr>nread := 0\<rparr>) x)\<lparr>nread_local := 0\<rparr>"

definition call :: "'h callbacks \<Rightarrow> callback \<Rightarrow> 'h exec \<Rightarrow> 'h exec" where
  "call cb ev x = (let (ps, h) = cb ev (parser x, owner x) in x\<lparr>parser := ps, owner := h\<rparr>)"

text \<open>\<open>CROW_CALLBACK_NOTIFY_\<close>: the callback, a return if it left an error, and what follows.\<close>

definition notify :: "'h callbacks \<Rightarrow> callback \<Rightarrow> nat \<Rightarrow> ('h exec \<Rightarrow> 'h outcome) \<Rightarrow> 'h exec \<Rightarrow> 'h outcome" where
  "notify cb ev er k x =
     (let x = call cb ev x in if perrno (parser x) \<noteq> CHPE_OK then Return er x else k x)"

definition slice :: "string \<Rightarrow> nat \<Rightarrow> nat \<Rightarrow> string" where
  "slice data m n = take n (drop m data)"

text \<open>
  \<open>CROW_CALLBACK_DATA_\<close> for each of the four marks: nothing where the mark is not set; else the
  callback with the data from the mark up to \<open>to\<close>, and the mark is cleared.
\<close>

definition data_callback ::
    "'h callbacks \<Rightarrow> string \<Rightarrow> ('h exec \<Rightarrow> nat option) \<Rightarrow> ('h exec \<Rightarrow> 'h exec) \<Rightarrow> (string \<Rightarrow> callback)
     \<Rightarrow> nat \<Rightarrow> nat \<Rightarrow> ('h exec \<Rightarrow> 'h outcome) \<Rightarrow> 'h exec \<Rightarrow> 'h outcome" where
  "data_callback cb data mark unmark ev to er k x =
     (case mark x of
        None \<Rightarrow> k x
      | Some m \<Rightarrow> notify cb (ev (slice data m (to - m))) er (\<lambda>x. k (unmark x)) x)"

definition field_callback :: "'h callbacks \<Rightarrow> string \<Rightarrow> nat \<Rightarrow> nat \<Rightarrow> ('h exec \<Rightarrow> 'h outcome) \<Rightarrow> 'h exec \<Rightarrow> 'h outcome" where
  "field_callback cb data = data_callback cb data header_field_mark (\<lambda>x. x\<lparr>header_field_mark := None\<rparr>) On_header_field"

definition value_callback :: "'h callbacks \<Rightarrow> string \<Rightarrow> nat \<Rightarrow> nat \<Rightarrow> ('h exec \<Rightarrow> 'h outcome) \<Rightarrow> 'h exec \<Rightarrow> 'h outcome" where
  "value_callback cb data = data_callback cb data header_value_mark (\<lambda>x. x\<lparr>header_value_mark := None\<rparr>) On_header_value"

definition url_callback :: "'h callbacks \<Rightarrow> string \<Rightarrow> nat \<Rightarrow> nat \<Rightarrow> ('h exec \<Rightarrow> 'h outcome) \<Rightarrow> 'h exec \<Rightarrow> 'h outcome" where
  "url_callback cb data = data_callback cb data url_mark (\<lambda>x. x\<lparr>url_mark := None\<rparr>) On_url"

definition body_callback :: "'h callbacks \<Rightarrow> string \<Rightarrow> nat \<Rightarrow> nat \<Rightarrow> ('h exec \<Rightarrow> 'h outcome) \<Rightarrow> 'h exec \<Rightarrow> 'h outcome" where
  "body_callback cb data = data_callback cb data body_mark (\<lambda>x. x\<lparr>body_mark := None\<rparr>) On_body"

text \<open>\<open>CROW_MARK\<close>.\<close>

definition mark_at :: "nat \<Rightarrow> nat option \<Rightarrow> nat option" where
  "mark_at p m = (case m of None \<Rightarrow> Some p | Some _ \<Rightarrow> m)"

text \<open>\<open>CROW_COUNT_HEADER_SIZE\<close>.\<close>

definition count_header :: "nat \<Rightarrow> nat \<Rightarrow> ('h exec \<Rightarrow> 'h outcome) \<Rightarrow> 'h exec \<Rightarrow> 'h outcome" where
  "count_header n p k x =
     (let x = x\<lparr>nread_local := nread_local x + word_of_nat n\<rparr>
      in if word_of_nat max_header_size < nread_local x then fail CHPE_HEADER_OVERFLOW p x else k x)"

section \<open>The request line\<close>

definition first_method :: "char \<Rightarrow> HTTPMethod option" where
  "first_method ch =
     map_of [(CHR ''A'', ACL), (CHR ''B'', BIND), (CHR ''C'', CONNECT), (CHR ''D'', DELETE), (CHR ''G'', GET),
       (CHR ''H'', HEAD), (CHR ''L'', LOCK), (CHR ''M'', MKCOL), (CHR ''N'', NOTIFY), (CHR ''O'', OPTIONS),
       (CHR ''P'', POST), (CHR ''R'', REPORT), (CHR ''S'', SUBSCRIBE), (CHR ''T'', TRACE), (CHR ''U'', UNLOCK)] ch"

definition start_req :: "'h callbacks \<Rightarrow> char \<Rightarrow> nat \<Rightarrow> 'h exec \<Rightarrow> 'h outcome" where
  "start_req cb ch p x =
     (if ch = cr \<or> ch = lf then Break p x
      else let x = on_parser (\<lambda>ps. ps\<lparr>pflags := no_flags, uses_transfer_encoding := False, content_length := ULLONG_MAX\<rparr>) x
        in if \<not> IS_ALPHA ch then fail CHPE_INVALID_METHOD p x
           else let x = on_parser (\<lambda>ps. ps\<lparr>pmethod := DELETE, pindex := 1\<rparr>) x
             in case first_method ch of
                  None \<Rightarrow> fail CHPE_INVALID_METHOD p x
                | Some m \<Rightarrow>
                    notify cb On_message_begin (p + 1) (Break p) (on_parser (\<lambda>ps. ps\<lparr>pmethod := m, pstate := s_req_method\<rparr>) x))"

definition method_switch :: "HTTPMethod \<times> nat \<times> char \<Rightarrow> HTTPMethod option" where
  "method_switch =
     map_of [((POST, 1, CHR ''U''), PUT), ((POST, 1, CHR ''A''), PATCH), ((POST, 1, CHR ''R''), PROPFIND),
       ((PUT, 2, CHR ''R''), PURGE), ((CONNECT, 1, CHR ''H''), CHECKOUT), ((CONNECT, 2, CHR ''P''), COPY),
       ((MKCOL, 1, CHR ''O''), MOVE), ((MKCOL, 1, CHR ''E''), MERGE), ((MKCOL, 1, CHR ''-''), MSEARCH),
       ((MKCOL, 2, CHR ''A''), MKACTIVITY), ((MKCOL, 3, CHR ''A''), MKCALENDAR),
       ((SUBSCRIBE, 1, CHR ''E''), SEARCH), ((SUBSCRIBE, 1, CHR ''O''), SOURCE), ((REPORT, 2, CHR ''B''), REBIND),
       ((PROPFIND, 4, CHR ''P''), PROPPATCH), ((LOCK, 1, CHR ''I''), LINK), ((UNLOCK, 2, CHR ''S''), UNSUBSCRIBE),
       ((UNLOCK, 2, CHR ''B''), UNBIND), ((UNLOCK, 3, CHR ''I''), UNLINK)]"

text \<open>A method's state and letters after one more character, \<open>None\<close> where it is no method.\<close>

definition method_char :: "char \<Rightarrow> http_parser \<Rightarrow> http_parser option" where
  "method_char ch ps =
     (if ch = NUL then None
      else let c = peek (drop (unat (pindex ps)) (method_name (pmethod ps)))
        in if ch = CHR '' '' \<and> c = NUL then Some (ps\<lparr>pstate := s_req_spaces_before_url\<rparr>)
           else if ch = c then Some ps
           else if char_between (CHR ''A'') (CHR ''Z'') ch \<or> ch = CHR ''-''
           then map_option (\<lambda>m. ps\<lparr>pmethod := m\<rparr>) (method_switch (pmethod ps, unat (pindex ps), ch))
           else None)"

definition req_method :: "'h callbacks \<Rightarrow> char \<Rightarrow> nat \<Rightarrow> 'h exec \<Rightarrow> 'h outcome" where
  "req_method cb ch p x =
     (case method_char ch (parser x) of
        None \<Rightarrow> fail CHPE_INVALID_METHOD p x
      | Some ps \<Rightarrow>
          notify cb On_method p (\<lambda>x. Break p (on_parser (\<lambda>ps. ps\<lparr>pindex := pindex ps + 1\<rparr>) x)) (x\<lparr>parser := ps\<rparr>))"

definition url_char :: "(nat \<Rightarrow> u64) \<Rightarrow> char \<Rightarrow> nat \<Rightarrow> 'h exec \<Rightarrow> 'h outcome" where
  "url_char wild ch p x =
     (let x = on_parser (\<lambda>ps. parse_url_char wild (pstate ps) ch (url_start_mark x) p ps) x
      in if pstate (parser x) = s_dead then fail CHPE_INVALID_URL p x else Break p x)"

definition req_spaces_before_url :: "(nat \<Rightarrow> u64) \<Rightarrow> char \<Rightarrow> nat \<Rightarrow> 'h exec \<Rightarrow> 'h outcome" where
  "req_spaces_before_url wild ch p x =
     (if ch = CHR '' '' then Break p x
      else let x = x\<lparr>url_mark := mark_at p (url_mark x), url_start_mark := mark_at p (url_start_mark x)\<rparr>;
               x = (if pmethod (parser x) = CONNECT then set_state s_req_server_start x else x)
        in url_char wild ch p x)"

definition req_schema :: "(nat \<Rightarrow> u64) \<Rightarrow> char \<Rightarrow> nat \<Rightarrow> 'h exec \<Rightarrow> 'h outcome" where
  "req_schema wild ch p x =
     (if ch = CHR '' '' \<or> ch = cr \<or> ch = lf then fail CHPE_INVALID_URL p x else url_char wild ch p x)"

text \<open>The rest of the URL. Without a version after it the request is one of HTTP 0.9.\<close>

definition req_url :: "'h callbacks \<Rightarrow> (nat \<Rightarrow> u64) \<Rightarrow> string \<Rightarrow> char \<Rightarrow> nat \<Rightarrow> 'h exec \<Rightarrow> 'h outcome" where
  "req_url cb wild data ch p x =
     (if ch = CHR '' '' then url_callback cb data p (p + 1) (Break p) (set_state s_req_http_start x)
      else if ch = cr \<or> ch = lf
      then if pmethod (parser x) \<noteq> GET then fail CHPE_INVALID_VERSION p (set_state s_dead x)
           else url_callback cb data p (p + 1) (Break p)
                  (on_parser (\<lambda>ps. ps\<lparr>http_major := 0, http_minor := 9,
                     pstate := (if ch = cr then s_req_line_almost_done else s_header_field_start)\<rparr>) x)
      else url_char wild ch p x)"

definition req_http_start :: "char \<Rightarrow> nat \<Rightarrow> 'h exec \<Rightarrow> 'h outcome" where
  "req_http_start ch p x =
     (if ch = CHR '' '' then Break p x
      else if ch = CHR ''H'' then goto_state s_req_http_H p x
      else if ch = CHR ''I'' \<and> pmethod (parser x) = SOURCE then goto_state s_req_http_I p x
      else fail CHPE_INVALID_CONSTANT p x)"

definition expect :: "char \<Rightarrow> pstate \<Rightarrow> char \<Rightarrow> nat \<Rightarrow> 'h exec \<Rightarrow> 'h outcome" where
  "expect c s ch p x = strict_check (ch \<noteq> c) p (goto_state s p) x"

definition digit_of :: "char \<Rightarrow> byte" where
  "digit_of ch = byte_of_char ch - 48"

definition req_http_major :: "char \<Rightarrow> nat \<Rightarrow> 'h exec \<Rightarrow> 'h outcome" where
  "req_http_major ch p x =
     (if \<not> IS_NUM ch then fail CHPE_INVALID_VERSION p x
      else Break p (on_parser (\<lambda>ps. ps\<lparr>http_major := digit_of ch, pstate := s_req_http_dot\<rparr>) x))"

definition req_http_dot :: "char \<Rightarrow> nat \<Rightarrow> 'h exec \<Rightarrow> 'h outcome" where
  "req_http_dot ch p x = (if ch \<noteq> CHR ''.'' then fail CHPE_INVALID_VERSION p x else goto_state s_req_http_minor p x)"

definition req_http_minor :: "char \<Rightarrow> nat \<Rightarrow> 'h exec \<Rightarrow> 'h outcome" where
  "req_http_minor ch p x =
     (if \<not> IS_NUM ch then fail CHPE_INVALID_VERSION p x
      else Break p (on_parser (\<lambda>ps. ps\<lparr>http_minor := digit_of ch, pstate := s_req_http_end\<rparr>) x))"

definition req_http_end :: "char \<Rightarrow> nat \<Rightarrow> 'h exec \<Rightarrow> 'h outcome" where
  "req_http_end ch p x =
     (if ch = cr then goto_state s_req_line_almost_done p x
      else if ch = lf then goto_state s_header_field_start p x
      else fail CHPE_INVALID_VERSION p x)"

definition expect_lf :: "pstate \<Rightarrow> char \<Rightarrow> nat \<Rightarrow> 'h exec \<Rightarrow> 'h outcome" where
  "expect_lf s ch p x = (if ch \<noteq> lf then fail CHPE_LF_EXPECTED p x else goto_state s p x)"

section \<open>Headers\<close>

definition header_field_start :: "char \<Rightarrow> nat \<Rightarrow> 'h exec \<Rightarrow> 'h outcome" where
  "header_field_start ch p x =
     (if ch = cr then goto_state s_headers_almost_done p x
      else if ch = lf then Reexecute ch p (set_state s_headers_almost_done x)
      else let c = TOKEN ch
        in if c = NUL then fail CHPE_INVALID_HEADER_TOKEN p x
           else Break p (on_parser (\<lambda>ps. ps\<lparr>pindex := 0, pstate := s_header_field,
                  header_state :=
                    (if c = CHR ''c'' then h_C
                     else if c = CHR ''p'' then h_matching_proxy_connection
                     else if c = CHR ''t'' then h_matching_transfer_encoding
                     else if c = CHR ''u'' then h_matching_upgrade
                     else h_general)\<rparr>)
                  (x\<lparr>header_field_mark := mark_at p (header_field_mark x)\<rparr>)))"

text \<open>
  One more letter of a word that is being matched: the state where it differs, where the word is
  complete, and where more is to come. The word is a C string, so the index may stand at its end.
\<close>

definition match_word :: "string \<Rightarrow> char \<Rightarrow> 5 word \<Rightarrow> 'a \<Rightarrow> 'a \<Rightarrow> 'a \<Rightarrow> 'a" where
  "match_word w c i differs complete open =
     (if length w < unat i \<or> c \<noteq> peek (drop (unat i) w) then differs
      else if unat i = length w - 1 then complete else open)"

definition match_field :: "string \<Rightarrow> hstate \<Rightarrow> char \<Rightarrow> http_parser \<Rightarrow> http_parser" where
  "match_field w done_state c ps =
     (let ps = ps\<lparr>pindex := pindex ps + 1\<rparr>
      in ps\<lparr>header_state := match_word w c (pindex ps) h_general done_state (header_state ps)\<rparr>)"

definition next_field_state :: "hstate \<Rightarrow> http_parser \<Rightarrow> http_parser" where
  "next_field_state hs ps = ps\<lparr>pindex := pindex ps + 1, header_state := hs\<rparr>"

definition field_char :: "char \<Rightarrow> char \<Rightarrow> http_parser \<Rightarrow> http_parser" where
  "field_char ch c ps =
     (case header_state ps of
        h_C \<Rightarrow> next_field_state (if c = CHR ''o'' then h_CO else h_general) ps
      | h_CO \<Rightarrow> next_field_state (if c = CHR ''n'' then h_CON else h_general) ps
      | h_CON \<Rightarrow> next_field_state (if c = CHR ''n'' then h_matching_connection
                                  else if c = CHR ''t'' then h_matching_content_length else h_general) ps
      | h_matching_connection \<Rightarrow> match_field ''connection'' h_connection c ps
      | h_matching_proxy_connection \<Rightarrow> match_field ''proxy-connection'' h_connection c ps
      | h_matching_content_length \<Rightarrow> match_field ''content-length'' h_content_length c ps
      | h_matching_transfer_encoding \<Rightarrow>
          let ps = match_field ''transfer-encoding'' h_transfer_encoding c ps
          in if header_state ps = h_transfer_encoding then ps\<lparr>uses_transfer_encoding := True\<rparr> else ps
      | h_matching_upgrade \<Rightarrow> match_field ''upgrade'' h_upgrade c ps
      | h_connection \<Rightarrow> if ch \<noteq> CHR '' '' then ps\<lparr>header_state := h_general\<rparr> else ps
      | h_content_length \<Rightarrow> if ch \<noteq> CHR '' '' then ps\<lparr>header_state := h_general\<rparr> else ps
      | h_transfer_encoding \<Rightarrow> if ch \<noteq> CHR '' '' then ps\<lparr>header_state := h_general\<rparr> else ps
      | h_upgrade \<Rightarrow> if ch \<noteq> CHR '' '' then ps\<lparr>header_state := h_general\<rparr> else ps
      | _ \<Rightarrow> ps)"

text \<open>The run over the letters of a name that is none of those looked for.\<close>

definition fast_forward :: "string \<Rightarrow> nat \<Rightarrow> nat" where
  "fast_forward data p =
     (let pe = p + min (length data - p) max_header_size
      in p + length (takeWhile (\<lambda>c. TOKEN c \<noteq> NUL) (slice data (p + 1) (pe - (p + 1)))))"

function field_loop :: "string \<Rightarrow> nat \<Rightarrow> char \<Rightarrow> http_parser \<Rightarrow> nat \<times> char \<times> http_parser" where
  "field_loop data p ch ps =
     (if length data \<le> p then (p, ch, ps)
      else let ch = data ! p; c = TOKEN ch
        in if c = NUL then (p, ch, ps)
           else if header_state ps = h_general then field_loop data (Suc (fast_forward data p)) ch ps
           else field_loop data (Suc p) ch (field_char ch c ps))"
  by pat_completeness auto

termination field_loop
  by (relation "measure (\<lambda>(data, p, _, _). length data - p)") (auto simp: fast_forward_def Let_def)

definition header_field :: "'h callbacks \<Rightarrow> string \<Rightarrow> char \<Rightarrow> nat \<Rightarrow> 'h exec \<Rightarrow> 'h outcome" where
  "header_field cb data ch start x =
     (let (p, ch, ps) = field_loop data start ch (parser x); x = x\<lparr>parser := ps\<rparr>
      in if p = length data then count_header (p - 1 - start) (p - 1) (Break (p - 1)) x
         else count_header (p - start) p
                (\<lambda>x. if ch = CHR '':'' then field_callback cb data p (p + 1) (Break p) (set_state s_header_value_discard_ws x)
                     else fail CHPE_INVALID_HEADER_TOKEN p x) x)"

text \<open>The first character of a value.\<close>

definition connection_start :: "char \<Rightarrow> hstate" where
  "connection_start c =
     (if c = CHR ''k'' then h_matching_connection_keep_alive
      else if c = CHR ''c'' then h_matching_connection_close
      else if c = CHR '' '' \<or> c = tab then h_connection
      else h_general)"

definition length_start :: "char \<Rightarrow> nat \<Rightarrow> 'h exec \<Rightarrow> 'h outcome" where
  "length_start ch p x =
     (if \<not> IS_NUM ch then fail CHPE_INVALID_CONTENT_LENGTH p x
      else if F_CONTENTLENGTH (pflags (parser x)) then fail CHPE_UNEXPECTED_CONTENT_LENGTH p x
      else Break p (on_parser (\<lambda>ps. ps\<lparr>pflags := (pflags ps)\<lparr>F_CONTENTLENGTH := True\<rparr>,
             content_length := word_of_nat (of_char ch - 48), header_state := h_content_length_num\<rparr>) x))"

definition set_hstate :: "hstate \<Rightarrow> 'h exec \<Rightarrow> 'h exec" where
  "set_hstate hs = on_parser (\<lambda>ps. ps\<lparr>header_state := hs\<rparr>)"

definition header_value_start :: "string \<Rightarrow> char \<Rightarrow> nat \<Rightarrow> 'h exec \<Rightarrow> 'h outcome" where
  "header_value_start data ch p x =
     (let x = on_parser (\<lambda>ps. ps\<lparr>pstate := s_header_value, pindex := 0\<rparr>)
                (x\<lparr>header_value_mark := mark_at p (header_value_mark x)\<rparr>);
          c = LOWER ch
      in case header_state (parser x) of
           h_upgrade \<Rightarrow>
             let h2 = ch = CHR ''h'' \<and> p + 1 \<noteq> length data \<and> data ! (p + 1) = CHR ''2'';
                 x = (if h2 then x else on_parser (\<lambda>ps. ps\<lparr>pflags := (pflags ps)\<lparr>F_UPGRADE := True\<rparr>\<rparr>) x)
             in Break p (set_hstate h_general x)
         | h_transfer_encoding \<Rightarrow>
             Break p (set_hstate (if c = CHR ''c'' then h_matching_transfer_encoding_chunked
                                  else h_matching_transfer_encoding_token) x)
         | h_matching_transfer_encoding_token_start \<Rightarrow> Break p x
         | h_content_length \<Rightarrow> length_start ch p x
         | h_content_length_ws \<Rightarrow> Break p x
         | h_connection \<Rightarrow> Break p (set_hstate (connection_start c) x)
         | _ \<Rightarrow> Break p (set_hstate h_general x))"

definition header_value_discard_ws :: "string \<Rightarrow> char \<Rightarrow> nat \<Rightarrow> 'h exec \<Rightarrow> 'h outcome" where
  "header_value_discard_ws data ch p x =
     (if ch = CHR '' '' \<or> ch = tab then Break p x
      else if ch = cr then goto_state s_header_value_discard_ws_almost_done p x
      else if ch = lf then goto_state s_header_value_discard_lws p x
      else header_value_start data ch p x)"

text \<open>
  The run over a value none of whose words is looked for: the offset of a character that may not stand
  in a header, or where the run stops.
\<close>

function general_scan :: "string \<Rightarrow> bool \<Rightarrow> nat \<Rightarrow> nat \<Rightarrow> nat + nat" where
  "general_scan data lenient pe p =
     (if pe \<le> p then Inr p
      else if data ! p = cr \<or> data ! p = lf then Inr (p - 1)
      else if \<not> lenient \<and> \<not> IS_HEADER_CHAR (data ! p) then Inl p
      else general_scan data lenient pe (Suc p))"
  by pat_completeness auto

termination general_scan
  by (relation "measure (\<lambda>(_, _, pe, p). pe - p)") auto

declare general_scan.simps [simp del] field_loop.simps [simp del]

lemma general_scan_ge: "general_scan data l pe p = Inr q \<Longrightarrow> p - 1 \<le> q"
  by (induction data l pe p rule: general_scan.induct) (subst (asm) general_scan.simps, auto split: if_splits)

lemma general_scan_first:
  "general_scan data l pe p = Inr q \<Longrightarrow> data ! p \<noteq> cr \<Longrightarrow> data ! p \<noteq> lf \<Longrightarrow> p \<le> q"
  using general_scan_ge [of data l pe "Suc p" q]
  by (subst (asm) general_scan.simps) (auto split: if_splits)

definition length_digit :: "char \<Rightarrow> http_parser \<Rightarrow> http_parser option" where
  "length_digit ch ps =
     (if \<not> IS_NUM ch then None
      else let t = content_length ps * 10 + word_of_nat (of_char ch - 48)
        in if (ULLONG_MAX - 10) div 10 < content_length ps then None else Some (ps\<lparr>content_length := t\<rparr>))"

text \<open>A character of a value whose words are looked for; \<open>None\<close> is \<open>CHPE_INVALID_CONTENT_LENGTH\<close>.\<close>

definition match_value :: "string \<Rightarrow> hstate \<Rightarrow> hstate \<Rightarrow> hstate \<Rightarrow> char \<Rightarrow> http_parser \<Rightarrow> hstate \<times> http_parser" where
  "match_value w differs complete open c ps =
     (let ps = ps\<lparr>pindex := pindex ps + 1\<rparr> in (match_word w c (pindex ps) differs complete open, ps))"

definition value_char :: "char \<Rightarrow> hstate \<Rightarrow> http_parser \<Rightarrow> hstate \<times> http_parser option" where
  "value_char ch hs ps =
     (let c = LOWER ch
      in case hs of
           h_connection \<Rightarrow> (hs, Some ps)
         | h_transfer_encoding \<Rightarrow> (hs, Some ps)
         | h_content_length \<Rightarrow> if ch = CHR '' '' then (hs, Some ps) else (h_content_length_num, length_digit ch ps)
         | h_content_length_num \<Rightarrow>
             if ch = CHR '' '' then (h_content_length_ws, Some ps) else (hs, length_digit ch ps)
         | h_content_length_ws \<Rightarrow> (hs, if ch = CHR '' '' then Some ps else None)
         | h_matching_transfer_encoding_token_start \<Rightarrow>
             ((if c = CHR ''c'' then h_matching_transfer_encoding_chunked
               else if TOKEN c \<noteq> NUL then h_matching_transfer_encoding_token
               else if c = CHR '' '' \<or> c = tab then hs else h_general), Some ps)
         | h_matching_transfer_encoding_chunked \<Rightarrow>
             apsnd Some (match_value ''chunked'' h_matching_transfer_encoding_token h_transfer_encoding_chunked hs c ps)
         | h_matching_transfer_encoding_token \<Rightarrow>
             if ch = CHR '','' then (h_matching_transfer_encoding_token_start, Some (ps\<lparr>pindex := 0\<rparr>)) else (hs, Some ps)
         | h_matching_connection_keep_alive \<Rightarrow>
             apsnd Some (match_value ''keep-alive'' h_general h_connection_keep_alive hs c ps)
         | h_matching_connection_close \<Rightarrow> apsnd Some (match_value ''close'' h_general h_connection_close hs c ps)
         | h_transfer_encoding_chunked \<Rightarrow> (if ch \<noteq> CHR '' '' then h_matching_transfer_encoding_token else hs, Some ps)
         | h_connection_keep_alive \<Rightarrow> (if ch \<noteq> CHR '' '' then h_general else hs, Some ps)
         | h_connection_close \<Rightarrow> (if ch \<noteq> CHR '' '' then h_general else hs, Some ps)
         | _ \<Rightarrow> (h_general, Some (ps\<lparr>pstate := s_header_value\<rparr>)))"

datatype value_end = At_end | At_cr nat | At_lf nat | Bad_value http_errno nat

function value_loop :: "string \<Rightarrow> bool \<Rightarrow> nat \<Rightarrow> hstate \<Rightarrow> http_parser \<Rightarrow> value_end \<times> hstate \<times> http_parser" where
  "value_loop data lenient p hs ps =
     (if length data \<le> p then (At_end, hs, ps)
      else let ch = data ! p
        in if ch = cr then (At_cr p, hs, ps)
           else if ch = lf then (At_lf p, hs, ps)
           else if \<not> lenient \<and> \<not> IS_HEADER_CHAR ch then (Bad_value CHPE_INVALID_HEADER_TOKEN p, hs, ps)
           else if hs = h_general
           then (case general_scan data lenient (p + min (length data - p) max_header_size) p of
                   Inl q \<Rightarrow> (Bad_value CHPE_INVALID_HEADER_TOKEN q, hs, ps)
                 | Inr q \<Rightarrow> value_loop data lenient (Suc (if q = length data then q - 1 else q)) hs ps)
           else (case value_char ch hs ps of
                   (hs, None) \<Rightarrow> (Bad_value CHPE_INVALID_CONTENT_LENGTH p, hs, ps)
                 | (hs, Some ps) \<Rightarrow> value_loop data lenient (Suc p) hs ps))"
  by pat_completeness auto

termination value_loop
  by (relation "measure (\<lambda>(data, _, p, _, _). length data - p)") (auto dest!: general_scan_first split: if_splits)

declare value_loop.simps [simp del]

definition header_value :: "'h callbacks \<Rightarrow> string \<Rightarrow> nat \<Rightarrow> 'h exec \<Rightarrow> 'h outcome" where
  "header_value cb data start x =
     (let (e, hs, ps) = value_loop data (lenient_http_headers (parser x)) start (header_state (parser x)) (parser x)
      in case e of
           At_end \<Rightarrow>
             let p = length data - 1
             in count_header (p - start) p (Break p) (x\<lparr>parser := ps\<lparr>header_state := hs\<rparr>\<rparr>)
         | At_cr p \<Rightarrow>
             value_callback cb data p (p + 1) (\<lambda>x. count_header (p - start) p (Break p) (set_hstate hs x))
               (x\<lparr>parser := ps\<lparr>pstate := s_header_almost_done, header_state := hs\<rparr>\<rparr>)
         | At_lf p \<Rightarrow>
             count_header (p - start) p (\<lambda>x. value_callback cb data p p (Reexecute lf p) (set_hstate hs x))
               (x\<lparr>parser := ps\<lparr>pstate := s_header_almost_done\<rparr>\<rparr>)
         | Bad_value err p \<Rightarrow>
             fail err p (x\<lparr>parser := (if err = CHPE_INVALID_CONTENT_LENGTH then ps\<lparr>header_state := hs\<rparr> else ps)\<rparr>))"

definition set_flag :: "(http_flags \<Rightarrow> http_flags) \<Rightarrow> 'h exec \<Rightarrow> 'h exec" where
  "set_flag f = on_parser (\<lambda>ps. ps\<lparr>pflags := f (pflags ps)\<rparr>)"

definition header_value_lws :: "char \<Rightarrow> nat \<Rightarrow> 'h exec \<Rightarrow> 'h outcome" where
  "header_value_lws ch p x =
     (if ch = CHR '' '' \<or> ch = tab
      then let x = (if header_state (parser x) = h_content_length_num then set_hstate h_content_length_ws x else x)
        in Reexecute ch p (set_state s_header_value_start x)
      else let x = (case header_state (parser x) of
                      h_connection_keep_alive \<Rightarrow> set_flag (F_CONNECTION_KEEP_ALIVE_update (\<lambda>_. True)) x
                    | h_connection_close \<Rightarrow> set_flag (F_CONNECTION_CLOSE_update (\<lambda>_. True)) x
                    | h_transfer_encoding_chunked \<Rightarrow> set_flag (F_CHUNKED_update (\<lambda>_. True)) x
                    | _ \<Rightarrow> x)
        in Reexecute ch p (set_state s_header_field_start x))"

text \<open>After an empty value: more of it on the next line, or none.\<close>

definition header_value_discard_lws :: "'h callbacks \<Rightarrow> string \<Rightarrow> char \<Rightarrow> nat \<Rightarrow> 'h exec \<Rightarrow> 'h outcome" where
  "header_value_discard_lws cb data ch p x =
     (if ch = CHR '' '' \<or> ch = tab then goto_state s_header_value_discard_ws p x
      else value_callback cb data p p (Reexecute ch p)
             (set_state s_header_field_start (x\<lparr>header_value_mark := mark_at p (header_value_mark x)\<rparr>)))"

section \<open>The end of the headers\<close>

definition headers_almost_done :: "'h callbacks \<Rightarrow> char \<Rightarrow> nat \<Rightarrow> 'h exec \<Rightarrow> 'h outcome" where
  "headers_almost_done cb ch p =
     strict_check (ch \<noteq> lf) p
       (\<lambda>x. let ps = parser x; fl = pflags ps
            in if F_TRAILING fl then notify cb On_message_complete (p + 1) (Break p) x
               else if uses_transfer_encoding ps \<and> F_CONTENTLENGTH fl
                       \<and> (if F_CHUNKED fl then \<not> allow_chunked_length ps else \<not> lenient_http_headers ps)
               then fail CHPE_UNEXPECTED_CONTENT_LENGTH p x
               else let x = call cb On_headers_complete
                             (x\<lparr>parser := ps\<lparr>pstate := s_headers_done, upgrade := F_UPGRADE fl \<or> pmethod ps = CONNECT\<rparr>\<rparr>)
                    in if perrno (parser x) \<noteq> CHPE_OK then Return p (save_nread x) else Reexecute ch p x)"

definition headers_done :: "'h callbacks \<Rightarrow> char \<Rightarrow> nat \<Rightarrow> 'h exec \<Rightarrow> 'h outcome" where
  "headers_done cb ch p =
     strict_check (ch \<noteq> lf) p
       (\<lambda>x. let x = reset_nread x; ps = parser x
            in if upgrade ps then notify cb On_message_complete (p + 1) (\<lambda>x. Return (p + 1) (save_nread x)) x
               else if F_SKIPBODY (pflags ps) then notify cb On_message_complete (p + 1) (Break p) x
               else if F_CHUNKED (pflags ps) then goto_state s_chunk_size_start p x
               else if uses_transfer_encoding ps
               then if \<not> lenient_http_headers ps then Return p (save_nread (set_errno CHPE_INVALID_TRANSFER_ENCODING x))
                    else goto_state s_body_identity_eof p x
               else if content_length ps = 0 then notify cb On_message_complete (p + 1) (Break p) x
               else if content_length ps \<noteq> ULLONG_MAX then goto_state s_body_identity p x
               else notify cb On_message_complete (p + 1) (Break p) x)"

section \<open>The body\<close>

definition to_read :: "string \<Rightarrow> nat \<Rightarrow> 'h exec \<Rightarrow> u64" where
  "to_read data p x = min (content_length (parser x)) (word_of_nat (length data - p))"

definition mark_body :: "string \<Rightarrow> nat \<Rightarrow> 'h exec \<Rightarrow> 'h exec" where
  "mark_body data p x =
     on_parser (\<lambda>ps. ps\<lparr>content_length := content_length ps - to_read data p x\<rparr>) (x\<lparr>body_mark := mark_at p (body_mark x)\<rparr>)"

definition body_identity :: "'h callbacks \<Rightarrow> string \<Rightarrow> char \<Rightarrow> nat \<Rightarrow> 'h exec \<Rightarrow> 'h outcome" where
  "body_identity cb data ch p x =
     (let q = p + unat (to_read data p x) - 1; x = mark_body data p x
      in if content_length (parser x) = 0
         then body_callback cb data (q + 1) q (Reexecute ch q) (set_state s_message_done x)
         else Break q x)"

definition body_identity_eof :: "string \<Rightarrow> nat \<Rightarrow> 'h exec \<Rightarrow> 'h outcome" where
  "body_identity_eof data p x = Break (length data - 1) (x\<lparr>body_mark := mark_at p (body_mark x)\<rparr>)"

definition chunk_size_start :: "char \<Rightarrow> nat \<Rightarrow> 'h exec \<Rightarrow> 'h outcome" where
  "chunk_size_start ch p x =
     (if unhex ch = - 1 then fail CHPE_INVALID_CHUNK_SIZE p x
      else Break p (on_parser (\<lambda>ps. ps\<lparr>content_length := word_of_int (unhex ch), pstate := s_chunk_size\<rparr>) x))"

definition chunk_size :: "char \<Rightarrow> nat \<Rightarrow> 'h exec \<Rightarrow> 'h outcome" where
  "chunk_size ch p x =
     (if ch = cr then goto_state s_chunk_size_almost_done p x
      else if unhex ch = - 1
      then if ch = CHR '';'' \<or> ch = CHR '' '' then goto_state s_chunk_parameters p x
           else fail CHPE_INVALID_CHUNK_SIZE p x
      else let n = content_length (parser x); t = n * 16 + word_of_int (unhex ch)
        in if (ULLONG_MAX - 16) div 16 < n then fail CHPE_INVALID_CONTENT_LENGTH p x
           else Break p (on_parser (\<lambda>ps. ps\<lparr>content_length := t\<rparr>) x))"

definition chunk_parameters :: "char \<Rightarrow> nat \<Rightarrow> 'h exec \<Rightarrow> 'h outcome" where
  "chunk_parameters ch p x = (if ch = cr then goto_state s_chunk_size_almost_done p x else Break p x)"

definition chunk_size_almost_done :: "char \<Rightarrow> nat \<Rightarrow> 'h exec \<Rightarrow> 'h outcome" where
  "chunk_size_almost_done ch p =
     strict_check (ch \<noteq> lf) p
       (\<lambda>x. let x = reset_nread x
            in if content_length (parser x) = 0
               then goto_state s_header_field_start p (set_flag (F_TRAILING_update (\<lambda>_. True)) x)
               else goto_state s_chunk_data p x)"

definition chunk_data :: "string \<Rightarrow> nat \<Rightarrow> 'h exec \<Rightarrow> 'h outcome" where
  "chunk_data data p x =
     (let q = p + unat (to_read data p x) - 1; x = mark_body data p x
      in Break q (if content_length (parser x) = 0 then set_state s_chunk_data_almost_done x else x))"

definition chunk_data_almost_done :: "'h callbacks \<Rightarrow> string \<Rightarrow> char \<Rightarrow> nat \<Rightarrow> 'h exec \<Rightarrow> 'h outcome" where
  "chunk_data_almost_done cb data ch p =
     strict_check (ch \<noteq> cr) p (\<lambda>x. body_callback cb data p (p + 1) (Break p) (set_state s_chunk_data_done x))"

definition chunk_data_done :: "char \<Rightarrow> nat \<Rightarrow> 'h exec \<Rightarrow> 'h outcome" where
  "chunk_data_done ch p = strict_check (ch \<noteq> lf) p (\<lambda>x. goto_state s_chunk_size_start p (reset_nread x))"

section \<open>The loop\<close>

definition state_case ::
    "'h callbacks \<Rightarrow> (nat \<Rightarrow> u64) \<Rightarrow> string \<Rightarrow> char \<Rightarrow> nat \<Rightarrow> 'h exec \<Rightarrow> 'h outcome" where
  "state_case cb wild data ch p x =
     (case pstate (parser x) of
        s_dead \<Rightarrow> if ch = cr \<or> ch = lf then Break p x else fail CHPE_CLOSED_CONNECTION p x
      | s_start_req \<Rightarrow> start_req cb ch p x
      | s_req_method \<Rightarrow> req_method cb ch p x
      | s_req_spaces_before_url \<Rightarrow> req_spaces_before_url wild ch p x
      | s_req_schema \<Rightarrow> req_schema wild ch p x
      | s_req_schema_slash \<Rightarrow> req_schema wild ch p x
      | s_req_schema_slash_slash \<Rightarrow> req_schema wild ch p x
      | s_req_server_start \<Rightarrow> req_schema wild ch p x
      | s_req_server \<Rightarrow> req_url cb wild data ch p x
      | s_req_server_with_at \<Rightarrow> req_url cb wild data ch p x
      | s_req_path \<Rightarrow> req_url cb wild data ch p x
      | s_req_query_string_start \<Rightarrow> req_url cb wild data ch p x
      | s_req_query_string \<Rightarrow> req_url cb wild data ch p x
      | s_req_http_start \<Rightarrow> req_http_start ch p x
      | s_req_http_H \<Rightarrow> expect (CHR ''T'') s_req_http_HT ch p x
      | s_req_http_HT \<Rightarrow> expect (CHR ''T'') s_req_http_HTT ch p x
      | s_req_http_HTT \<Rightarrow> expect (CHR ''P'') s_req_http_HTTP ch p x
      | s_req_http_HTTP \<Rightarrow> expect (CHR ''/'') s_req_http_major ch p x
      | s_req_http_I \<Rightarrow> expect (CHR ''C'') s_req_http_IC ch p x
      | s_req_http_IC \<Rightarrow> expect (CHR ''E'') s_req_http_HTTP ch p x
      | s_req_http_major \<Rightarrow> req_http_major ch p x
      | s_req_http_dot \<Rightarrow> req_http_dot ch p x
      | s_req_http_minor \<Rightarrow> req_http_minor ch p x
      | s_req_http_end \<Rightarrow> req_http_end ch p x
      | s_req_line_almost_done \<Rightarrow> expect_lf s_header_field_start ch p x
      | s_header_field_start \<Rightarrow> header_field_start ch p x
      | s_header_field \<Rightarrow> header_field cb data ch p x
      | s_header_value_discard_ws \<Rightarrow> header_value_discard_ws data ch p x
      | s_header_value_discard_ws_almost_done \<Rightarrow> expect lf s_header_value_discard_lws ch p x
      | s_header_value_discard_lws \<Rightarrow> header_value_discard_lws cb data ch p x
      | s_header_value_start \<Rightarrow> header_value_start data ch p x
      | s_header_value \<Rightarrow> header_value cb data p x
      | s_header_value_lws \<Rightarrow> header_value_lws ch p x
      | s_header_almost_done \<Rightarrow> expect_lf s_header_value_lws ch p x
      | s_chunk_size_start \<Rightarrow> chunk_size_start ch p x
      | s_chunk_size \<Rightarrow> chunk_size ch p x
      | s_chunk_parameters \<Rightarrow> chunk_parameters ch p x
      | s_chunk_size_almost_done \<Rightarrow> chunk_size_almost_done ch p x
      | s_headers_almost_done \<Rightarrow> headers_almost_done cb ch p x
      | s_headers_done \<Rightarrow> headers_done cb ch p x
      | s_chunk_data \<Rightarrow> chunk_data data p x
      | s_chunk_data_almost_done \<Rightarrow> chunk_data_almost_done cb data ch p x
      | s_chunk_data_done \<Rightarrow> chunk_data_done ch p x
      | s_body_identity \<Rightarrow> body_identity cb data ch p x
      | s_body_identity_eof \<Rightarrow> body_identity_eof data p x
      | s_message_done \<Rightarrow> notify cb On_message_complete (p + 1) (Break p) x)"

text \<open>The callbacks for the marks that are left when the data has run out.\<close>

definition finish_data :: "'h callbacks \<Rightarrow> string \<Rightarrow> 'h exec \<Rightarrow> 'h outcome" where
  "finish_data cb data =
     (let n = length data
      in field_callback cb data n n (value_callback cb data n n (url_callback cb data n n (body_callback cb data n n
           (\<lambda>x. Return n (save_nread x))))))"

definition at_error :: "'h exec \<Rightarrow> 'h exec" where
  "at_error x = save_nread (if perrno (parser x) = CHPE_OK then set_errno CHPE_UNKNOWN x else x)"

text \<open>
  The head of the loop: the result of the call, or the character to look at. Both an outcome that
  leaves the loop and the head yield \<open>Inl\<close> of a result.
\<close>

type_synonym 'h position = "char \<times> nat \<times> 'h exec"

definition loop_head :: "'h callbacks \<Rightarrow> string \<Rightarrow> nat \<Rightarrow> 'h exec \<Rightarrow> (nat \<times> 'h exec) + 'h position" where
  "loop_head cb data p x =
     (let r = (if p = length data then finish_data cb data x
               else if PARSING_HEADER (pstate (parser x)) then count_header 1 p (Reexecute (data ! p) p) x
               else Reexecute (data ! p) p x)
      in case r of
           Reexecute ch p x \<Rightarrow> Inr (ch, p, x)
         | Return n x \<Rightarrow> Inl (n, x)
         | Goto_error p x \<Rightarrow> Inl (p, at_error x)
         | Break p x \<Rightarrow> Inl (p, x))"

definition loop_step ::
    "'h callbacks \<Rightarrow> (nat \<Rightarrow> u64) \<Rightarrow> string \<Rightarrow> 'h position \<Rightarrow> (nat \<times> 'h exec) + 'h position" where
  "loop_step cb wild data s =
     (let (ch, p, x) = s
      in case state_case cb wild data ch p x of
           Break p x \<Rightarrow> loop_head cb data (Suc p) x
         | Reexecute ch p x \<Rightarrow> Inr (ch, p, x)
         | Return n x \<Rightarrow> Inl (n, x)
         | Goto_error p x \<Rightarrow> Inl (p, at_error x))"

partial_function (option) run ::
    "'h callbacks \<Rightarrow> (nat \<Rightarrow> u64) \<Rightarrow> string \<Rightarrow> (nat \<times> 'h exec) + 'h position \<Rightarrow> (nat \<times> 'h exec) option" where
  "run cb wild data s =
     (case s of Inl r \<Rightarrow> Some r | Inr s \<Rightarrow> run cb wild data (loop_step cb wild data s))"

declare run.simps [code]

definition in_url :: "pstate \<Rightarrow> bool" where
  "in_url s \<longleftrightarrow> s \<in> {s_req_path, s_req_schema, s_req_schema_slash, s_req_schema_slash_slash, s_req_server_start,
     s_req_server, s_req_server_with_at, s_req_query_string_start, s_req_query_string}"

definition start_exec :: "http_parser \<times> 'h \<Rightarrow> 'h exec" where
  "start_exec s =
     (let (ps, h) = s
      in \<lparr>parser = ps, owner = h, nread_local = nread ps,
          header_field_mark = (if pstate ps = s_header_field then Some 0 else None),
          header_value_mark = (if pstate ps = s_header_value then Some 0 else None),
          url_mark = (if in_url (pstate ps) then Some 0 else None), url_start_mark = None, body_mark = None\<rparr>)"

text \<open>A call without data: the other side has closed the connection.\<close>

definition execute_end :: "'h callbacks \<Rightarrow> http_parser \<times> 'h \<Rightarrow> nat \<times> http_parser \<times> 'h" where
  "execute_end cb s =
     (let (ps, h) = s
      in case pstate ps of
           s_body_identity_eof \<Rightarrow> (0, cb On_message_complete s)
         | s_dead \<Rightarrow> (0, s)
         | s_start_req \<Rightarrow> (0, s)
         | _ \<Rightarrow> (1, ps\<lparr>perrno := CHPE_INVALID_EOF_STATE\<rparr>, h))"

definition http_parser_execute ::
    "'h callbacks \<Rightarrow> (nat \<Rightarrow> u64) \<Rightarrow> string \<Rightarrow> http_parser \<times> 'h \<Rightarrow> (nat \<times> http_parser \<times> 'h) option" where
  "http_parser_execute cb wild data s =
     (if perrno (fst s) \<noteq> CHPE_OK then Some (0, s)
      else if data = [] then Some (execute_end cb s)
      else map_option (\<lambda>(n, x). (n, parser x, owner x)) (run cb wild data (loop_head cb data 0 (start_exec s))))"

end
