(* ===== verification/Http_Shift.thy ===== *)
theory Http_Shift
  imports Http_Parser
begin

text \<open>
  What a call of the parser does with data that is the end of longer data. The locale states what the
  owner's callbacks keep to; under it a run over the last character does the same whether the earlier
  characters are in front of it or came with an earlier call.
\<close>

section \<open>What the owner's callbacks keep to\<close>

locale collecting_callbacks =
  fixes cb :: "'h callbacks" and on_field on_value on_body :: "string \<Rightarrow> 'h \<Rightarrow> 'h"
  assumes field: "cb (On_header_field s) (ps, h) = (ps, on_field s h)"
    and "value": "cb (On_header_value s) (ps, h) = (ps, on_value s h)"
    and body: "cb (On_body s) (ps, h) = (ps, on_body s h)"
    and field_append [simp]: "on_field t (on_field s h) = on_field (s @ t) h"
    and value_append [simp]: "on_value t (on_value s h) = on_value (s @ t) h"
    and body_append [simp]: "on_body t (on_body s h) = on_body (s @ t) h"
    and quiet: "fst (cb On_message_begin (ps, h)) = ps" "fst (cb On_method (ps, h)) = ps" "fst (cb On_headers_complete (ps, h)) = ps"
    and url: "perrno (fst (cb (On_url s) (ps, h))) = CHPE_OK \<Longrightarrow> fst (cb (On_url s) (ps, h)) = ps"
    and complete: "fst (cb On_message_complete (ps, h)) = ps
                   \<or> fst (cb On_message_complete (ps, h)) = ps\<lparr>pstate := s_start_req, qs_point := 0\<rparr>"
    and nread_unused: "cb ev (ps\<lparr>nread := n\<rparr>, h) = apfst (\<lambda>ps. ps\<lparr>nread := n\<rparr>) (cb ev (ps, h))"
begin

lemma complete_errno: "perrno (fst (cb On_message_complete (ps, h))) = perrno ps"
  using complete [of ps h] by auto

end

section \<open>Shifted runs\<close>

text \<open>
  The variables of a run on data that stands \<open>k\<close> characters further on in the data of another run.
\<close>

definition same_parser :: "http_parser \<Rightarrow> http_parser \<Rightarrow> bool" where
  "same_parser ps qs \<longleftrightarrow> ps\<lparr>nread := 0\<rparr> = qs\<lparr>nread := 0\<rparr>"

lemma same_parser_iff:
  "same_parser ps qs \<longleftrightarrow> pflags ps = pflags qs \<and> pstate ps = pstate qs \<and> header_state ps = header_state qs \<and> pindex ps = pindex qs
     \<and> uses_transfer_encoding ps = uses_transfer_encoding qs \<and> allow_chunked_length ps = allow_chunked_length qs
     \<and> lenient_http_headers ps = lenient_http_headers qs \<and> content_length ps = content_length qs \<and> qs_point ps = qs_point qs
     \<and> http_major ps = http_major qs \<and> http_minor ps = http_minor qs \<and> pmethod ps = pmethod qs \<and> perrno ps = perrno qs
     \<and> upgrade ps = upgrade qs"
  by (cases ps; cases qs) (auto simp: same_parser_def)

definition shifted :: "nat \<Rightarrow> 'h exec \<Rightarrow> 'h exec \<Rightarrow> bool" where
  "shifted k x z \<longleftrightarrow> same_parser (parser x) (parser z) \<and> owner x = owner z \<and> nread_local x = nread_local z
     \<and> header_field_mark x = map_option ((+) k) (header_field_mark z)
     \<and> header_value_mark x = map_option ((+) k) (header_value_mark z)
     \<and> url_mark x = map_option ((+) k) (url_mark z) \<and> body_mark x = map_option ((+) k) (body_mark z)"

fun same_outcome :: "nat \<Rightarrow> 'h outcome \<Rightarrow> 'h outcome \<Rightarrow> bool" where
  "same_outcome k (Break p x) (Break q z) \<longleftrightarrow> p = k \<and> q = 0 \<and> shifted k x z"
| "same_outcome k (Reexecute ch p x) (Reexecute ch' q z) \<longleftrightarrow> ch = ch' \<and> p = k \<and> q = 0 \<and> shifted k x z"
| "same_outcome k (Return p x) (Return q z) \<longleftrightarrow>
     p = k + q \<and> shifted k x z \<and> (perrno (parser z) = CHPE_OK \<longrightarrow> nread (parser x) = nread (parser z))"
| "same_outcome k (Goto_error p x) (Goto_error q z) \<longleftrightarrow> True"
| "same_outcome k _ _ \<longleftrightarrow> False"

definition shiftable :: "nat \<Rightarrow> ('h exec \<Rightarrow> 'h outcome) \<Rightarrow> ('h exec \<Rightarrow> 'h outcome) \<Rightarrow> bool" where
  "shiftable k f g \<longleftrightarrow> (\<forall>x z. shifted k x z \<longrightarrow> same_outcome k (f x) (g z))"

lemma shiftableI: "(\<And>x z. shifted k x z \<Longrightarrow> same_outcome k (f x) (g z)) \<Longrightarrow> shiftable k f g"
  by (simp add: shiftable_def)

lemma shiftableD: "shiftable k f g \<Longrightarrow> shifted k x z \<Longrightarrow> same_outcome k (f x) (g z)"
  by (simp add: shiftable_def)

lemma nread_save [simp]: "nread (parser (save_nread x)) = nread_local x"
  by (simp add: save_nread_def on_parser_def)

lemma on_parser_simps [simp]:
  "parser (on_parser f x) = f (parser x)" "owner (on_parser f x) = owner x" "nread_local (on_parser f x) = nread_local x"
  "header_field_mark (on_parser f x) = header_field_mark x" "header_value_mark (on_parser f x) = header_value_mark x"
  "url_mark (on_parser f x) = url_mark x" "body_mark (on_parser f x) = body_mark x" "url_start_mark (on_parser f x) = url_start_mark x"
  by (simp_all add: on_parser_def)

lemmas exec_defs = set_state_def set_hstate_def set_flag_def reset_nread_def save_nread_def

lemma shifted_on_parser:
  "shifted k x z \<Longrightarrow> same_parser (f (parser x)) (g (parser z)) \<Longrightarrow> shifted k (on_parser f x) (on_parser g z)"
  by (simp add: shifted_def)

lemma same_fail: "same_outcome k (fail e p x) (fail e' q z)"
  by (simp add: fail_def)

lemma shift_goto: "shifted k x z \<Longrightarrow> same_outcome k (goto_state s k x) (goto_state s 0 z)"
  by (simp add: goto_state_def exec_defs shifted_def same_parser_iff)

lemma shift_strict: "shiftable k f g \<Longrightarrow> shifted k x z \<Longrightarrow> same_outcome k (strict_check b (k + q) f x) (strict_check b q g z)"
  by (simp add: strict_check_def shiftable_def same_fail)

lemma shift_count:
  "shiftable k f g \<Longrightarrow> shifted k x z \<Longrightarrow> same_outcome k (count_header i (k + q) f x) (count_header i q g z)"
  by (simp add: count_header_def same_fail Let_def shiftable_def shifted_def)

context collecting_callbacks begin

lemma shifted_call: "shifted k x z \<Longrightarrow> shifted k (call cb ev x) (call cb ev z)"
proof -
  assume s: "shifted k x z"
  then have "(parser x)\<lparr>nread := 0\<rparr> = (parser z)\<lparr>nread := 0\<rparr>" "owner x = owner z"
    by (simp_all add: shifted_def same_parser_def)
  then have "apfst (\<lambda>ps. ps\<lparr>nread := 0\<rparr>) (cb ev (parser x, owner x)) = apfst (\<lambda>ps. ps\<lparr>nread := 0\<rparr>) (cb ev (parser z, owner z))"
    by (metis nread_unused)
  then show ?thesis using s
    by (cases "cb ev (parser x, owner x)"; cases "cb ev (parser z, owner z)") (simp add: call_def shifted_def same_parser_def)
qed

lemma shift_notify:
  assumes "shiftable k f g" and "shifted k x z"
  shows "same_outcome k (notify cb ev (k + er) f x) (notify cb ev er g z)"
proof -
  note s = shifted_call [OF assms(2), of ev]
  then have "perrno (parser (call cb ev x)) = perrno (parser (call cb ev z))" by (simp add: shifted_def same_parser_iff)
  then show ?thesis using s shiftableD [OF assms(1) s] by (simp add: notify_def Let_def)
qed

lemma shift_data_callback:
  assumes "shiftable k f g" and "shifted k x z" and "mark x = map_option ((+) k) (mark z)"
    and "\<And>m. slice D (k + m) (to - m) = slice D' m (to - m)" and "\<And>x z. shifted k x z \<Longrightarrow> shifted k (unmark x) (unmark z)"
  shows "same_outcome k (data_callback cb D mark unmark ev (k + to) (k + er) f x) (data_callback cb D' mark unmark ev to er g z)"
proof (cases "mark z")
  case None
  then show ?thesis using assms(2,3) shiftableD [OF assms(1)] by (simp add: data_callback_def)
next
  case (Some m)
  have "shiftable k (\<lambda>x. f (unmark x)) (\<lambda>z. g (unmark z))"
    using assms(1,5) by (simp add: shiftable_def)
  from shift_notify [OF this assms(2)] show ?thesis using assms(3,4) Some by (simp add: data_callback_def)
qed

end

section \<open>One character at the end of the data\<close>

lemma length_ge_1: "length data = Suc k \<Longrightarrow> \<not> length data \<le> k"
  by simp

lemma field_loop_end: "field_loop data (length data) ch ps = (length data, ch, ps)"
  by (subst field_loop.simps) simp

lemma field_loop_last:
  assumes "length data = Suc k"
  shows "field_loop data k ch ps =
    (let c = data ! k in if TOKEN c = NUL then (k, c, ps)
     else (Suc k, c, if header_state ps = h_general then ps else field_char c (TOKEN c) ps))"
proof -
  have "fast_forward data k = k" using assms by (simp add: fast_forward_def slice_def max_header_size_def)
  then show ?thesis using field_loop_end [of data] assms by (subst field_loop.simps) (simp add: Let_def)
qed

lemma value_loop_end: "value_loop data l (length data) hs ps = (At_end, hs, ps)"
  by (subst value_loop.simps) simp

lemma value_loop_last:
  assumes "length data = Suc k"
  shows "value_loop data l k hs ps =
    (let c = data ! k
     in if c = cr then (At_cr k, hs, ps) else if c = lf then (At_lf k, hs, ps)
        else if \<not> l \<and> \<not> IS_HEADER_CHAR c then (Bad_value CHPE_INVALID_HEADER_TOKEN k, hs, ps)
        else if hs = h_general then (At_end, hs, ps)
        else (case value_char c hs ps of
                (hs, None) \<Rightarrow> (Bad_value CHPE_INVALID_CONTENT_LENGTH k, hs, ps)
              | (hs, Some ps) \<Rightarrow> (At_end, hs, ps)))"
proof -
  have "general_scan data l (Suc k) k = (if data ! k = cr \<or> data ! k = lf then Inr (k - 1)
      else if \<not> l \<and> \<not> IS_HEADER_CHAR (data ! k) then Inl k else Inr (Suc k))"
    by (subst general_scan.simps, subst general_scan.simps) simp
  moreover have "k + min (length data - k) max_header_size = Suc k" using assms by (simp add: max_header_size_def)
  ultimately show ?thesis using value_loop_end [of data] assms
    by (subst value_loop.simps) (auto simp: Let_def split: prod.split option.split)
qed

lemma same_parser_nread: "same_parser ps qs \<longleftrightarrow> (\<exists>n. ps = qs\<lparr>nread := n\<rparr>)"
proof
  assume "same_parser ps qs"
  then have "ps = qs\<lparr>nread := nread ps\<rparr>" by (simp add: same_parser_iff)
  then show "\<exists>n. ps = qs\<lparr>nread := n\<rparr>" by blast
qed (auto simp: same_parser_iff)

lemma match_nread:
  "match_field w d c (ps\<lparr>nread := n\<rparr>) = (match_field w d c ps)\<lparr>nread := n\<rparr>"
  "next_field_state hs (ps\<lparr>nread := n\<rparr>) = (next_field_state hs ps)\<lparr>nread := n\<rparr>"
  "match_value w d co e c (ps\<lparr>nread := n\<rparr>) = apsnd (\<lambda>ps. ps\<lparr>nread := n\<rparr>) (match_value w d co e c ps)"
  "length_digit c (ps\<lparr>nread := n\<rparr>) = map_option (\<lambda>ps. ps\<lparr>nread := n\<rparr>) (length_digit c ps)"
  by (simp_all add: match_field_def next_field_state_def match_value_def length_digit_def Let_def)

lemma apsnd_Some: "apsnd (map_option f) (apsnd Some x) = apsnd Some (apsnd f x)"
  by (cases x) simp

lemma field_char_nread: "field_char ch c (ps\<lparr>nread := n\<rparr>) = (field_char ch c ps)\<lparr>nread := n\<rparr>"
  unfolding field_char_def by (cases "header_state ps") (simp_all add: match_nread Let_def)

lemma value_char_nread: "value_char ch hs (ps\<lparr>nread := n\<rparr>) = apsnd (map_option (\<lambda>ps. ps\<lparr>nread := n\<rparr>)) (value_char ch hs ps)"
  unfolding value_char_def by (cases hs) (simp_all add: match_nread apsnd_Some Let_def)

section \<open>The cases of the loop\<close>

lemmas shift_simps = goto_state_def exec_defs shifted_def same_parser_iff same_fail Let_def

lemma shift_simple:
  assumes "shifted k x z"
  shows "same_outcome k (req_http_start ch k x) (req_http_start ch 0 z)"
    "same_outcome k (expect c s ch k x) (expect c s ch 0 z)"
    "same_outcome k (expect_lf s ch k x) (expect_lf s ch 0 z)"
    "same_outcome k (req_http_major ch k x) (req_http_major ch 0 z)"
    "same_outcome k (req_http_dot ch k x) (req_http_dot ch 0 z)"
    "same_outcome k (req_http_minor ch k x) (req_http_minor ch 0 z)"
    "same_outcome k (req_http_end ch k x) (req_http_end ch 0 z)"
    "same_outcome k (chunk_size_start ch k x) (chunk_size_start ch 0 z)"
    "same_outcome k (chunk_size ch k x) (chunk_size ch 0 z)"
    "same_outcome k (chunk_parameters ch k x) (chunk_parameters ch 0 z)"
    "same_outcome k (chunk_size_almost_done ch k x) (chunk_size_almost_done ch 0 z)"
    "same_outcome k (chunk_data_done ch k x) (chunk_data_done ch 0 z)"
    "same_outcome k (header_field_start ch k x) (header_field_start ch 0 z)"
  using assms
  by (auto simp: shift_simps strict_check_def mark_at_def req_http_start_def expect_def expect_lf_def req_http_major_def req_http_dot_def
      req_http_minor_def req_http_end_def chunk_size_start_def chunk_size_def chunk_parameters_def
      chunk_size_almost_done_def chunk_data_done_def header_field_start_def split: option.split)

lemma shift_lws:
  assumes "shifted k x z"
  shows "same_outcome k (header_value_lws ch k x) (header_value_lws ch 0 z)"
  using assms by (auto simp: shift_simps header_value_lws_def split: hstate.split)

lemma shift_value_start:
  assumes "shifted k x z" "length data = Suc k"
  shows "same_outcome k (header_value_start data ch k x) (header_value_start [c] ch 0 z)"
  using assms by (auto simp: shift_simps header_value_start_def length_start_def mark_at_def split: hstate.split option.split)

lemma shift_discard_ws:
  assumes "shifted k x z" "length data = Suc k"
  shows "same_outcome k (header_value_discard_ws data ch k x) (header_value_discard_ws [c] ch 0 z)"
  using shift_value_start [OF assms] shift_goto [OF assms(1)] assms(1) by (simp add: header_value_discard_ws_def)

lemma slice_shift [simp]: "slice (a @ b) (length a + m) n = slice b m n"
  by (simp add: slice_def)

lemma shifted_obtain:
  assumes "shifted k x z"
  obtains n where "parser x = (parser z)\<lparr>nread := n\<rparr>"
  using assms same_parser_nread [of "parser x" "parser z"] unfolding shifted_def by blast

lemma shifted_set:
  "shifted k x z \<Longrightarrow> same_parser ps qs \<Longrightarrow> shifted k (x\<lparr>parser := ps\<rparr>) (z\<lparr>parser := qs\<rparr>)"
  "shifted k x z \<Longrightarrow> shifted k (x\<lparr>header_field_mark := None\<rparr>) (z\<lparr>header_field_mark := None\<rparr>)"
  "shifted k x z \<Longrightarrow> shifted k (x\<lparr>header_value_mark := None\<rparr>) (z\<lparr>header_value_mark := None\<rparr>)"
  "shifted k x z \<Longrightarrow> shifted k (x\<lparr>url_mark := None\<rparr>) (z\<lparr>url_mark := None\<rparr>)"
  "shifted k x z \<Longrightarrow> shifted k (x\<lparr>body_mark := None\<rparr>) (z\<lparr>body_mark := None\<rparr>)"
  "shifted k x z \<Longrightarrow> shifted k (x\<lparr>header_value_mark := mark_at k (header_value_mark x)\<rparr>) (z\<lparr>header_value_mark := mark_at 0 (header_value_mark z)\<rparr>)"
  "shifted k x z \<Longrightarrow> shifted k (x\<lparr>body_mark := mark_at k (body_mark x)\<rparr>) (z\<lparr>body_mark := mark_at 0 (body_mark z)\<rparr>)"
  by (auto simp: shifted_def mark_at_def split: option.split)

lemma shifted_exec:
  "shifted k x z \<Longrightarrow> shifted k (set_state s x) (set_state s z)"
  "shifted k x z \<Longrightarrow> shifted k (set_hstate hs x) (set_hstate hs z)"
  "shifted k x z \<Longrightarrow> shifted k (reset_nread x) (reset_nread z)"
  "shifted k x z \<Longrightarrow> shifted k (save_nread x) (save_nread z)"
  by (simp_all add: exec_defs shifted_def same_parser_iff)

lemma shifted_nread: "shifted k x z \<Longrightarrow> nread_local x = nread_local z"
  by (simp add: shifted_def)

lemma nread_local_set_errno [simp]: "nread_local (set_errno e x) = nread_local x"
  by (simp add: set_errno_def)

lemma shiftable_break: "shiftable k (Break k) (Break 0)"
  by (simp add: shiftable_def)

context collecting_callbacks begin

lemma shift_callbacks:
  assumes "shiftable k f g" and "shifted k x z" and "length a = k"
  shows "same_outcome k (field_callback cb (a @ b) (k + to) (k + er) f x) (field_callback cb b to er g z)"
    "same_outcome k (value_callback cb (a @ b) (k + to) (k + er) f x) (value_callback cb b to er g z)"
    "same_outcome k (url_callback cb (a @ b) (k + to) (k + er) f x) (url_callback cb b to er g z)"
    "same_outcome k (body_callback cb (a @ b) (k + to) (k + er) f x) (body_callback cb b to er g z)"
  unfolding field_callback_def value_callback_def url_callback_def body_callback_def
  by (rule shift_data_callback [OF assms(1,2)]; use assms(2) in \<open>simp add: shifted_set assms(3) [symmetric]\<close>; simp add: shifted_def)+

lemma shift_header_field:
  assumes "shifted k x z" and k: "k = length a"
  shows "same_outcome k (header_field cb (a @ [c]) ch k x) (header_field cb [c] ch' 0 z)"
proof -
  obtain n where n: "parser x = (parser z)\<lparr>nread := n\<rparr>" using assms(1) by (rule shifted_obtain)
  have l: "length (a @ [c]) = Suc k" "(a @ [c]) ! k = c" by (simp_all add: k)
  define colon :: "nat \<Rightarrow> string \<Rightarrow> 'h exec \<Rightarrow> 'h outcome" where
    "colon p data = (\<lambda>x. if c = CHR '':'' then field_callback cb data p (p + 1) (Break p) (set_state s_header_value_discard_ws x)
                     else fail CHPE_INVALID_HEADER_TOKEN p x)" for p data
  have colon: "shiftable k (colon k (a @ [c])) (colon 0 [c])"
    using shift_callbacks(1) [where to = 0 and er = 1, OF shiftable_break shifted_exec(1) k [symmetric]]
    by (simp add: shiftable_def colon_def same_fail)
  have f: "field_char c (TOKEN c) ((parser z)\<lparr>nread := n\<rparr>) = (field_char c (TOKEN c) (parser z))\<lparr>nread := n\<rparr>"
    by (rule field_char_nread)
  have s: "shifted k (x\<lparr>parser := qs\<lparr>nread := n\<rparr>\<rparr>) (z\<lparr>parser := qs\<rparr>)" for qs
    using assms(1) by (simp add: shifted_def same_parser_iff)
  have s0: "shifted k (x\<lparr>parser := (parser z)\<lparr>nread := n\<rparr>\<rparr>) z" using s [of "parser z"] by simp
  show ?thesis
    unfolding header_field_def field_loop_last [OF l(1)] field_loop_last [of "[c]" 0, simplified] l(2) Let_def prod.case n
    using shift_count [where q = 0, OF shiftable_break [of k] s] shift_count [where q = 0, OF colon s]
      shift_count [where q = 0, OF shiftable_break [of k] s0] shift_count [where q = 0, OF colon s0]
    by (simp add: f k colon_def)
qed

lemma shift_header_value:
  assumes "shifted k x z" and k: "k = length a"
  shows "same_outcome k (header_value cb (a @ [c]) k x) (header_value cb [c] 0 z)"
proof -
  obtain n where n: "parser x = (parser z)\<lparr>nread := n\<rparr>" using assms(1) by (rule shifted_obtain)
  have l: "length (a @ [c]) = Suc k" "(a @ [c]) ! k = c" by (simp_all add: k)
  have s: "shifted k (x\<lparr>parser := ps\<lparr>nread := n, header_state := H\<rparr>\<rparr>) (z\<lparr>parser := ps\<lparr>header_state := H\<rparr>\<rparr>)" 
      "shifted k (x\<lparr>parser := ps\<lparr>nread := n, pstate := P\<rparr>\<rparr>) (z\<lparr>parser := ps\<lparr>pstate := P\<rparr>\<rparr>)" 
      "shifted k (x\<lparr>parser := ps\<lparr>nread := n, pstate := P, header_state := H\<rparr>\<rparr>) (z\<lparr>parser := ps\<lparr>pstate := P, header_state := H\<rparr>\<rparr>)" for ps P H
    using assms(1) by (simp_all add: shifted_def same_parser_iff)
  have cr: "shiftable k (\<lambda>x. count_header 0 k (Break k) (set_hstate hs x)) (\<lambda>x. count_header 0 0 (Break 0) (set_hstate hs x))" for hs
    by (rule shiftableI) (use shift_count [where q = 0, OF shiftable_break [of k] shifted_exec(2)] in simp)
  have "shiftable k (Reexecute lf k) (Reexecute lf 0)" by (simp add: shiftable_def)
  from shift_callbacks(2) [where to = 0 and er = 0, OF this shifted_exec(2) k [symmetric]]
  have lf: "shiftable k (\<lambda>x. value_callback cb (a @ [c]) k k (Reexecute lf k) (set_hstate hs x))
      (\<lambda>x. value_callback cb [c] 0 0 (Reexecute lf 0) (set_hstate hs x))" for hs
    by (simp add: shiftable_def)
  note parts = shift_count [where q = 0, OF shiftable_break [of k] s(1)]
    shift_callbacks(2) [where to = 0 and er = 1, OF cr s(3) k [symmetric]] shift_count [where q = 0, OF lf s(2)]
  obtain hs r where v: "value_char c (header_state (parser z)) (parser z) = (hs, r)" by fastforce
  then have v': "value_char c (header_state (parser z)) ((parser z)\<lparr>nread := n\<rparr>) = (hs, map_option (\<lambda>ps. ps\<lparr>nread := n\<rparr>) r)"
    by (simp add: value_char_nread)
  define hs0 where "hs0 = header_state (parser z)"
  define l0 where "l0 = lenient_http_headers (parser z)"
  have h: "header_state ((parser z)\<lparr>nread := n\<rparr>) = hs0" "lenient_http_headers ((parser z)\<lparr>nread := n\<rparr>) = l0" by (simp_all add: hs0_def l0_def)
  consider "c = cr" | "c \<noteq> cr" "c = lf" | "c \<noteq> cr" "c \<noteq> lf" "\<not> l0 \<and> \<not> IS_HEADER_CHAR c"
    | "c \<noteq> cr" "c \<noteq> lf" "\<not> (\<not> l0 \<and> \<not> IS_HEADER_CHAR c)" "hs0 = h_general"
    | "c \<noteq> cr" "c \<noteq> lf" "\<not> (\<not> l0 \<and> \<not> IS_HEADER_CHAR c)" "hs0 \<noteq> h_general" "r = None"
    | ps where "c \<noteq> cr" "c \<noteq> lf" "\<not> (\<not> l0 \<and> \<not> IS_HEADER_CHAR c)" "hs0 \<noteq> h_general" "r = Some ps"
    by blast
  then show ?thesis
    unfolding header_value_def value_loop_last [OF l(1)] value_loop_last [of "[c]" 0, simplified] l(2) Let_def n h
      hs0_def [symmetric] l0_def [symmetric]
    by cases (use parts v v' in \<open>auto simp: hs0_def [symmetric] k same_fail\<close>)
qed

lemma shift_start_req:
  assumes "shifted k x z"
  shows "same_outcome k (start_req cb ch k x) (start_req cb ch 0 z)"
proof -
  define X where "X m x = on_parser (\<lambda>ps. ps\<lparr>pmethod := m, pstate := s_req_method\<rparr>) (on_parser (\<lambda>ps. ps\<lparr>pmethod := DELETE, pindex := 1\<rparr>)
      (on_parser (\<lambda>ps. ps\<lparr>pflags := no_flags, uses_transfer_encoding := False, content_length := ULLONG_MAX\<rparr>) x))"
    for m and x :: "'h exec"
  have "shifted k (X m x) (X m z)" for m
    using assms by (simp add: X_def shifted_def same_parser_iff)
  note n = shift_notify [where er = 1, OF shiftable_break this]
  show ?thesis using n assms
    by (auto simp: start_req_def Let_def same_fail X_def [symmetric] split: option.split)
qed

lemma shift_req_method:
  assumes "shifted k x z"
  shows "same_outcome k (req_method cb ch k x) (req_method cb ch 0 z)"
proof -
  obtain n where n: "parser x = (parser z)\<lparr>nread := n\<rparr>" using assms by (rule shifted_obtain)
  have m: "method_char ch ((parser z)\<lparr>nread := n\<rparr>) = map_option (\<lambda>ps. ps\<lparr>nread := n\<rparr>) (method_char ch (parser z))"
    by (cases "method_switch (pmethod (parser z), unat (pindex (parser z)), ch)") (auto simp: method_char_def Let_def)
  have s: "shifted k (x\<lparr>parser := qs\<lparr>nread := n\<rparr>\<rparr>) (z\<lparr>parser := qs\<rparr>)" for qs
    using assms by (simp add: shifted_def same_parser_iff)
  have "shiftable k (\<lambda>x. Break k (on_parser (\<lambda>ps. ps\<lparr>pindex := pindex ps + 1\<rparr>) x)) (\<lambda>x. Break 0 (on_parser (\<lambda>ps. ps\<lparr>pindex := pindex ps + 1\<rparr>) x))"
    by (simp add: shiftable_def shifted_def same_parser_iff)
  from shift_notify [where er = 0, OF this s] show ?thesis
    by (simp add: req_method_def n m same_fail split: option.split)
qed

lemma shift_headers_almost_done:
  assumes "shifted k x z"
  shows "same_outcome k (headers_almost_done cb ch k x) (headers_almost_done cb ch 0 z)"
proof (cases "ch = lf")
  case True
  obtain n where n: "parser x = (parser z)\<lparr>nread := n\<rparr>" using assms by (rule shifted_obtain)
  define qs where "qs = (parser z)\<lparr>pstate := s_headers_done, upgrade := F_UPGRADE (pflags (parser z)) \<or> pmethod (parser z) = CONNECT\<rparr>"
  have "shifted k (x\<lparr>parser := qs\<lparr>nread := n\<rparr>\<rparr>) (z\<lparr>parser := qs\<rparr>)"
    using assms by (simp add: shifted_def same_parser_iff)
  then have c: "shifted k (call cb On_headers_complete (x\<lparr>parser := qs\<lparr>nread := n\<rparr>\<rparr>)) (call cb On_headers_complete (z\<lparr>parser := qs\<rparr>))"
    by (rule shifted_call)
  have e: "perrno (parser (call cb On_headers_complete (x\<lparr>parser := qs\<lparr>nread := n\<rparr>\<rparr>))) =
      perrno (parser (call cb On_headers_complete (z\<lparr>parser := qs\<rparr>)))"
    using c by (simp add: shifted_def same_parser_iff)
  have q: "(parser z)\<lparr>nread := n, pstate := s_headers_done, upgrade := F_UPGRADE (pflags (parser z)) \<or> pmethod (parser z) = CONNECT\<rparr> = qs\<lparr>nread := n\<rparr>"
    by (simp add: qs_def)
  show ?thesis
    unfolding headers_almost_done_def strict_check_def Let_def n
    using shift_notify [where er = 1, OF shiftable_break assms, of On_message_complete] True c e shifted_exec(4) [OF c] shifted_nread [OF c]
    by (auto simp: same_fail q qs_def [symmetric])
qed (simp add: headers_almost_done_def strict_check_def same_fail)

lemma shift_headers_done:
  assumes "shifted k x z"
  shows "same_outcome k (headers_done cb ch k x) (headers_done cb ch 0 z)"
proof (cases "ch = lf")
  case True
  define x' z' where "x' = reset_nread x" and "z' = reset_nread z"
  have s: "shifted k x' z'" using assms by (simp add: x'_def z'_def shifted_exec)
  obtain n where n: "parser x' = (parser z')\<lparr>nread := n\<rparr>" using s by (rule shifted_obtain)
  have sv: "shiftable k (\<lambda>x. Return (k + 1) (save_nread x)) (\<lambda>x. Return (0 + 1) (save_nread x))"
    using shifted_exec(4) by (auto simp: shiftable_def shifted_def)
  have se: "shifted k (save_nread (set_errno e x')) (save_nread (set_errno e z'))" for e
    using s by (simp add: save_nread_def set_errno_def shifted_def same_parser_iff)
  show ?thesis
    unfolding headers_done_def strict_check_def Let_def x'_def [symmetric] z'_def [symmetric] n
    using shift_notify [where er = 1, OF shiftable_break s, of On_message_complete] shift_notify [where er = 1, OF sv s, of On_message_complete]
      shift_goto [OF s] True se shifted_nread [OF s]
    by simp
qed (simp add: headers_done_def strict_check_def same_fail)

lemma shift_lws_empty:
  assumes "shifted k x z" and k: "k = length a"
  shows "same_outcome k (header_value_discard_lws cb (a @ [c]) ch k x) (header_value_discard_lws cb [c] ch 0 z)"
proof -
  have "shiftable k (Reexecute ch k) (Reexecute ch 0)" by (simp add: shiftable_def)
  from shift_callbacks(2) [where to = 0 and er = 0, OF this shifted_exec(1) [OF shifted_set(6) [OF assms(1)]] k [symmetric]]
    shift_goto [OF assms(1)]
  show ?thesis by (simp add: header_value_discard_lws_def)
qed

lemma shift_mark_body:
  assumes "shifted k x z" and "k = length a"
  shows "to_read (a @ [c]) k x = to_read [c] 0 z" "shifted k (mark_body (a @ [c]) k x) (mark_body [c] 0 z)"
  using assms by (auto simp: mark_body_def to_read_def shifted_def same_parser_iff mark_at_def split: option.split)

lemma to_read_last: "to_read [c] 0 z \<le> 1"
  by (simp add: to_read_def)

lemma shift_body:
  assumes "shifted k x z" and k: "k = length a" and "content_length (parser z) \<noteq> 0"
  shows "same_outcome k (body_identity cb (a @ [c]) ch k x) (body_identity cb [c] ch 0 z)"
    "same_outcome k (chunk_data (a @ [c]) k x) (chunk_data [c] 0 z)"
proof -
  have "unat (content_length (parser z)) \<noteq> 0" using assms(3) by (simp add: unat_eq_zero)
  then have "to_read [c] 0 z = 1" by (auto simp: to_read_def min_def word_le_nat_alt word_unat_eq_iff)
  then have q: "unat (to_read [c] 0 z) = 1" by simp
  note m = shift_mark_body [OF assms(1,2)]
  have z: "content_length (parser (mark_body (a @ [c]) k x)) = content_length (parser (mark_body [c] 0 z))"
    using m(2) by (simp add: shifted_def same_parser_iff)
  have "shiftable k (Reexecute ch k) (Reexecute ch 0)" by (simp add: shiftable_def)
  note cb = shift_callbacks(4) [where to = 1 and er = 0, OF this shifted_exec(1) [OF m(2)] k [symmetric]]
  show "same_outcome k (body_identity cb (a @ [c]) ch k x) (body_identity cb [c] ch 0 z)"
    using cb m z q by (simp add: body_identity_def Let_def)
  show "same_outcome k (chunk_data (a @ [c]) k x) (chunk_data [c] 0 z)"
    using m z q by (simp add: chunk_data_def Let_def shifted_exec)
qed

lemma shift_chunk_end:
  assumes "shifted k x z" and k: "k = length a"
  shows "same_outcome k (chunk_data_almost_done cb (a @ [c]) ch k x) (chunk_data_almost_done cb [c] ch 0 z)"
  using shift_callbacks(4) [where to = 0 and er = 1, OF shiftable_break shifted_exec(1) [OF assms(1)] k [symmetric]]
  by (simp add: chunk_data_almost_done_def strict_check_def same_fail)

lemma shift_state_case:
  assumes s: "shifted k x z" and k: "k = length a" and "\<not> in_url (pstate (parser z))" and "pstate (parser z) \<noteq> s_req_spaces_before_url"
    and "content_length (parser z) = 0 \<longrightarrow> pstate (parser z) \<noteq> s_body_identity \<and> pstate (parser z) \<noteq> s_chunk_data"
  shows "same_outcome k (state_case cb wild (a @ [c]) ch k x) (state_case cb wild [c] ch 0 z)"
proof -
  have p: "pstate (parser x) = pstate (parser z)" using s by (simp add: shifted_def same_parser_iff)
  have l: "length (a @ [c]) = Suc k" by (simp add: k)
  have d: "same_outcome k (if ch = cr \<or> ch = lf then Break k x else fail CHPE_CLOSED_CONNECTION k x)
      (if ch = cr \<or> ch = lf then Break 0 z else fail CHPE_CLOSED_CONNECTION 0 z)"
    using s by (simp add: same_fail)
  have e: "same_outcome k (body_identity_eof (a @ [c]) k x) (body_identity_eof [c] 0 z)"
    using shifted_set(7) [OF s] by (simp add: body_identity_eof_def k)
  show ?thesis
    unfolding state_case_def p
    using assms(3-5) shift_simple [OF s] shift_lws [OF s] shift_value_start [OF s l] shift_discard_ws [OF s l] shift_header_field [OF s k]
      shift_header_value [OF s k] shift_start_req [OF s] shift_req_method [OF s] shift_headers_almost_done [OF s] shift_headers_done [OF s]
      shift_lws_empty [OF s k] shift_body [OF s k] shift_chunk_end [OF s k] d e
      shift_notify [where er = 1, OF shiftable_break s, of On_message_complete]
    by (cases "pstate (parser z)") (simp_all add: in_url_def)
qed

lemma shift_finish:
  assumes "shifted k x z" and k: "k = length a"
  shows "same_outcome k (finish_data cb (a @ [c]) x) (finish_data cb [c] z)"
proof -
  have r: "shiftable k (\<lambda>x. Return (k + 1) (save_nread x)) (\<lambda>x. Return 1 (save_nread x))"
    using shifted_exec(4) by (auto simp: shiftable_def shifted_def)
  note step = shiftableI [OF shift_callbacks(4) [where to = 1 and er = 1, OF r _ k [symmetric]]]
  note step = shiftableI [OF shift_callbacks(3) [where to = 1 and er = 1, OF step _ k [symmetric]]]
  note step = shiftableI [OF shift_callbacks(2) [where to = 1 and er = 1, OF step _ k [symmetric]]]
  note step = shift_callbacks(1) [where to = 1 and er = 1, OF step assms(1) k [symmetric], where b = "[c]"]
  show ?thesis using step by (simp add: finish_data_def k)
qed

end

section \<open>Jumps to the same character\<close>

lemma no_reexecute [simp]:
  "fail e p x \<noteq> Reexecute ch q y"
  "goto_state s p x \<noteq> Reexecute ch q y"
  by (simp_all add: fail_def goto_state_def)

lemma pstate_set_hstate [simp]: "pstate (parser (set_hstate hs x)) = pstate (parser x)"
  by (simp add: set_hstate_def)

lemma count_reexecute: "count_header n p k x = Reexecute ch q y \<Longrightarrow> \<exists>m. k (x\<lparr>nread_local := m\<rparr>) = Reexecute ch q y"
  by (auto simp: count_header_def Let_def split: if_splits)

lemma reexecute_start [simp]: "header_value_start data ch p x \<noteq> Reexecute ch' q y"
  by (auto simp: header_value_start_def length_start_def Let_def split: hstate.splits if_splits)

definition reentered :: "pstate \<Rightarrow> bool" where
  "reentered s \<longleftrightarrow> s \<in> {s_headers_almost_done, s_header_almost_done, s_header_value_start, s_header_field_start, s_headers_done, s_message_done}"

context collecting_callbacks begin

lemma call_parser:
  "parser (call cb (On_header_field s) x) = parser x" "parser (call cb (On_header_value s) x) = parser x"
  "parser (call cb (On_body s) x) = parser x" "parser (call cb On_message_begin x) = parser x"
  "parser (call cb On_method x) = parser x" "parser (call cb On_headers_complete x) = parser x"
  by (simp_all add: call_def field "value" body quiet split: prod.split) (use quiet in \<open>metis fst_conv\<close>)+

lemma callback_reexecute:
  "value_callback cb data to er (Reexecute ch p) x = Reexecute ch' q y \<Longrightarrow> parser y = parser x"
  "value_callback cb data to er (\<lambda>x. Reexecute ch p (set_hstate hs x)) x = Reexecute ch' q y \<Longrightarrow> pstate (parser y) = pstate (parser x)"
  "body_callback cb data to er (Reexecute ch p) x = Reexecute ch' q y \<Longrightarrow> parser y = parser x"
  by (auto simp: value_callback_def body_callback_def data_callback_def notify_def Let_def call_parser set_hstate_def split: option.splits if_splits)

lemma callback_break [simp]:
  "field_callback cb data to er (Break p) x \<noteq> Reexecute ch q y"
  "value_callback cb data to er (\<lambda>x. count_header n p (Break p) (set_hstate hs x)) x \<noteq> Reexecute ch q y"
  "url_callback cb data to er (Break p) x \<noteq> Reexecute ch q y"
  "body_callback cb data to er (Break p) x \<noteq> Reexecute ch q y"
  "notify cb ev er (Break p) x \<noteq> Reexecute ch q y"
  by (auto simp: field_callback_def value_callback_def body_callback_def url_callback_def data_callback_def notify_def Let_def
      count_header_def split: option.splits if_splits)

lemma reexecute_value:
  assumes "header_value cb data p x = Reexecute ch' q y" shows "pstate (parser y) = s_header_almost_done"
proof -
  obtain e hs ps where "value_loop data (lenient_http_headers (parser x)) p (header_state (parser x)) (parser x) = (e, hs, ps)"
    by (metis prod_cases3)
  with assms show ?thesis
    by (auto simp: header_value_def Let_def split: value_end.splits if_splits dest!: count_reexecute callback_reexecute)
qed

lemma reexecute_field [simp]: "header_field cb data ch p x \<noteq> Reexecute ch' q y"
  by (auto simp: header_field_def Let_def split: prod.splits if_splits dest!: count_reexecute)

lemma reexecute_state:
  assumes "state_case cb wild data ch p x = Reexecute ch' q y"
  shows "reentered (pstate (parser y))"
  using assms unfolding state_case_def
  by (cases "pstate (parser x)")
    (auto simp: reentered_def Let_def start_req_def req_method_def req_spaces_before_url_def req_schema_def req_url_def url_char_def
      req_http_start_def expect_def expect_lf_def strict_check_def req_http_major_def req_http_dot_def req_http_minor_def req_http_end_def
      header_field_start_def header_value_discard_ws_def header_value_discard_lws_def header_value_lws_def
      headers_almost_done_def headers_done_def body_identity_def body_identity_eof_def chunk_size_start_def chunk_size_def chunk_parameters_def
      chunk_size_almost_done_def chunk_data_def chunk_data_almost_done_def chunk_data_done_def exec_defs call_parser notify_def
      split: if_splits option.splits dest!: callback_reexecute reexecute_value)

end

section \<open>Runs\<close>

lemma run_Inl [simp]: "run cb wild data (Inl r) = Some r"
  by (subst run.simps) simp

lemma run_Inr: "run cb wild data (Inr s) = run cb wild data (loop_step cb wild data s)"
  by (subst run.simps) simp

lemma run_induct [consumes 1, case_names ret step]:
  assumes "run cb wild data s = Some r"
    and "\<And>r. P (Inl r) r"
    and "\<And>s r. run cb wild data (loop_step cb wild data s) = Some r \<Longrightarrow> P (loop_step cb wild data s) r \<Longrightarrow> P (Inr s) r"
  shows "P s r"
proof -
  define Q where "Q cb' wild' data' s r \<longleftrightarrow> (cb' = cb \<longrightarrow> wild' = wild \<longrightarrow> data' = data \<longrightarrow> run cb wild data s = Some r \<and> P s r)"
    for cb' wild' data' s r
  have "Q cb wild data s r"
  proof (rule run.raw_induct [where P = Q, OF _ assms(1)])
    fix f cb' wild' data' s r
    assume ih: "\<And>cb wild data s r. f cb wild data s = Some r \<Longrightarrow> Q cb wild data s r"
      and eq: "(case s of Inl r \<Rightarrow> Some r | Inr s \<Rightarrow> f cb' wild' data' (loop_step cb' wild' data' s)) = Some r"
    show "Q cb' wild' data' s r"
    proof (cases s)
      case (Inl r')
      then show ?thesis using eq assms(2) by (simp add: Q_def)
    next
      case (Inr s')
      then have "f cb' wild' data' (loop_step cb' wild' data' s') = Some r" using eq by simp
      from ih [OF this] show ?thesis using assms(3) [of s' r] unfolding Inr Q_def by (simp only: run_Inr) blast
    qed
  qed
  then show ?thesis by (simp add: Q_def)
qed

fun_cases same_breakE: "same_outcome k u (Break q z)"
fun_cases same_reexecuteE: "same_outcome k u (Reexecute ch q z)"
fun_cases same_returnE: "same_outcome k u (Return q z)"

lemma notify_returns: "(\<And>x. \<exists>m y. k x = Return m y) \<Longrightarrow> \<exists>m y. notify cb ev er k x = Return m y"
  by (simp add: notify_def Let_def)

lemma data_callback_returns:
  "(\<And>x. \<exists>m y. k x = Return m y) \<Longrightarrow> \<exists>m y. data_callback cb data mark unmark ev to er k x = Return m y"
  by (auto simp: data_callback_def intro: notify_returns split: option.split)

lemma finish_data_returns: "\<exists>m y. finish_data cb data x = Return m y"
  unfolding finish_data_def field_callback_def value_callback_def url_callback_def body_callback_def Let_def
  by (intro data_callback_returns) blast

definition steady :: "http_parser \<Rightarrow> bool" where
  "steady ps \<longleftrightarrow> \<not> in_url (pstate ps) \<and> pstate ps \<noteq> s_req_spaces_before_url
     \<and> (content_length ps = 0 \<longrightarrow> pstate ps \<noteq> s_body_identity \<and> pstate ps \<noteq> s_chunk_data)"

lemma at_error_errno [simp]: "perrno (parser (at_error x)) \<noteq> CHPE_OK"
  by (simp add: at_error_def save_nread_def set_errno_def)

lemma reentered_steady: "reentered (pstate ps) \<Longrightarrow> steady ps"
  by (auto simp: reentered_def steady_def in_url_def)

definition ends_as :: "(nat \<times> 'h exec) option \<Rightarrow> nat \<Rightarrow> 'h exec \<Rightarrow> bool" where
  "ends_as r n y \<longleftrightarrow> (\<exists>x. r = Some (n, x) \<and> parser x = parser y \<and> owner x = owner y)"

lemma shifted_ends:
  "shifted k x y \<Longrightarrow> nread (parser x) = nread (parser y) \<Longrightarrow> parser x = parser y \<and> owner x = owner y"
  by (auto simp: shifted_def same_parser_nread)

context collecting_callbacks begin

lemma run_finish:
  assumes "shifted k x z" and k: "k = length a" and "run cb wild [c] (loop_head cb [c] 1 z) = Some r" and "perrno (parser (snd r)) = CHPE_OK"
  shows "ends_as (run cb wild (a @ [c]) (loop_head cb (a @ [c]) (Suc k) x)) (k + fst r) (snd r)"
proof -
  obtain m y where f: "finish_data cb [c] z = Return m y" using finish_data_returns by blast
  then obtain x' where x': "finish_data cb (a @ [c]) x = Return (k + m) x'" "shifted k x' y"
      "perrno (parser y) = CHPE_OK \<longrightarrow> nread (parser x') = nread (parser y)"
    using shift_finish [OF assms(1) k, of c] by (auto elim: same_returnE)
  then show ?thesis using assms(3,4) shifted_ends [OF x'(2)] by (auto simp: loop_head_def k f ends_as_def)
qed

lemma run_shift:
  assumes "run cb wild [c] s = Some r" and k: "k = length a"
  shows "s = Inr (ch, 0, z) \<Longrightarrow> shifted k x z \<Longrightarrow> steady (parser z) \<Longrightarrow> perrno (parser (snd r)) = CHPE_OK \<Longrightarrow>
    ends_as (run cb wild (a @ [c]) (Inr (ch, k, x))) (k + fst r) (snd r)"
  using assms(1)
proof (induction arbitrary: ch x z rule: run_induct)
  case (step s r)
  then have s: "s = (ch, 0, z)" by simp
  have same: "same_outcome k (state_case cb wild (a @ [c]) ch k x) (state_case cb wild [c] ch 0 z)"
    using shift_state_case [OF step.prems(2) k] step.prems(3) by (simp add: steady_def)
  note run = run_Inr [of cb wild "a @ [c]" "(ch, k, x)"]
  show ?case
  proof (cases "state_case cb wild [c] ch 0 z")
    case (Break q z')
    from same [unfolded this] obtain x' where x': "state_case cb wild (a @ [c]) ch k x = Break k x'" "q = 0" "shifted k x' z'"
      by (auto elim: same_breakE)
    have "run cb wild [c] (loop_head cb [c] 1 z') = Some r" using step(1) Break x'(2) by (simp add: s loop_step_def)
    from run_finish [OF x'(3) k this step.prems(4)] show ?thesis by (simp add: run loop_step_def x'(1))
  next
    case (Reexecute ch' q z')
    from same [unfolded this] obtain x' where x': "state_case cb wild (a @ [c]) ch k x = Reexecute ch' k x'" "q = 0" "shifted k x' z'"
      by (auto elim: same_reexecuteE)
    have l: "loop_step cb wild [c] s = Inr (ch', 0, z')" using Reexecute x'(2) by (simp add: s loop_step_def)
    have "steady (parser z')" by (rule reentered_steady [OF reexecute_state [OF Reexecute]])
    from step.IH [OF l x'(3) this step.prems(4)] show ?thesis by (simp add: run loop_step_def x'(1))
  next
    case (Return m z')
    from same [unfolded this] obtain x' where x': "state_case cb wild (a @ [c]) ch k x = Return (k + m) x'" "shifted k x' z'"
        "perrno (parser z') = CHPE_OK \<longrightarrow> nread (parser x') = nread (parser z')"
      by (auto elim: same_returnE)
    have "r = (m, z')" using step(1) Return by (simp add: s loop_step_def)
    then show ?thesis using x' step.prems(4) shifted_ends [OF x'(2)] by (simp add: run loop_step_def ends_as_def)
  next
    case (Goto_error m z')
    then have "r = (m, at_error z')" using step(1) by (simp add: s loop_step_def)
    then show ?thesis using step.prems(4) by simp
  qed
qed simp

end

end
