(* ===== verification/Http_Resume.thy ===== *)
theory Http_Resume
  imports Http_Shift
begin

text \<open>
  The boundary between two pieces: at the end of a piece the parser reports the part of a name, value
  or body it has seen, and takes up the rest with the next piece. The two reports amount to one.
\<close>

section \<open>Reports that are cut\<close>

lemma slice_join:
  assumes "m \<le> k" and "k \<le> to"
  shows "slice data m (k - m) @ slice data k (to - k) = slice data m (to - m)"
proof -
  have "to - m = (k - m) + (to - k)" "drop (k - m) (drop m data) = drop k data" using assms by simp_all
  then show ?thesis by (simp only: slice_def take_add)
qed

lemma field_char_errno: "perrno (field_char ch c ps) = perrno ps"
  unfolding field_char_def by (cases "header_state ps") (simp_all add: match_field_def next_field_state_def Let_def)

lemma header_field_last:
  assumes "length data = Suc k" and "data ! k = c"
  shows "header_field cb data ch k x =
    (if TOKEN c = NUL
     then count_header 0 k (\<lambda>x. if c = CHR '':'' then field_callback cb data k (k + 1) (Break k) (set_state s_header_value_discard_ws x)
                               else fail CHPE_INVALID_HEADER_TOKEN k x) x
     else count_header 0 k (Break k) (on_parser (\<lambda>ps. if header_state ps = h_general then ps else field_char c (TOKEN c) ps) x))"
  by (simp add: header_field_def field_loop_last [OF assms(1)] assms Let_def on_parser_def)

lemma header_value_last:
  assumes "length data = Suc k" and "data ! k = c"
  shows "header_value cb data k x =
    (let hs = header_state (parser x)
     in if c = cr
        then value_callback cb data k (k + 1) (\<lambda>x. count_header 0 k (Break k) (set_hstate hs x))
               (on_parser (\<lambda>ps. ps\<lparr>pstate := s_header_almost_done, header_state := hs\<rparr>) x)
        else if c = lf
        then count_header 0 k (\<lambda>x. value_callback cb data k k (Reexecute lf k) (set_hstate hs x))
               (on_parser (\<lambda>ps. ps\<lparr>pstate := s_header_almost_done\<rparr>) x)
        else if \<not> lenient_http_headers (parser x) \<and> \<not> IS_HEADER_CHAR c then fail CHPE_INVALID_HEADER_TOKEN k x
        else if hs = h_general then count_header 0 k (Break k) (on_parser (\<lambda>ps. ps\<lparr>header_state := hs\<rparr>) x)
        else (case value_char c hs (parser x) of
                (hs, None) \<Rightarrow> fail CHPE_INVALID_CONTENT_LENGTH k (on_parser (\<lambda>ps. ps\<lparr>header_state := hs\<rparr>) x)
              | (hs, Some ps) \<Rightarrow> count_header 0 k (Break k) (on_parser (\<lambda>_. ps\<lparr>header_state := hs\<rparr>) x)))"
  by (simp add: header_value_def value_loop_last [OF assms(1)] assms Let_def on_parser_def split: prod.split option.split)

lemma value_char_errno: "value_char c hs ps = (hs', Some ps') \<Longrightarrow> perrno ps' = perrno ps"
  unfolding value_char_def
  by (cases hs) (auto simp: match_value_def length_digit_def Let_def split: if_splits)

context collecting_callbacks begin

lemma flush_field:
  assumes "m \<le> k" and "k \<le> to" and "perrno (parser x) = CHPE_OK"
  shows "field_callback cb data to er K (x\<lparr>header_field_mark := Some m\<rparr>) =
    field_callback cb data to er K (x\<lparr>header_field_mark := Some k, owner := on_field (slice data m (k - m)) (owner x)\<rparr>)"
  by (simp add: field_callback_def data_callback_def notify_def call_def field slice_join [OF assms(1,2)] assms(3) Let_def)

lemma flush_value:
  assumes "m \<le> k" and "k \<le> to" and "perrno (parser x) = CHPE_OK"
  shows "value_callback cb data to er K (x\<lparr>header_value_mark := Some m\<rparr>) =
    value_callback cb data to er K (x\<lparr>header_value_mark := Some k, owner := on_value (slice data m (k - m)) (owner x)\<rparr>)"
  by (simp add: value_callback_def data_callback_def notify_def call_def "value" slice_join [OF assms(1,2)] assms(3) Let_def)

lemma flush_body:
  assumes "m \<le> k" and "k \<le> to" and "perrno (parser x) = CHPE_OK"
  shows "body_callback cb data to er K (x\<lparr>body_mark := Some m\<rparr>) =
    body_callback cb data to er K (x\<lparr>body_mark := Some k, owner := on_body (slice data m (k - m)) (owner x)\<rparr>)"
  by (simp add: body_callback_def data_callback_def notify_def call_def body slice_join [OF assms(1,2)] assms(3) Let_def)

lemma resume_field:
  assumes l: "length data = Suc k" and m: "m \<le> k" and st: "pstate (parser x) = s_header_field" and ok: "perrno (parser x) = CHPE_OK"
    and "run cb wild data (Inr (data ! k, k, x\<lparr>header_field_mark := Some k, owner := on_field (slice data m (k - m)) (owner x)\<rparr>)) = Some r"
    and "perrno (parser (snd r)) = CHPE_OK"
  shows "run cb wild data (Inr (data ! k, k, x\<lparr>header_field_mark := Some m\<rparr>)) = Some r"
proof -
  define c where "c = data ! k"
  define X1 X2 where "X1 x = x\<lparr>header_field_mark := Some m\<rparr>"
    and "X2 x = x\<lparr>header_field_mark := Some k, owner := on_field (slice data m (k - m)) (owner x)\<rparr>" for x :: "'h exec"
  have move: "on_parser f (X1 x) = X1 (on_parser f x)" "on_parser f (X2 x) = X2 (on_parser f x)"
      "(X1 x)\<lparr>nread_local := n\<rparr> = X1 (x\<lparr>nread_local := n\<rparr>)" "(X2 x)\<lparr>nread_local := n\<rparr> = X2 (x\<lparr>nread_local := n\<rparr>)"
      "parser (X1 x) = parser x" "parser (X2 x) = parser x" "nread_local (X1 x) = nread_local x" "nread_local (X2 x) = nread_local x" for f n x
    by (simp_all add: X1_def X2_def on_parser_def)
  have f: "finish_data cb data (X1 x) = finish_data cb data (X2 x)" if "perrno (parser x) = CHPE_OK" for x
    unfolding finish_data_def Let_def X1_def X2_def by (rule flush_field) (use m l that in simp_all)
  have g: "field_callback cb data k (k + 1) (Break k) (X1 x) = field_callback cb data k (k + 1) (Break k) (X2 x)"
    if "perrno (parser x) = CHPE_OK" for x
    unfolding X1_def X2_def by (rule flush_field) (use m that in simp_all)
  have "loop_step cb wild data (c, k, X1 x) = loop_step cb wild data (c, k, X2 x)
      \<or> (\<exists>p y. loop_step cb wild data (c, k, X2 x) = Inl (p, at_error y))"
    using ok
    by (auto simp: loop_step_def state_case_def move st header_field_last [OF l c_def [symmetric]] count_header_def loop_head_def l
        set_state_def fail_def Let_def f g [simplified] field_char_errno)
  moreover have "\<nexists>p y. loop_step cb wild data (c, k, X2 x) = Inl (p, at_error y)"
    using assms(5,6) by (auto simp: run_Inr c_def [symmetric] X2_def [symmetric])
  ultimately show ?thesis using assms(5) by (simp add: run_Inr c_def [symmetric] X1_def [symmetric] X2_def [symmetric])
qed

lemma resume_value:
  assumes l: "length data = Suc k" and m: "m \<le> k" and st: "pstate (parser x) = s_header_value" and ok: "perrno (parser x) = CHPE_OK"
    and "header_field_mark x = None"
    and "run cb wild data (Inr (data ! k, k, x\<lparr>header_value_mark := Some k, owner := on_value (slice data m (k - m)) (owner x)\<rparr>)) = Some r"
    and "perrno (parser (snd r)) = CHPE_OK"
  shows "run cb wild data (Inr (data ! k, k, x\<lparr>header_value_mark := Some m\<rparr>)) = Some r"
proof -
  define c where "c = data ! k"
  define X1 X2 where "X1 x = x\<lparr>header_value_mark := Some m\<rparr>"
    and "X2 x = x\<lparr>header_value_mark := Some k, owner := on_value (slice data m (k - m)) (owner x)\<rparr>" for x :: "'h exec"
  have move: "on_parser f (X1 x) = X1 (on_parser f x)" "on_parser f (X2 x) = X2 (on_parser f x)"
      "(X1 x)\<lparr>nread_local := n\<rparr> = X1 (x\<lparr>nread_local := n\<rparr>)" "(X2 x)\<lparr>nread_local := n\<rparr> = X2 (x\<lparr>nread_local := n\<rparr>)"
      "parser (X1 x) = parser x" "parser (X2 x) = parser x" "nread_local (X1 x) = nread_local x" "nread_local (X2 x) = nread_local x"
      "header_field_mark (X1 x) = header_field_mark x" "header_field_mark (X2 x) = header_field_mark x" for f n x
    by (simp_all add: X1_def X2_def on_parser_def)
  have f: "finish_data cb data (X1 x) = finish_data cb data (X2 x)" if "perrno (parser x) = CHPE_OK" "header_field_mark x = None" for x
    using flush_value [where K = "\<lambda>x. url_callback cb data (length data) (length data) (body_callback cb data (length data) (length data)
           (\<lambda>x. Return (length data) (save_nread x))) x" and x = x and data = data, OF m] m l that
    by (simp add: finish_data_def field_callback_def data_callback_def [where mark = header_field_mark] Let_def move) (simp add: X1_def X2_def)
  have g: "value_callback cb data k er K (X1 x) = value_callback cb data k er K (X2 x)"
    if "perrno (parser x) = CHPE_OK" for x er K
    unfolding X1_def X2_def by (rule flush_value) (use m that in simp_all)
  obtain hs ps where v: "value_char c (header_state (parser x)) (parser x) = (hs, ps)" by fastforce
  have e: "ps = Some ps' \<Longrightarrow> perrno ps' = CHPE_OK" for ps' using value_char_errno [of c] v ok by auto
  have "loop_step cb wild data (c, k, X1 x) = loop_step cb wild data (c, k, X2 x)
      \<or> (\<exists>p y. loop_step cb wild data (c, k, X2 x) = Inl (p, at_error y))"
    using ok assms(5) e
    by (auto simp: loop_step_def state_case_def move st header_value_last [OF l c_def [symmetric]] count_header_def loop_head_def l
        set_hstate_def fail_def Let_def f g v split: option.split)
  moreover have "\<nexists>p y. loop_step cb wild data (c, k, X2 x) = Inl (p, at_error y)"
    using assms(6,7) by (auto simp: run_Inr c_def [symmetric] X2_def [symmetric])
  ultimately show ?thesis using assms(6) by (simp add: run_Inr c_def [symmetric] X1_def [symmetric] X2_def [symmetric])
qed

lemma resume_body:
  assumes l: "length data = Suc k" and m: "m \<le> k" and ok: "perrno (parser x) = CHPE_OK"
    and st: "pstate (parser x) \<in> {s_body_identity, s_body_identity_eof, s_chunk_data, s_chunk_data_almost_done}"
    and other: "header_field_mark x = None" "header_value_mark x = None" "url_mark x = None"
    and "content_length (parser x) = 0 \<longrightarrow> pstate (parser x) \<noteq> s_body_identity \<and> pstate (parser x) \<noteq> s_chunk_data"
    and "run cb wild data (Inr (data ! k, k, x\<lparr>owner := on_body (slice data m (k - m)) (owner x), body_mark := None\<rparr>)) = Some r"
    and "perrno (parser (snd r)) = CHPE_OK"
  shows "run cb wild data (Inr (data ! k, k, x\<lparr>body_mark := Some m\<rparr>)) = Some r"
proof -
  define c where "c = data ! k"
  define X1 X2 X3 where "X1 x = x\<lparr>body_mark := Some m\<rparr>"
    and "X2 x = x\<lparr>body_mark := Some k, owner := on_body (slice data m (k - m)) (owner x)\<rparr>"
    and "X3 x = x\<lparr>owner := on_body (slice data m (k - m)) (owner x), body_mark := None\<rparr>" for x :: "'h exec"
  have move: "on_parser f (X1 x) = X1 (on_parser f x)" "on_parser f (X2 x) = X2 (on_parser f x)" "on_parser f (X3 x) = X3 (on_parser f x)"
      "(X1 x)\<lparr>nread_local := n\<rparr> = X1 (x\<lparr>nread_local := n\<rparr>)" "(X3 x)\<lparr>nread_local := n\<rparr> = X3 (x\<lparr>nread_local := n\<rparr>)"
      "(X1 x)\<lparr>body_mark := mark_at k (body_mark (X1 x))\<rparr> = X1 x" "(X3 x)\<lparr>body_mark := mark_at k (body_mark (X3 x))\<rparr> = X2 x"
      "parser (X1 x) = parser x" "parser (X2 x) = parser x" "parser (X3 x) = parser x" "nread_local (X1 x) = nread_local x" "nread_local (X3 x) = nread_local x"
      "header_field_mark (X1 x) = header_field_mark x" "header_field_mark (X2 x) = header_field_mark x"
      "header_value_mark (X1 x) = header_value_mark x" "header_value_mark (X2 x) = header_value_mark x"
      "url_mark (X1 x) = url_mark x" "url_mark (X2 x) = url_mark x" for f n x
    by (simp_all add: X1_def X2_def X3_def on_parser_def mark_at_def)
  have g: "body_callback cb data to er K (X1 x) = body_callback cb data to er K (X2 x)" if "perrno (parser x) = CHPE_OK" "k \<le> to" for x to er K
    unfolding X1_def X2_def by (rule flush_body) (use m that in simp_all)
  have e: "body_callback cb data k er K (X1 x) = body_callback cb data k er K (X3 x)" if "perrno (parser x) = CHPE_OK" for x er K
    using that by (simp add: X1_def X3_def body_callback_def data_callback_def notify_def call_def body Let_def)
  have f: "finish_data cb data (X1 x) = finish_data cb data (X2 x)"
    if "perrno (parser x) = CHPE_OK" "header_field_mark x = None" "header_value_mark x = None" "url_mark x = None" for x
    using g [of x "length data"] that l
    by (simp add: finish_data_def field_callback_def value_callback_def url_callback_def data_callback_def [where mark = header_field_mark]
        data_callback_def [where mark = header_value_mark] data_callback_def [where mark = url_mark] Let_def move)
  define d :: "http_parser \<Rightarrow> http_parser" where "d = (\<lambda>ps. ps\<lparr>content_length := content_length ps - 1\<rparr>)"
  have t: "to_read data k (X1 x) = 1" "to_read data k (X3 x) = 1" if "content_length (parser x) \<noteq> 0"
  proof -
    have "unat (content_length (parser x)) \<noteq> 0" using that by (simp add: unat_eq_zero)
    then show "to_read data k (X1 x) = 1" "to_read data k (X3 x) = 1"
      by (auto simp: to_read_def l min_def word_le_nat_alt word_unat_eq_iff move)
  qed
  have b: "mark_body data k (X1 x) = X1 (on_parser d x)" "mark_body data k (X3 x) = X2 (on_parser d x)"
    if "content_length (parser x) \<noteq> 0"
    using t [OF that] by (simp_all add: mark_body_def move d_def)
  have end_same: "loop_head cb data (Suc k) (X1 (on_parser f x)) = loop_head cb data (Suc k) (X2 (on_parser f x))"
    if "perrno (f (parser x)) = CHPE_OK" for f
    using f [of "on_parser f x"] that other by (simp add: loop_head_def l)
  have dp: "perrno (d ps) = perrno ps" "pstate (d ps) = pstate ps" for ps by (simp_all add: d_def)
  have state: "loop_step cb wild data (c, k, y) = (case S of Break p x \<Rightarrow> loop_head cb data (Suc p) x | Reexecute ch p x \<Rightarrow> Inr (ch, p, x)
      | Return n x \<Rightarrow> Inl (n, x) | Goto_error p x \<Rightarrow> Inl (p, at_error x))" if "state_case cb wild data c k y = S" for y S
    using that by (simp add: loop_step_def)
  have "loop_step cb wild data (c, k, X1 x) = loop_step cb wild data (c, k, X3 x)
      \<or> (\<exists>p y. loop_step cb wild data (c, k, X3 x) = Inl (p, at_error y))"
  proof (cases "pstate (parser x) = s_body_identity \<or> pstate (parser x) = s_chunk_data")
    case True
    then have n: "content_length (parser x) \<noteq> 0" using assms(8) by auto
    note g = g [of "on_parser (\<lambda>ps. (d ps)\<lparr>pstate := s_message_done\<rparr>) x" "k + 1"]
    have o: "on_parser g (on_parser f x) = on_parser (\<lambda>ps. g (f ps)) x" for f g by (simp add: on_parser_def)
    have c0: "content_length (parser (X1 (on_parser d x))) = content_length (parser (X2 (on_parser d x)))" by (simp add: move)
    from True show ?thesis
    proof
      assume s: "pstate (parser x) = s_body_identity"
      have "state_case cb wild data c k (X1 x) = body_identity cb data c k (X1 x)" "state_case cb wild data c k (X3 x) = body_identity cb data c k (X3 x)"
        using s by (simp_all add: state_case_def move)
      moreover have "body_identity cb data c k (X1 x) = body_identity cb data c k (X3 x)
          \<or> (body_identity cb data c k (X1 x) = Break k (X1 (on_parser d x)) \<and> body_identity cb data c k (X3 x) = Break k (X2 (on_parser d x)))"
        using g ok n by (simp add: body_identity_def t b Let_def set_state_def move o dp)
      ultimately show ?thesis using end_same [of d] ok by (auto simp: loop_step_def dp)
    next
      assume s: "pstate (parser x) = s_chunk_data"
      have "state_case cb wild data c k (X1 x) = chunk_data data k (X1 x)" "state_case cb wild data c k (X3 x) = chunk_data data k (X3 x)"
        using s by (simp_all add: state_case_def move)
      then show ?thesis using end_same [of d] end_same [of "\<lambda>ps. (d ps)\<lparr>pstate := s_chunk_data_almost_done\<rparr>"] ok n
        by (auto simp: loop_step_def chunk_data_def t b Let_def set_state_def move o dp)
    qed
  next
    case False
    then consider "pstate (parser x) = s_body_identity_eof" | "pstate (parser x) = s_chunk_data_almost_done" using st by blast
    then show ?thesis
    proof cases
      case 1
      have i: "on_parser (\<lambda>ps. ps) x = x" by (simp add: on_parser_def)
      show ?thesis using 1 end_same [of "\<lambda>ps. ps", unfolded i] ok by (simp add: loop_step_def state_case_def move body_identity_eof_def l)
    next
      case 2
      then show ?thesis using e [of "set_state s_chunk_data_done x"] ok
        by (auto simp: loop_step_def state_case_def move chunk_data_almost_done_def strict_check_def fail_def set_state_def)
    qed
  qed
  moreover have "\<nexists>p y. loop_step cb wild data (c, k, X3 x) = Inl (p, at_error y)"
    using assms(9,10) by (auto simp: run_Inr c_def [symmetric] X3_def [symmetric])
  ultimately show ?thesis using assms(9) by (simp add: run_Inr c_def [symmetric] X1_def [symmetric] X3_def [symmetric])
qed

end

section \<open>The boundary\<close>

definition counted :: "'h exec \<Rightarrow> 'h exec" where
  "counted x = (if PARSING_HEADER (pstate (parser x)) then x\<lparr>nread_local := nread_local x + 1\<rparr> else x)"

definition overflows :: "'h exec \<Rightarrow> bool" where
  "overflows x \<longleftrightarrow> PARSING_HEADER (pstate (parser x)) \<and> word_of_nat max_header_size < nread_local x + 1"

lemma loop_head_char:
  "p < length data \<Longrightarrow>
   loop_head cb data p x =
     (if overflows x then Inl (p, at_error (set_errno CHPE_HEADER_OVERFLOW (counted x))) else Inr (data ! p, p, counted x))"
  by (simp add: loop_head_def count_header_def overflows_def counted_def fail_def Let_def)

text \<open>The marks that may be set at an offset, by state.\<close>

definition marks_ok :: "nat \<Rightarrow> 'h exec \<Rightarrow> bool" where
  "marks_ok k x \<longleftrightarrow>
     (case header_field_mark x of None \<Rightarrow> pstate (parser x) \<noteq> s_header_field | Some m \<Rightarrow> m \<le> k \<and> pstate (parser x) = s_header_field)
     \<and> (case header_value_mark x of None \<Rightarrow> pstate (parser x) \<noteq> s_header_value | Some m \<Rightarrow> m \<le> k \<and> pstate (parser x) = s_header_value)
     \<and> (case url_mark x of None \<Rightarrow> \<not> in_url (pstate (parser x)) | Some m \<Rightarrow> m \<le> k \<and> in_url (pstate (parser x)))
     \<and> (case body_mark x of None \<Rightarrow> True | Some m \<Rightarrow> m \<le> k
          \<and> pstate (parser x) \<in> {s_body_identity, s_body_identity_eof, s_chunk_data, s_chunk_data_almost_done})"

lemma slice_front [simp]: "slice (a @ b) m (length a - m) = slice a m (length a - m)"
  by (cases "m \<le> length a") (simp_all add: slice_def)

context collecting_callbacks begin

lemma resume_shifted:
  assumes k: "k = length a" and "shifted k x (start_exec s)" and "perrno (fst s) = CHPE_OK" and "steady (fst s)"
    and "http_parser_execute cb wild [c] s = Some (n, s2)" and "perrno (fst s2) = CHPE_OK"
  shows "\<not> overflows x" "\<exists>x'. run cb wild (a @ [c]) (Inr (c, k, counted x)) = Some (k + n, x') \<and> (parser x', owner x') = s2"
proof -
  define z where "z = start_exec s"
  obtain y where y: "run cb wild [c] (loop_head cb [c] 0 z) = Some (n, y)" "s2 = (parser y, owner y)"
    using assms(3,5) by (auto simp: http_parser_execute_def z_def)
  then have "\<not> overflows z" using assms(6) by (auto simp: loop_head_char)
  moreover have "pstate (parser x) = pstate (parser z)" "nread_local x = nread_local z"
    using assms(2) by (simp_all add: shifted_def same_parser_iff z_def [symmetric])
  moreover have "parser z = fst s" by (simp add: z_def start_exec_def split: prod.split)
  ultimately show "\<not> overflows x" by (simp add: overflows_def)
  have rz: "run cb wild [c] (Inr (c, 0, counted z)) = Some (n, y)" using y \<open>\<not> overflows z\<close> by (simp add: loop_head_char)
  have sz: "shifted k (counted x) (counted z)"
    using assms(2) by (simp add: shifted_def same_parser_iff counted_def z_def [symmetric])
  have "steady (parser (counted z))" using assms(4) \<open>parser z = fst s\<close> by (simp add: counted_def)
  from run_shift [OF rz k refl sz this] have "ends_as (run cb wild (a @ [c]) (Inr (c, k, counted x))) (k + n) y"
    using assms(6) y(2) by simp
  then show "\<exists>x'. run cb wild (a @ [c]) (Inr (c, k, counted x)) = Some (k + n, x') \<and> (parser x', owner x') = s2"
    using y(2) by (auto simp: ends_as_def)
qed

lemma resume:
  assumes k: "k = length a" and marks: "marks_ok k x" and ok: "perrno (parser x) = CHPE_OK" and st: "steady (parser x)"
    and fin: "finish_data cb a x = Return k y"
    and ex: "http_parser_execute cb wild [c] (parser y, owner y) = Some (n, s2)" "perrno (fst s2) = CHPE_OK"
  shows "\<exists>x'. run cb wild (a @ [c]) (loop_head cb (a @ [c]) k x) = Some (k + n, x') \<and> (parser x', owner x') = s2"
proof -
  have l: "length (a @ [c]) = Suc k" "(a @ [c]) ! k = c" using k by simp_all
  have url: "url_mark x = None" using marks st by (auto simp: marks_ok_def steady_def split: option.splits)
  have head: "loop_head cb (a @ [c]) k x = (if overflows x then Inl (k, at_error (set_errno CHPE_HEADER_OVERFLOW (counted x))) else Inr (c, k, counted x))"
    using loop_head_char [of k "a @ [c]" cb x] l by simp
  note fin_simps = finish_data_def field_callback_def value_callback_def url_callback_def body_callback_def data_callback_def Let_def
    notify_def call_def field "value" body ok k [symmetric]
  have sf: "slice (a @ [c]) m (k - m) = slice a m (k - m)" for m by (simp add: k)
  consider (none) "header_field_mark x = None" "header_value_mark x = None" "body_mark x = None"
    | (field) m where "header_field_mark x = Some m" "header_value_mark x = None" "body_mark x = None" "m \<le> k" "pstate (parser x) = s_header_field"
    | (val) m where "header_field_mark x = None" "header_value_mark x = Some m" "body_mark x = None" "m \<le> k" "pstate (parser x) = s_header_value"
    | (body) m where "header_field_mark x = None" "header_value_mark x = None" "body_mark x = Some m" "m \<le> k"
        "pstate (parser x) \<in> {s_body_identity, s_body_identity_eof, s_chunk_data, s_chunk_data_almost_done}"
    using marks by (cases "header_field_mark x"; cases "header_value_mark x"; cases "body_mark x") (auto simp: marks_ok_def)
  then show ?thesis
  proof cases
    case none
    then have y: "y = save_nread x" using fin url by (simp add: fin_simps)
    have "shifted k x (start_exec (parser y, owner y))"
      using marks url none by (simp add: y shifted_def start_exec_def same_parser_iff save_nread_def marks_ok_def)
    from resume_shifted [OF k this _ _ ex] show ?thesis using ok st by (simp add: head y save_nread_def steady_def)
  next
    case field
    define x1 where "x1 = x\<lparr>header_field_mark := Some k, owner := on_field (slice (a @ [c]) m (k - m)) (owner x)\<rparr>"
    have y: "parser y = (parser x)\<lparr>nread := nread_local x\<rparr>" "owner y = owner x1"
      using fin url field by (auto simp: fin_simps x1_def save_nread_def on_parser_def sf)
    have "shifted k x1 (start_exec (parser y, owner y))"
      using marks url field by (simp add: y x1_def shifted_def start_exec_def same_parser_iff marks_ok_def in_url_def)
    note r = resume_shifted [OF k this _ _ ex]
    obtain x' where x': "run cb wild (a @ [c]) (Inr (c, k, counted x1)) = Some (k + n, x')" "(parser x', owner x') = s2" "\<not> overflows x1"
      using r ok st by (auto simp: y steady_def)
    then have "\<not> overflows x" by (simp add: overflows_def x1_def)
    have c: "counted x1 = (counted x)\<lparr>header_field_mark := Some k, owner := on_field (slice (a @ [c]) m (k - m)) (owner (counted x))\<rparr>"
      "counted x = (counted x)\<lparr>header_field_mark := Some m\<rparr>" "parser (counted x) = parser x"
      using field(1) by (simp_all add: counted_def x1_def)
    have "run cb wild (a @ [c]) (Inr ((a @ [c]) ! k, k, (counted x)\<lparr>header_field_mark := Some m\<rparr>)) = Some (k + n, x')"
      by (rule resume_field [OF l(1) field(4)]) (use field(5) ok x' c(1,3) l ex(2) in auto)
    then show ?thesis using head \<open>\<not> overflows x\<close> c(2) l(2) x'(2) by simp
  next
    case val
    define x1 where "x1 = x\<lparr>header_value_mark := Some k, owner := on_value (slice (a @ [c]) m (k - m)) (owner x)\<rparr>"
    have y: "parser y = (parser x)\<lparr>nread := nread_local x\<rparr>" "owner y = owner x1"
      using fin url val by (auto simp: fin_simps x1_def save_nread_def on_parser_def sf)
    have "shifted k x1 (start_exec (parser y, owner y))"
      using marks url val by (simp add: y x1_def shifted_def start_exec_def same_parser_iff marks_ok_def in_url_def)
    note r = resume_shifted [OF k this _ _ ex]
    obtain x' where x': "run cb wild (a @ [c]) (Inr (c, k, counted x1)) = Some (k + n, x')" "(parser x', owner x') = s2" "\<not> overflows x1"
      using r ok st by (auto simp: y steady_def)
    then have "\<not> overflows x" by (simp add: overflows_def x1_def)
    have c: "counted x1 = (counted x)\<lparr>header_value_mark := Some k, owner := on_value (slice (a @ [c]) m (k - m)) (owner (counted x))\<rparr>"
      "counted x = (counted x)\<lparr>header_value_mark := Some m\<rparr>" "parser (counted x) = parser x" "header_field_mark (counted x) = None"
      using val(1,2) by (simp_all add: counted_def x1_def)
    have "run cb wild (a @ [c]) (Inr ((a @ [c]) ! k, k, (counted x)\<lparr>header_value_mark := Some m\<rparr>)) = Some (k + n, x')"
      by (rule resume_value [OF l(1) val(4)]) (use val(5) ok x' c(1,3,4) l ex(2) in auto)
    then show ?thesis using head \<open>\<not> overflows x\<close> c(2) l(2) x'(2) by simp
  next
    case body
    define x1 where "x1 = x\<lparr>owner := on_body (slice (a @ [c]) m (k - m)) (owner x), body_mark := None\<rparr>"
    have y: "parser y = (parser x)\<lparr>nread := nread_local x\<rparr>" "owner y = owner x1"
      using fin url body by (auto simp: fin_simps x1_def save_nread_def on_parser_def sf)
    have "shifted k x1 (start_exec (parser y, owner y))"
      using marks url body by (auto simp: y x1_def shifted_def start_exec_def same_parser_iff marks_ok_def in_url_def)
    note r = resume_shifted [OF k this _ _ ex]
    obtain x' where x': "run cb wild (a @ [c]) (Inr (c, k, counted x1)) = Some (k + n, x')" "(parser x', owner x') = s2" "\<not> overflows x1"
      using r ok st by (auto simp: y steady_def)
    then have "\<not> overflows x" by (simp add: overflows_def x1_def)
    have c: "counted x1 = (counted x)\<lparr>owner := on_body (slice (a @ [c]) m (k - m)) (owner (counted x)), body_mark := None\<rparr>"
      "counted x = (counted x)\<lparr>body_mark := Some m\<rparr>" "parser (counted x) = parser x" "header_field_mark (counted x) = None"
      "header_value_mark (counted x) = None" "url_mark (counted x) = None"
      using body(1-3) url by (simp_all add: counted_def x1_def)
    have "run cb wild (a @ [c]) (Inr ((a @ [c]) ! k, k, (counted x)\<lparr>body_mark := Some m\<rparr>)) = Some (k + n, x')"
      by (rule resume_body [OF l(1) body(4)]) (use body(5) ok x' c(1,3-6) l ex(2) st in \<open>auto simp: steady_def\<close>)
    then show ?thesis using head \<open>\<not> overflows x\<close> c(2) l(2) x'(2) by simp
  qed
qed

end

end
