(* ===== verification/Http_Keeps.thy ===== *)
theory Http_Keeps
  imports Http_Resume
begin

text \<open>
  What the cases of the loop keep: which marks are set in which state, that the offset never moves
  back and stays inside the data, and that a body that is read is not empty.
\<close>

section \<open>Scans over the front of the data\<close>

lemma fast_forward_eq:
  "length data \<le> max_header_size \<Longrightarrow> p < length data \<Longrightarrow>
   fast_forward data p = p + length (takeWhile (\<lambda>c. TOKEN c \<noteq> NUL) (drop (Suc p) data))"
  by (simp add: fast_forward_def slice_def Let_def)

lemma fast_forward_front:
  assumes "length (a @ [c]) \<le> max_header_size" and "p < length a"
  shows "fast_forward (a @ [c]) p =
    (if fast_forward a p = length a - 1 \<and> TOKEN c \<noteq> NUL then length a else fast_forward a p)"
    and "fast_forward a p < length a"
proof -
  define xs where "xs = drop (Suc p) a"
  have l: "length xs = length a - Suc p" by (simp add: xs_def)
  have f: "fast_forward a p = p + length (takeWhile (\<lambda>c. TOKEN c \<noteq> NUL) xs)"
    using assms by (simp add: fast_forward_eq xs_def)
  have g: "fast_forward (a @ [c]) p = p + length (takeWhile (\<lambda>c. TOKEN c \<noteq> NUL) (xs @ [c]))"
    using assms by (simp add: fast_forward_eq xs_def)
  have w: "length (takeWhile (\<lambda>c. TOKEN c \<noteq> NUL) xs) \<le> length xs" by (rule length_takeWhile_le)
  then show "fast_forward a p < length a" using f l assms(2) by simp
  have t: "length (takeWhile (\<lambda>c. TOKEN c \<noteq> NUL) (xs @ [c])) =
      (if length (takeWhile (\<lambda>c. TOKEN c \<noteq> NUL) xs) = length xs \<and> TOKEN c \<noteq> NUL then Suc (length xs)
       else length (takeWhile (\<lambda>c. TOKEN c \<noteq> NUL) xs))"
    by (induction xs) auto
  show "fast_forward (a @ [c]) p = (if fast_forward a p = length a - 1 \<and> TOKEN c \<noteq> NUL then length a else fast_forward a p)"
    unfolding f g t l using assms(2) by auto
qed

lemma field_loop_front:
  assumes "length (a @ [c]) \<le> max_header_size" and "p \<le> length a" and "field_loop a p ch ps = (q, ch', ps')"
  shows "q \<le> length a \<and>
    (if q < length a then field_loop (a @ [c]) p ch ps = (q, ch', ps')
     else \<exists>j ch1 ch2 qs. field_loop (a @ [c]) p ch ps = (j, ch1, qs) \<and> field_loop (a @ [c]) (length a) ch' ps' = (j, ch2, qs)
          \<and> (j = length a \<longrightarrow> ch1 = ch2))"
  using assms(2,3)
proof (induction "length a - p" arbitrary: p ch ps rule: less_induct)
  case less
  define D where "D = a @ [c]"
  show ?case
  proof (cases "p = length a")
    case True
    then have "(q, ch', ps') = (length a, ch, ps)" using less.prems(2) by (subst (asm) field_loop.simps) simp
    then show ?thesis using True by (cases "field_loop D p ch ps") (auto simp: D_def)
  next
    case False
    then have p: "p < length a" using less.prems by simp
    then have ap: "D ! p = a ! p" "p < length D" by (simp_all add: D_def nth_append)
    consider "TOKEN (a ! p) = NUL" | "TOKEN (a ! p) \<noteq> NUL" "header_state ps \<noteq> h_general" | "TOKEN (a ! p) \<noteq> NUL" "header_state ps = h_general"
      by blast
    then show ?thesis
    proof cases
      case 1
      then have "field_loop a p ch ps = (p, a ! p, ps)" using p by (subst field_loop.simps) (simp add: Let_def)
      then have "q = p" "ch' = a ! p" "ps' = ps" using less.prems(2) by simp_all
      moreover have "field_loop D p ch ps = (p, a ! p, ps)" using 1 ap by (subst field_loop.simps) (simp add: Let_def)
      ultimately show ?thesis using p by (auto simp: D_def)
    next
      case 2
      then have "field_loop a (Suc p) (a ! p) (field_char (a ! p) (TOKEN (a ! p)) ps) = (q, ch', ps')"
        using less.prems(2) p by (subst (asm) field_loop.simps) (simp add: Let_def)
      from less.hyps [OF _ _ this] p
      have ih: "q \<le> length a \<and>
        (if q < length a then field_loop D (Suc p) (a ! p) (field_char (a ! p) (TOKEN (a ! p)) ps) = (q, ch', ps')
         else \<exists>j ch1 ch2 qs. field_loop D (Suc p) (a ! p) (field_char (a ! p) (TOKEN (a ! p)) ps) = (j, ch1, qs)
            \<and> field_loop D (length a) ch' ps' = (j, ch2, qs) \<and> (j = length a \<longrightarrow> ch1 = ch2))"
        by (simp add: D_def)
      have e: "field_loop D p ch ps = field_loop D (Suc p) (a ! p) (field_char (a ! p) (TOKEN (a ! p)) ps)"
        using 2 ap by (subst field_loop.simps) (simp add: Let_def)
      show ?thesis unfolding D_def [symmetric] e by (rule ih)
    next
      case 3
      define f where "f = fast_forward a p"
      have f: "p \<le> f" "f < length a" using fast_forward_front(2) [OF assms(1) p] by (simp_all add: f_def fast_forward_def Let_def)
      have a: "field_loop a (Suc f) (a ! p) ps = (q, ch', ps')"
        using less.prems(2) p 3 by (subst (asm) field_loop.simps) (simp add: Let_def f_def)
      have d: "field_loop D p ch ps = field_loop D (Suc (fast_forward D p)) (a ! p) ps"
        using 3 ap by (subst field_loop.simps) (simp add: Let_def)
      show ?thesis
      proof (cases "f = length a - 1 \<and> TOKEN c \<noteq> NUL")
        case True
        then have ff: "fast_forward D p = length a" using fast_forward_front(1) [OF assms(1) p] by (simp add: D_def f_def)
        have "Suc f = length a" using True f by simp
        then have q: "(q, ch', ps') = (length a, a ! p, ps)" using a field_loop_end [of a] by simp
        have "field_loop D (length a) ch' ps' = (Suc (length a), c, ps)"
          using True q 3 field_loop_last [of D "length a" ch' ps'] by (simp add: D_def)
        moreover have "field_loop D p ch ps = (Suc (length a), a ! p, ps)" using d ff field_loop_end [of D] by (simp add: D_def)
        ultimately show ?thesis using q by (simp add: D_def)
      next
        case False
        then have "fast_forward D p = f" using fast_forward_front(1) [OF assms(1) p] by (auto simp: D_def f_def)
        then show ?thesis using less.hyps [OF _ _ a] f d unfolding D_def by simp
      qed
    qed
  qed
qed

lemma general_scan_front:
  assumes "p \<le> length a"
  shows "general_scan (a @ [c]) l (Suc (length a)) p =
     (case general_scan a l (length a) p of
        Inl q \<Rightarrow> Inl q
      | Inr q \<Rightarrow> if q = length a then general_scan (a @ [c]) l (Suc (length a)) (length a) else Inr q)"
  using assms
proof (induction "length a - p" arbitrary: p rule: less_induct)
  case less
  show ?case
  proof (cases "p = length a")
    case True
    then show ?thesis by (subst (2) general_scan.simps) simp
  next
    case False
    then have p: "p < length a" using less.prems by simp
    then have ap: "(a @ [c]) ! p = a ! p" by (simp add: nth_append)
    show ?thesis
      by (subst general_scan.simps, subst (2) general_scan.simps) (use p less.hyps [of "Suc p"] in \<open>auto simp: ap\<close>)
  qed
qed

lemma general_scan_bound: "p \<le> pe \<Longrightarrow> general_scan data l pe p = Inr q \<Longrightarrow> q \<le> pe"
  by (induction data l pe p rule: general_scan.induct) (subst (asm) general_scan.simps, auto split: if_splits)

lemma value_loop_front:
  assumes "length (a @ [c]) \<le> max_header_size" and "p \<le> length a" and "value_loop a l p hs ps = (e, hs', ps')"
  shows "if e = At_end then value_loop (a @ [c]) l p hs ps = value_loop (a @ [c]) l (length a) hs' ps'
    else value_loop (a @ [c]) l p hs ps = (e, hs', ps')"
  using assms(2,3)
proof (induction "length a - p" arbitrary: p hs ps rule: less_induct)
  case less
  define D where "D = a @ [c]"
  show ?case
  proof (cases "p = length a")
    case True
    then show ?thesis using less.prems(2) value_loop_end [of a] by auto
  next
    case False
    then have p: "p < length a" using less.prems by simp
    then have ap: "D ! p = a ! p" "p < length D" by (simp_all add: D_def nth_append)
    define ch where "ch = a ! p"
    have pe: "p + min (length a - p) max_header_size = length a" "p + min (length D - p) max_header_size = Suc (length a)"
      using assms(1) p by (simp_all add: D_def)
    have av: "value_loop a l p hs ps = (if ch = cr then (At_cr p, hs, ps) else if ch = lf then (At_lf p, hs, ps)
           else if \<not> l \<and> \<not> IS_HEADER_CHAR ch then (Bad_value CHPE_INVALID_HEADER_TOKEN p, hs, ps)
           else if hs = h_general
           then (case general_scan a l (length a) p of
                   Inl q \<Rightarrow> (Bad_value CHPE_INVALID_HEADER_TOKEN q, hs, ps)
                 | Inr q \<Rightarrow> value_loop a l (Suc (if q = length a then q - 1 else q)) hs ps)
           else (case value_char ch hs ps of
                   (hs, None) \<Rightarrow> (Bad_value CHPE_INVALID_CONTENT_LENGTH p, hs, ps)
                 | (hs, Some ps) \<Rightarrow> value_loop a l (Suc p) hs ps))"
      using p by (subst value_loop.simps) (simp add: Let_def ch_def pe)
    have dv: "value_loop D l p hs ps = (if ch = cr then (At_cr p, hs, ps) else if ch = lf then (At_lf p, hs, ps)
           else if \<not> l \<and> \<not> IS_HEADER_CHAR ch then (Bad_value CHPE_INVALID_HEADER_TOKEN p, hs, ps)
           else if hs = h_general
           then (case general_scan D l (Suc (length a)) p of
                   Inl q \<Rightarrow> (Bad_value CHPE_INVALID_HEADER_TOKEN q, hs, ps)
                 | Inr q \<Rightarrow> value_loop D l (Suc (if q = length D then q - 1 else q)) hs ps)
           else (case value_char ch hs ps of
                   (hs, None) \<Rightarrow> (Bad_value CHPE_INVALID_CONTENT_LENGTH p, hs, ps)
                 | (hs, Some ps) \<Rightarrow> value_loop D l (Suc p) hs ps))"
      using ap by (subst value_loop.simps) (simp add: Let_def ch_def pe)
    consider "ch = cr \<or> ch = lf \<or> (\<not> l \<and> \<not> IS_HEADER_CHAR ch)" | "\<not> (ch = cr \<or> ch = lf \<or> (\<not> l \<and> \<not> IS_HEADER_CHAR ch))" "hs \<noteq> h_general"
      | "\<not> (ch = cr \<or> ch = lf \<or> (\<not> l \<and> \<not> IS_HEADER_CHAR ch))" "hs = h_general" by blast
    then show ?thesis
    proof cases
      case 1
      then have "value_loop a l p hs ps = value_loop D l p hs ps \<and> fst (value_loop a l p hs ps) \<noteq> At_end"
        unfolding av dv by auto
      then show ?thesis using less.prems(2) by (simp add: D_def)
    next
      case 2
      obtain hs1 r where v: "value_char ch hs ps = (hs1, r)" by fastforce
      show ?thesis
      proof (cases r)
        case None
        then have "value_loop a l p hs ps = value_loop D l p hs ps \<and> fst (value_loop a l p hs ps) \<noteq> At_end"
          unfolding av dv using 2 v by auto
        then show ?thesis using less.prems(2) by (simp add: D_def)
      next
        case (Some ps1)
        then have "value_loop a l p hs ps = value_loop a l (Suc p) hs1 ps1" "value_loop D l p hs ps = value_loop D l (Suc p) hs1 ps1"
          unfolding av dv using 2 v by auto
        then have "value_loop a l (Suc p) hs1 ps1 = (e, hs', ps')" "value_loop D l p hs ps = value_loop D l (Suc p) hs1 ps1"
          using less.prems(2) by simp_all
        then show ?thesis using less.hyps [of "Suc p" hs1 ps1] p by (simp add: D_def)
      qed
    next
      case 3
      show ?thesis
      proof (cases "general_scan a l (length a) p")
        case (Inl q)
        then have "value_loop a l p hs ps = value_loop D l p hs ps \<and> fst (value_loop a l p hs ps) \<noteq> At_end"
          unfolding av dv using 3 general_scan_front [OF less.prems(1), of c l] by (auto simp: D_def)
        then show ?thesis using less.prems(2) by (simp add: D_def)
      next
        case (Inr q)
        have q: "p \<le> q" "q \<le> length a"
          using general_scan_first [OF Inr] general_scan_bound [OF _ Inr] 3 p by (auto simp: ch_def)
        show ?thesis
        proof (cases "q = length a")
          case True
          then have "Suc (length a - 1) = length a" "Suc (if q = length a then q - 1 else q) = length a" using p by auto
          then have "value_loop a l p hs ps = (At_end, hs, ps)" unfolding av using 3 Inr value_loop_end [of a l hs ps] by auto
          then have e: "e = At_end" "hs' = hs" "ps' = ps" using less.prems(2) by simp_all
          have s: "general_scan D l (Suc (length a)) p = general_scan D l (Suc (length a)) (length a)"
            using general_scan_front [OF less.prems(1), of c l] Inr True by (simp add: D_def)
          have c: "D ! length a = c" "length D = Suc (length a)" by (simp_all add: D_def)
          have n: "Suc (length a - Suc 0) = length a" using p by simp
          have g: "general_scan D l (Suc (length a)) (length a) = (if c = cr \<or> c = lf then Inr (length a - 1)
              else if \<not> l \<and> \<not> IS_HEADER_CHAR c then Inl (length a) else Inr (Suc (length a)))"
            by (subst general_scan.simps, subst general_scan.simps) (simp add: c)
          have "value_loop D l p hs ps = value_loop D l (length a) hs ps"
            unfolding dv value_loop_last [OF c(2), of l hs ps] using 3 s g value_loop_end [of D l hs ps] n by (auto simp: c Let_def value_loop_last [OF c(2)])
          then show ?thesis using e by (simp add: D_def)
        next
          case False
          then have "value_loop a l p hs ps = value_loop a l (Suc q) hs ps" unfolding av using 3 Inr by auto
          then have "value_loop a l (Suc q) hs ps = (e, hs', ps')" using less.prems(2) by simp
          moreover have "value_loop D l p hs ps = value_loop D l (Suc q) hs ps"
            unfolding dv using 3 general_scan_front [OF less.prems(1), of c l] Inr False q by (auto simp: D_def)
          ultimately show ?thesis using less.hyps [of "Suc q" hs ps] False p q by (simp add: D_def)
        qed
      qed
    qed
  qed
qed

section \<open>The invariant\<close>

definition plain :: "pstate \<Rightarrow> bool" where
  "plain s \<longleftrightarrow> s \<noteq> s_header_field \<and> s \<noteq> s_header_value \<and> \<not> in_url s
     \<and> s \<notin> {s_body_identity, s_body_identity_eof, s_chunk_data, s_chunk_data_almost_done}"

definition unmarked :: "'h exec \<Rightarrow> bool" where
  "unmarked x \<longleftrightarrow> header_field_mark x = None \<and> header_value_mark x = None \<and> url_mark x = None \<and> body_mark x = None"

lemma marks_plain: "plain (pstate (parser x)) \<Longrightarrow> marks_ok k x \<longleftrightarrow> unmarked x"
  by (auto simp: marks_ok_def plain_def unmarked_def split: option.splits)

definition counts :: "http_parser \<Rightarrow> bool" where
  "counts ps \<longleftrightarrow> (content_length ps = 0 \<longrightarrow> pstate ps \<noteq> s_body_identity \<and> pstate ps \<noteq> s_chunk_data)"

definition good :: "nat \<Rightarrow> 'h exec \<Rightarrow> bool" where
  "good k x \<longleftrightarrow> marks_ok k x \<and> perrno (parser x) = CHPE_OK \<and> counts (parser x)"

text \<open>What a case of the loop keeps, from one offset to the next.\<close>

definition keeps :: "nat \<Rightarrow> nat \<Rightarrow> 'h outcome \<Rightarrow> bool" where
  "keeps n p u \<longleftrightarrow>
     (case u of Break q z \<Rightarrow> p \<le> q \<and> q < n \<and> good (Suc q) z | Reexecute ch q z \<Rightarrow> p \<le> q \<and> q < n \<and> good q z | _ \<Rightarrow> True)"

lemma keeps_simps [simp]:
  "keeps n p (fail e q x)" "keeps n p (Return m x)" "keeps n p (Goto_error m x)"
  "keeps n p (Break q z) \<longleftrightarrow> p \<le> q \<and> q < n \<and> good (Suc q) z"
  "keeps n p (Reexecute ch q z) \<longleftrightarrow> p \<le> q \<and> q < n \<and> good q z"
  by (simp_all add: keeps_def fail_def)

lemma good_plain: "plain (pstate (parser x)) \<Longrightarrow> good k x \<longleftrightarrow> unmarked x \<and> perrno (parser x) = CHPE_OK"
  by (auto simp: good_def marks_plain counts_def plain_def)

lemma plain_simps [simp]:
  "plain s_dead" "plain s_start_req" "plain s_req_method" "plain s_req_spaces_before_url" "plain s_req_http_start"
  "plain s_req_http_H" "plain s_req_http_HT" "plain s_req_http_HTT" "plain s_req_http_HTTP" "plain s_req_http_I" "plain s_req_http_IC"
  "plain s_req_http_major" "plain s_req_http_dot" "plain s_req_http_minor" "plain s_req_http_end" "plain s_req_line_almost_done"
  "plain s_header_field_start" "plain s_header_value_discard_ws" "plain s_header_value_discard_ws_almost_done"
  "plain s_header_value_discard_lws" "plain s_header_value_start" "plain s_header_value_lws" "plain s_header_almost_done"
  "plain s_chunk_size_start" "plain s_chunk_size" "plain s_chunk_parameters" "plain s_chunk_size_almost_done"
  "plain s_headers_almost_done" "plain s_headers_done" "plain s_chunk_data_done" "plain s_message_done"
  by (simp_all add: plain_def in_url_def)

lemma unmarked_on_parser [simp]: "unmarked (on_parser f x) = unmarked x" "unmarked (x\<lparr>nread_local := n\<rparr>) = unmarked x"
    "unmarked (x\<lparr>parser := ps\<rparr>) = unmarked x" "unmarked (x\<lparr>parser := ps, owner := h\<rparr>) = unmarked x"
  by (simp_all add: unmarked_def)

lemma keeps_simple:
  assumes "good p x" and "plain (pstate (parser x))" and "p < n"
  shows "keeps n p (req_http_start ch p x)" "plain s \<Longrightarrow> keeps n p (expect c s ch p x)" "plain s \<Longrightarrow> keeps n p (expect_lf s ch p x)"
    "keeps n p (req_http_major ch p x)" "keeps n p (req_http_dot ch p x)" "keeps n p (req_http_minor ch p x)" "keeps n p (req_http_end ch p x)"
    "keeps n p (chunk_size_start ch p x)" "pstate (parser x) = s_chunk_size \<Longrightarrow> keeps n p (chunk_size ch p x)" "keeps n p (chunk_parameters ch p x)"
    "keeps n p (chunk_data_done ch p x)" "keeps n p (header_value_lws ch p x)"
  using assms
  by (auto simp: good_plain req_http_start_def expect_def expect_lf_def strict_check_def req_http_major_def req_http_dot_def
      req_http_minor_def req_http_end_def chunk_size_start_def chunk_size_def chunk_parameters_def chunk_data_done_def
      header_value_lws_def goto_state_def exec_defs Let_def split: hstate.split)

lemma good_start:
  "unmarked x \<Longrightarrow> perrno (parser x) = CHPE_OK \<Longrightarrow> m \<le> k \<Longrightarrow>
   pstate ps = s_header_field \<Longrightarrow> perrno ps = CHPE_OK \<Longrightarrow> good k (x\<lparr>header_field_mark := mark_at m (header_field_mark x), parser := ps\<rparr>)"
  "unmarked x \<Longrightarrow> perrno (parser x) = CHPE_OK \<Longrightarrow> m \<le> k \<Longrightarrow>
   pstate ps = s_header_value \<Longrightarrow> perrno ps = CHPE_OK \<Longrightarrow> good k (x\<lparr>header_value_mark := mark_at m (header_value_mark x), parser := ps\<rparr>)"
  by (auto simp: good_def marks_ok_def unmarked_def mark_at_def counts_def in_url_def)

lemma keeps_field_start:
  assumes "good p x" and "plain (pstate (parser x))" and "p < n"
  shows "keeps n p (header_field_start ch p x)"
  using assms good_start(1) [of x p "Suc p"]
  by (auto simp: good_plain header_field_start_def goto_state_def exec_defs Let_def) (simp_all add: on_parser_def)

lemma keeps_value_start:
  assumes "good p x" and "plain (pstate (parser x))" and "p < n"
  shows "keeps n p (header_value_start data ch p x)"
proof -
  have g: "good (Suc p) (on_parser f (x\<lparr>header_value_mark := mark_at p (header_value_mark x)\<rparr>))"
    if "pstate (f (parser x)) = s_header_value" "perrno (f (parser x)) = CHPE_OK" for f
    using assms that good_start(2) [of x p "Suc p" "f (parser x)"] by (simp add: good_plain on_parser_def)
  have o: "on_parser g (on_parser f x) = on_parser (\<lambda>ps. g (f ps)) x" for f g and x :: "'a exec" by (simp add: on_parser_def)
  show ?thesis using assms
    by (auto simp: good_plain header_value_start_def length_start_def set_hstate_def o Let_def intro!: g split: hstate.split)
qed

lemma keeps_discard_ws:
  assumes "good p x" and "plain (pstate (parser x))" and "p < n" and "pstate (parser x) = s_header_value_discard_ws"
  shows "keeps n p (header_value_discard_ws data ch p x)"
  using assms keeps_value_start [OF assms(1-3)]
  by (auto simp: good_plain header_value_discard_ws_def goto_state_def exec_defs)

lemma keeps_chunk_size_end:
  assumes "good p x" and "plain (pstate (parser x))" and "p < n"
  shows "keeps n p (chunk_size_almost_done ch p x)"
  using assms
  by (auto simp: good_def marks_plain chunk_size_almost_done_def strict_check_def goto_state_def exec_defs Let_def counts_def)
    (auto simp: marks_ok_def unmarked_def in_url_def split: option.splits)

lemma url_state_url: "url_state s ch = s_dead \<or> in_url (url_state s ch)"
  unfolding url_state_def by (cases s) (auto simp: in_url_def)

lemma keeps_url_char:
  assumes "p < n" and "header_field_mark x = None" "header_value_mark x = None" "body_mark x = None" and "url_mark x = Some m" "m \<le> p"
    and "perrno (parser x) = CHPE_OK"
  shows "keeps n p (url_char wild ch p x)"
proof -
  define s' where "s' = url_state (pstate (parser x)) ch"
  have u: "in_url s' \<Longrightarrow> s' \<noteq> s_header_field \<and> s' \<noteq> s_header_value \<and> s' \<noteq> s_body_identity \<and> s' \<noteq> s_chunk_data"
    by (auto simp: in_url_def)
  show ?thesis using assms url_state_url [of "pstate (parser x)" ch] u
    by (auto simp: url_char_def parse_url_char_def Let_def mark_query_def s'_def [symmetric] good_def marks_ok_def counts_def on_parser_def
        split: option.split)
qed

lemma keeps_spaces:
  assumes "good p x" and "plain (pstate (parser x))" and "p < n"
  shows "keeps n p (req_spaces_before_url wild ch p x)"
proof -
  define x1 where "x1 = x\<lparr>url_mark := mark_at p (url_mark x), url_start_mark := mark_at p (url_start_mark x)\<rparr>"
  define x2 where "x2 = (if pmethod (parser x1) = CONNECT then set_state s_req_server_start x1 else x1)"
  have "keeps n p (url_char wild ch p x2)"
    by (rule keeps_url_char [of p n x2 p])
      (use assms in \<open>simp_all add: x2_def x1_def good_plain unmarked_def set_state_def mark_at_def\<close>)
  then show ?thesis using assms
    by (auto simp: req_spaces_before_url_def x1_def [symmetric] x2_def [symmetric] good_def marks_plain Let_def)
qed

lemma good_url:
  "good p x \<Longrightarrow> in_url (pstate (parser x)) \<Longrightarrow>
   \<exists>m\<le>p. url_mark x = Some m \<and> header_field_mark x = None \<and> header_value_mark x = None \<and> body_mark x = None \<and> perrno (parser x) = CHPE_OK"
  by (auto simp: good_def marks_ok_def in_url_def split: option.splits)

lemma keeps_schema:
  assumes "good p x" and "in_url (pstate (parser x))" and "p < n"
  shows "keeps n p (req_schema wild ch p x)"
  using good_url [OF assms(1,2)] keeps_url_char [OF assms(3)] by (auto simp: req_schema_def)

context collecting_callbacks begin

lemma call_marks:
  "header_field_mark (call cb ev x) = header_field_mark x" "header_value_mark (call cb ev x) = header_value_mark x"
  "url_mark (call cb ev x) = url_mark x" "body_mark (call cb ev x) = body_mark x" "unmarked (call cb ev x) = unmarked x"
  by (simp_all add: call_def unmarked_def split: prod.split)

lemma keeps_notify:
  "keeps n p (k (call cb ev x)) \<or> perrno (parser (call cb ev x)) \<noteq> CHPE_OK \<Longrightarrow> keeps n p (notify cb ev er k x)"
  by (auto simp: notify_def Let_def)

lemma keeps_url_callback:
  assumes "url_mark x = Some m" and "header_field_mark x = None" "header_value_mark x = None" "body_mark x = None" and "p < n"
    and "plain (pstate (parser x))"
  shows "keeps n p (url_callback cb data to er (Break p) x)"
proof -
  obtain ps h where c: "cb (On_url (slice data m (to - m))) (parser x, owner x) = (ps, h)" by fastforce
  have "perrno ps = CHPE_OK \<Longrightarrow> ps = parser x" using url [of "slice data m (to - m)" "parser x" "owner x"] c by simp
  then show ?thesis using assms c
    by (auto simp: url_callback_def data_callback_def notify_def call_def Let_def good_plain unmarked_def)
qed

lemma keeps_req_url:
  assumes "good p x" and "in_url (pstate (parser x))" and "p < n"
  shows "keeps n p (req_url cb wild data ch p x)"
proof -
  obtain m where m: "m \<le> p" "url_mark x = Some m" "header_field_mark x = None" "header_value_mark x = None" "body_mark x = None"
      "perrno (parser x) = CHPE_OK"
    using good_url [OF assms(1,2)] by blast
  have "keeps n p (url_callback cb data to er (Break p) (on_parser f x))" if "plain (pstate (f (parser x)))" for to er f
    by (rule keeps_url_callback [of _ m]) (use m assms(3) that in simp_all)
  then show ?thesis using keeps_url_char [OF assms(3) m(3-5,2,1,6)]
    by (simp add: req_url_def set_state_def)
qed

lemma keeps_complete:
  assumes "unmarked x" and "perrno (parser x) = CHPE_OK" and "plain (pstate (parser x))" and "p < n"
  shows "keeps n p (notify cb On_message_complete er (Break p) x)"
proof (rule keeps_notify)
  obtain ps h where c: "cb On_message_complete (parser x, owner x) = (ps, h)" by fastforce
  then have "ps = parser x \<or> ps = (parser x)\<lparr>pstate := s_start_req, qs_point := 0\<rparr>" using complete [of "parser x" "owner x"] by simp
  then have "plain (pstate ps)" "perrno ps = CHPE_OK" using assms by auto
  then show "keeps n p (Break p (call cb On_message_complete x)) \<or> perrno (parser (call cb On_message_complete x)) \<noteq> CHPE_OK"
    using assms c by (simp add: call_def good_plain)
qed

lemma keeps_start_req:
  assumes "good p x" and "plain (pstate (parser x))" and "p < n"
  shows "keeps n p (start_req cb ch p x)"
  using assms
  by (auto simp: start_req_def Let_def good_plain call_marks call_parser intro!: keeps_notify split: option.split)

lemma method_char_keeps: "method_char ch ps = Some qs \<Longrightarrow> perrno qs = perrno ps \<and> (pstate qs = pstate ps \<or> pstate qs = s_req_spaces_before_url)"
  by (auto simp: method_char_def Let_def split: if_splits)

lemma keeps_req_method:
  assumes "good p x" and "plain (pstate (parser x))" and "p < n"
  shows "keeps n p (req_method cb ch p x)"
proof (cases "method_char ch (parser x)")
  case (Some qs)
  from method_char_keeps [OF this] have "plain (pstate qs)" "perrno qs = perrno (parser x)" using assms(2) by auto
  then show ?thesis using assms Some
    by (auto simp: req_method_def good_plain call_marks call_parser intro!: keeps_notify)
qed (simp add: req_method_def)

lemma keeps_headers_almost_done:
  assumes "good p x" and "plain (pstate (parser x))" and "p < n"
  shows "keeps n p (headers_almost_done cb ch p x)"
  using assms keeps_complete [of x p n "p + 1"]
  by (auto simp: headers_almost_done_def strict_check_def Let_def good_plain call_marks call_parser)

lemma keeps_headers_done:
  assumes "good p x" and "plain (pstate (parser x))" and "p < n"
  shows "keeps n p (headers_done cb ch p x)"
proof -
  have c: "keeps n p (notify cb On_message_complete (p + 1) (Break p) (reset_nread x))"
    using assms keeps_complete [of "reset_nread x" p n "p + 1"] by (simp add: good_plain reset_nread_def)
  have r: "keeps n p (notify cb On_message_complete (p + 1) (\<lambda>x. Return (p + 1) (save_nread x)) (reset_nread x))"
    by (rule keeps_notify) simp
  show ?thesis using assms c r
    by (auto simp: headers_done_def strict_check_def Let_def goto_state_def good_plain)
      (auto simp: good_def marks_ok_def counts_def exec_defs in_url_def unmarked_def)
qed

end

section \<open>Names, values and bodies\<close>

lemma field_char_state [simp]: "pstate (field_char ch c ps) = pstate ps"
  unfolding field_char_def by (cases "header_state ps") (simp_all add: match_field_def next_field_state_def Let_def)

lemma field_loop_keeps:
  "field_loop data p ch ps = (q, ch', ps') \<Longrightarrow> p \<le> length data \<Longrightarrow>
   p \<le> q \<and> q \<le> length data \<and> pstate ps' = pstate ps \<and> perrno ps' = perrno ps"
proof (induction data p ch ps rule: field_loop.induct)
  case (1 data p ch ps)
  show ?case
  proof (cases "p = length data \<or> TOKEN (data ! p) = NUL")
    case True
    then show ?thesis using "1.prems" by (subst (asm) field_loop.simps) (auto simp: Let_def split: if_splits)
  next
    case False
    then have p: "p < length data" "TOKEN (data ! p) \<noteq> NUL" using "1.prems"(2) by auto
    have f: "p \<le> fast_forward data p" "fast_forward data p < length data"
    proof -
      have "length (takeWhile (\<lambda>c. TOKEN c \<noteq> NUL) (slice data (p + 1) (p + min (length data - p) max_header_size - (p + 1))))
          \<le> length data - (p + 1)"
        by (rule order_trans [OF length_takeWhile_le]) (auto simp: slice_def)
      then show "fast_forward data p < length data" using p by (simp add: fast_forward_def Let_def)
    qed (simp add: fast_forward_def Let_def)
    show ?thesis
    proof (cases "header_state ps = h_general")
      case True
      then have "field_loop data (Suc (fast_forward data p)) (data ! p) ps = (q, ch', ps')"
        using "1.prems"(1) p by (subst (asm) field_loop.simps) (simp add: Let_def)
      from "1.IH"(1) [OF _ refl refl _ True this] p f show ?thesis by simp
    next
      case False
      then have "field_loop data (Suc p) (data ! p) (field_char (data ! p) (TOKEN (data ! p)) ps) = (q, ch', ps')"
        using "1.prems"(1) p by (subst (asm) field_loop.simps) (simp add: Let_def)
      from "1.IH"(2) [OF _ refl refl _ False this] p show ?thesis by (simp add: field_char_errno)
    qed
  qed
qed

lemma value_char_keeps:
  "value_char ch hs ps = (hs', Some ps') \<Longrightarrow>
   perrno ps' = perrno ps \<and> lenient_http_headers ps' = lenient_http_headers ps \<and> (pstate ps = s_header_value \<longrightarrow> pstate ps' = s_header_value)"
  unfolding value_char_def
  by (cases hs) (auto simp: match_value_def length_digit_def Let_def split: if_splits)

lemma general_scan_bad: "general_scan data l pe p = Inl q \<Longrightarrow> q < pe"
  by (induction data l pe p rule: general_scan.induct) (subst (asm) general_scan.simps, auto split: if_splits)

lemma value_loop_keeps:
  "value_loop data l p hs ps = (e, hs', ps') \<Longrightarrow> p \<le> length data \<Longrightarrow> pstate ps = s_header_value \<Longrightarrow>
   perrno ps' = perrno ps \<and> pstate ps' = s_header_value \<and> lenient_http_headers ps' = lenient_http_headers ps
   \<and> (case e of At_cr q \<Rightarrow> p \<le> q \<and> q < length data | At_lf q \<Rightarrow> p \<le> q \<and> q < length data
      | Bad_value _ q \<Rightarrow> q < length data | _ \<Rightarrow> True)"
proof (induction "length data - p" arbitrary: p hs ps rule: less_induct)
  case less
  show ?case
  proof (cases "p = length data")
    case True
    then show ?thesis using less.prems value_loop_end [of data l hs ps] by auto
  next
    case False
    then have p: "p < length data" using less.prems by simp
    define ch where "ch = data ! p"
    define pe where "pe = p + min (length data - p) max_header_size"
    have pe: "p \<le> pe" "pe \<le> length data" using p by (simp_all add: pe_def)
    have av: "value_loop data l p hs ps = (if ch = cr then (At_cr p, hs, ps) else if ch = lf then (At_lf p, hs, ps)
           else if \<not> l \<and> \<not> IS_HEADER_CHAR ch then (Bad_value CHPE_INVALID_HEADER_TOKEN p, hs, ps)
           else if hs = h_general
           then (case general_scan data l pe p of
                   Inl q \<Rightarrow> (Bad_value CHPE_INVALID_HEADER_TOKEN q, hs, ps)
                 | Inr q \<Rightarrow> value_loop data l (Suc (if q = length data then q - 1 else q)) hs ps)
           else (case value_char ch hs ps of
                   (hs, None) \<Rightarrow> (Bad_value CHPE_INVALID_CONTENT_LENGTH p, hs, ps)
                 | (hs, Some ps) \<Rightarrow> value_loop data l (Suc p) hs ps))"
      using p by (subst value_loop.simps) (simp add: Let_def ch_def pe_def)
    show ?thesis
    proof (cases "ch = cr \<or> ch = lf \<or> (\<not> l \<and> \<not> IS_HEADER_CHAR ch)")
      case True
      then show ?thesis using less.prems p unfolding av by (auto split: if_splits)
    next
      case F: False
      show ?thesis
      proof (cases "hs = h_general")
        case True
        show ?thesis
        proof (cases "general_scan data l pe p")
          case (Inl q)
          then show ?thesis using less.prems True F general_scan_bad [OF Inl] pe unfolding av by auto
        next
          case (Inr q)
          define q' where "q' = Suc (if q = length data then q - 1 else q)"
          have q: "p \<le> q" "q \<le> pe" using general_scan_first [OF Inr] general_scan_bound [OF pe(1) Inr] F by (auto simp: ch_def)
          then have q': "p < q'" "q' \<le> length data" using p pe by (auto simp: q'_def)
          have "value_loop data l q' hs ps = (e, hs', ps')" using less.prems(1) True F Inr unfolding av q'_def by auto
          moreover have "length data - q' < length data - p" using q' p by simp
          ultimately show ?thesis using less.hyps [of q' hs ps] q' less.prems(3) by (auto split: value_end.splits)
        qed
      next
        case False
        obtain hs1 r where v: "value_char ch hs ps = (hs1, r)" by fastforce
        show ?thesis
        proof (cases r)
          case None
          then show ?thesis using less.prems False F v p unfolding av by auto
        next
          case (Some ps1)
          then have "value_loop data l (Suc p) hs1 ps1 = (e, hs', ps')" using less.prems(1) False F v unfolding av by auto
          moreover have "length data - Suc p < length data - p" using p by simp
          ultimately show ?thesis using less.hyps [of "Suc p" hs1 ps1] p value_char_keeps [of ch hs ps hs1 ps1] v Some less.prems(3)
            by (auto split: value_end.splits)
        qed
      qed
    qed
  qed
qed

context collecting_callbacks begin

lemma field_callback_value:
  "header_field_mark x = Some m \<Longrightarrow> perrno (parser x) = CHPE_OK \<Longrightarrow>
   field_callback cb data to er k x = k (x\<lparr>owner := on_field (slice data m (to - m)) (owner x), header_field_mark := None\<rparr>)"
  by (simp add: field_callback_def data_callback_def notify_def call_def field Let_def)

lemma value_callback_value:
  "header_value_mark x = Some m \<Longrightarrow> perrno (parser x) = CHPE_OK \<Longrightarrow>
   value_callback cb data to er k x = k (x\<lparr>owner := on_value (slice data m (to - m)) (owner x), header_value_mark := None\<rparr>)"
  by (simp add: value_callback_def data_callback_def notify_def call_def "value" Let_def)

lemma body_callback_value:
  "perrno (parser x) = CHPE_OK \<Longrightarrow>
   body_callback cb data to er k x = (case body_mark x of None \<Rightarrow> k x
      | Some m \<Rightarrow> k (x\<lparr>owner := on_body (slice data m (to - m)) (owner x), body_mark := None\<rparr>))"
  by (simp add: body_callback_def data_callback_def notify_def call_def body Let_def split: option.split)

lemma good_field: "good p x \<Longrightarrow> pstate (parser x) = s_header_field \<Longrightarrow>
    \<exists>m\<le>p. header_field_mark x = Some m \<and> header_value_mark x = None \<and> url_mark x = None \<and> body_mark x = None \<and> perrno (parser x) = CHPE_OK"
  by (auto simp: good_def marks_ok_def in_url_def split: option.splits)

lemma good_value: "good p x \<Longrightarrow> pstate (parser x) = s_header_value \<Longrightarrow>
    \<exists>m\<le>p. header_value_mark x = Some m \<and> header_field_mark x = None \<and> url_mark x = None \<and> body_mark x = None \<and> perrno (parser x) = CHPE_OK"
  by (auto simp: good_def marks_ok_def in_url_def split: option.splits)

lemma keeps_header_field:
  assumes "good p x" and "pstate (parser x) = s_header_field" and "p < length data"
  shows "keeps (length data) p (header_field cb data ch p x)"
proof -
  obtain m where m: "m \<le> p" "header_field_mark x = Some m" "header_value_mark x = None" "url_mark x = None" "body_mark x = None"
      "perrno (parser x) = CHPE_OK" using good_field [OF assms(1,2)] by blast
  obtain q ch' ps' where f: "field_loop data p ch (parser x) = (q, ch', ps')" by (metis prod_cases3)
  note k = field_loop_keeps [OF f]
  have g: "good (Suc j) (x\<lparr>parser := ps', nread_local := i\<rparr>)" if "p \<le> j" for i j
    using m k assms that by (simp add: good_def marks_ok_def counts_def in_url_def)
  show ?thesis using k assms m g
    by (auto simp: header_field_def f Let_def count_header_def field_callback_value set_state_def good_plain unmarked_def)
qed

lemma keeps_header_value:
  assumes "good p x" and "pstate (parser x) = s_header_value" and "p < length data"
  shows "keeps (length data) p (header_value cb data p x)"
proof -
  obtain m where m: "m \<le> p" "header_value_mark x = Some m" "header_field_mark x = None" "url_mark x = None" "body_mark x = None"
      "perrno (parser x) = CHPE_OK" using good_value [OF assms(1,2)] by blast
  obtain e hs ps where v: "value_loop data (lenient_http_headers (parser x)) p (header_state (parser x)) (parser x) = (e, hs, ps)"
    by (metis prod_cases3)
  note k = value_loop_keeps [OF v less_imp_le [OF assms(3)] assms(2)]
  have g: "good (Suc j) (x\<lparr>parser := ps\<lparr>header_state := hs\<rparr>, nread_local := i\<rparr>)" if "p \<le> j" for i j
    using m k assms that by (auto simp: good_def marks_ok_def counts_def in_url_def)
  show ?thesis using k assms m g
    by (auto simp: header_value_def v Let_def count_header_def value_callback_value set_hstate_def good_plain unmarked_def split: value_end.split)
qed

lemma keeps_discard_lws:
  assumes "good p x" and "plain (pstate (parser x))" and "p < n"
  shows "keeps n p (header_value_discard_lws cb data ch p x)"
proof -
  define x1 where "x1 = set_state s_header_field_start (x\<lparr>header_value_mark := mark_at p (header_value_mark x)\<rparr>)"
  have x1: "header_value_mark x1 = Some p" "perrno (parser x1) = CHPE_OK"
    using assms by (simp_all add: x1_def good_plain unmarked_def set_state_def mark_at_def)
  show ?thesis
    using assms unfolding header_value_discard_lws_def x1_def [symmetric] value_callback_value [OF x1]
    by (auto simp: good_plain goto_state_def set_state_def x1_def unmarked_def)
qed

lemma unat_to_read:
  "length data < 2 ^ 64 \<Longrightarrow> p < length data \<Longrightarrow> unat (to_read data p x) = min (unat (content_length (parser x))) (length data - p)"
proof -
  assume "length data < 2 ^ 64"
  define n :: u64 where "n = word_of_nat (length data - p)"
  have "unat n = length data - p" using \<open>length data < 2 ^ 64\<close> by (simp add: n_def unat_of_nat del: of_nat_diff)
  then show ?thesis by (auto simp: to_read_def n_def [symmetric] min_def word_le_nat_alt)
qed

lemma good_body: "good p x \<Longrightarrow> pstate (parser x) \<in> {s_body_identity, s_body_identity_eof, s_chunk_data, s_chunk_data_almost_done} \<Longrightarrow>
    header_value_mark x = None \<and> header_field_mark x = None \<and> url_mark x = None \<and> (\<forall>m. body_mark x = Some m \<longrightarrow> m \<le> p) \<and> perrno (parser x) = CHPE_OK"
  by (auto simp: good_def marks_ok_def in_url_def split: option.splits)

lemma read_bounds:
  assumes "good p x" and "pstate (parser x) = s_body_identity \<or> pstate (parser x) = s_chunk_data" and "p < length data" and "length data < 2 ^ 64"
  shows "p \<le> p + unat (to_read data p x) - 1 \<and> p + unat (to_read data p x) - 1 < length data"
proof -
  have "unat (content_length (parser x)) \<noteq> 0" using assms(1,2) by (auto simp: good_def counts_def unat_eq_zero)
  then show ?thesis using unat_to_read [OF assms(4,3), of x] assms(3) by auto
qed

lemma mark_body_simps [simp]:
  "header_field_mark (mark_body data p x) = header_field_mark x" "header_value_mark (mark_body data p x) = header_value_mark x"
  "url_mark (mark_body data p x) = url_mark x" "pstate (parser (mark_body data p x)) = pstate (parser x)"
  "perrno (parser (mark_body data p x)) = perrno (parser x)" "body_mark (mark_body data p x) = mark_at p (body_mark x)"
  by (simp_all add: mark_body_def)

lemma keeps_body_identity:
  assumes "good p x" and "pstate (parser x) = s_body_identity" and "p < length data" and "length data < 2 ^ 64"
  shows "keeps (length data) p (body_identity cb data ch p x)"
proof -
  note g = good_body [OF assms(1)]
  note b = read_bounds [OF assms(1) disjI1 [OF assms(2)] assms(3,4)]
  show ?thesis using g b assms
    by (auto simp: body_identity_def Let_def body_callback_value set_state_def good_plain unmarked_def good_def marks_ok_def
        mark_at_def in_url_def counts_def split: option.splits)
qed

lemma keeps_chunk_data:
  assumes "good p x" and "pstate (parser x) = s_chunk_data" and "p < length data" and "length data < 2 ^ 64"
  shows "keeps (length data) p (chunk_data data p x)"
proof -
  note g = good_body [OF assms(1)]
  note b = read_bounds [OF assms(1) disjI2 [OF assms(2)] assms(3,4)]
  show ?thesis using g b assms
    by (auto simp: chunk_data_def Let_def set_state_def good_def marks_ok_def mark_at_def in_url_def counts_def split: option.splits)
qed

lemma keeps_body_eof:
  assumes "good p x" and "pstate (parser x) = s_body_identity_eof" and "p < length data"
  shows "keeps (length data) p (body_identity_eof data p x)"
  using good_body [OF assms(1)] assms
  by (auto simp: body_identity_eof_def good_def marks_ok_def mark_at_def in_url_def counts_def split: option.splits)

lemma keeps_chunk_end:
  assumes "good p x" and "pstate (parser x) = s_chunk_data_almost_done" and "p < length data"
  shows "keeps (length data) p (chunk_data_almost_done cb data ch p x)"
  using good_body [OF assms(1)] assms
  by (auto simp: chunk_data_almost_done_def strict_check_def body_callback_value set_state_def good_plain unmarked_def split: option.splits)

lemma keeps_state_case:
  assumes g: "good p x" and p: "p < length data" and l: "length data < 2 ^ 64"
  shows "keeps (length data) p (state_case cb wild data ch p x)"
proof -
  have dead: "plain (pstate (parser x)) \<Longrightarrow> keeps (length data) p (if ch = cr \<or> ch = lf then Break p x else fail CHPE_CLOSED_CONNECTION p x)"
    using g p by (simp add: good_plain)
  have doneq: "plain (pstate (parser x)) \<Longrightarrow> keeps (length data) p (notify cb On_message_complete (p + 1) (Break p) x)"
    using g p by (simp add: good_plain keeps_complete)
  show ?thesis
    unfolding state_case_def
    using dead doneq keeps_simple [OF g _ p] keeps_field_start [OF g _ p] keeps_value_start [OF g _ p] keeps_discard_ws [OF g _ p]
      keeps_chunk_size_end [OF g _ p] keeps_spaces [OF g _ p] keeps_schema [OF g _ p] keeps_req_url [OF g _ p] keeps_start_req [OF g _ p]
      keeps_req_method [OF g _ p] keeps_headers_almost_done [OF g _ p] keeps_headers_done [OF g _ p] keeps_header_field [OF g _ p]
      keeps_header_value [OF g _ p] keeps_discard_lws [OF g _ p] keeps_body_identity [OF g _ p l] keeps_chunk_data [OF g _ p l]
      keeps_body_eof [OF g _ p] keeps_chunk_end [OF g _ p]
    by (cases "pstate (parser x)") (simp_all add: in_url_def)
qed

end

end
