(* ===== verification/Http_Cut.thy ===== *)
theory Http_Cut
  imports Http_Keeps
begin

text \<open>
  The data may be cut anywhere between two characters at which the parser is not inside a URL: a call
  on the whole does what the calls on the pieces do. And every call returns.
\<close>

section \<open>One more character\<close>

lemma slice_before: "to \<le> length a \<Longrightarrow> slice (a @ b) m (to - m) = slice a m (to - m)"
  by (simp add: slice_def)

lemma callbacks_before:
  assumes "to \<le> length a"
  shows "field_callback cb (a @ b) to er k x = field_callback cb a to er k x"
    "value_callback cb (a @ b) to er k x = value_callback cb a to er k x"
    "url_callback cb (a @ b) to er k x = url_callback cb a to er k x"
    "body_callback cb (a @ b) to er k x = body_callback cb a to er k x"
  by (simp_all add: field_callback_def value_callback_def url_callback_def body_callback_def data_callback_def slice_before [OF assms] cong: option.case_cong)

lemma value_char_hstate:
  "value_char ch hs (ps\<lparr>header_state := h\<rparr>) = apsnd (map_option (\<lambda>ps. ps\<lparr>header_state := h\<rparr>)) (value_char ch hs ps)"
proof -
  have m: "match_value w d co e c (ps\<lparr>header_state := h\<rparr>) = apsnd (\<lambda>ps. ps\<lparr>header_state := h\<rparr>) (match_value w d co e c ps)"
    "length_digit c (ps\<lparr>header_state := h\<rparr>) = map_option (\<lambda>ps. ps\<lparr>header_state := h\<rparr>) (length_digit c ps)" for w d co e c
    by (simp_all add: match_value_def length_digit_def Let_def)
  show ?thesis unfolding value_char_def by (cases hs) (simp_all add: m apsnd_Some Let_def)
qed

lemma of_nat_last: "p < k \<Longrightarrow> (word_of_nat (k - 1 - p) :: u32) + 1 = word_of_nat (k - p)"
proof -
  assume "p < k"
  then have "k - p = Suc (k - 1 - p)" by simp
  then show ?thesis by simp
qed

definition continued :: "'h callbacks \<Rightarrow> (nat \<Rightarrow> u64) \<Rightarrow> string \<Rightarrow> char \<Rightarrow> 'h outcome \<Rightarrow> 'h outcome \<Rightarrow> bool" where
  "continued cb wild a c u v \<longleftrightarrow> u = v \<or> (\<exists>q y. u = Goto_error q y)
     \<or> (\<exists>z. u = Break (length a - 1) z \<and> (\<not> overflows z \<longrightarrow>
          (let w = state_case cb wild (a @ [c]) c (length a) (counted z) in v = w \<or> (\<exists>q y. w = Goto_error q y)
            \<or> (\<exists>ch y. v = Reexecute ch (length a) y \<and> w = Reexecute c (length a) y \<and> pstate (parser y) = s_message_done))))"

context collecting_callbacks begin

lemma continued_field:
  assumes g: "good p x" and st: "pstate (parser x) = s_header_field" and p: "p < length a" and l: "length (a @ [c]) \<le> max_header_size"
  shows "continued cb wild a c (header_field cb a ch p x) (header_field cb (a @ [c]) ch p x)"
proof -
  define D k where "D = a @ [c]" and "k = length a"
  obtain q ch' ps' where f: "field_loop a p ch (parser x) = (q, ch', ps')" by (metis prod_cases3)
  note keep = field_loop_keeps [OF f less_imp_le [OF p]]
  note front = field_loop_front [OF l less_imp_le [OF p] f]
  show ?thesis
  proof (cases "q < k")
    case True
    then have "field_loop D p ch (parser x) = (q, ch', ps')" using front by (simp add: D_def k_def)
    then have "header_field cb a ch p x = header_field cb D ch p x"
      using f True callbacks_before(1) [of q a cb "[c]"] by (simp add: header_field_def D_def k_def Let_def cong: if_cong)
    then show ?thesis by (simp add: continued_def D_def)
  next
    case False
    then have q: "q = k" using keep by (simp add: k_def)
    obtain j ch1 ch2 qs where d: "field_loop D p ch (parser x) = (j, ch1, qs)" "field_loop D k ch' ps' = (j, ch2, qs)" "j = k \<longrightarrow> ch1 = ch2"
      using front False by (auto simp: D_def k_def)
    have D: "length D = Suc k" by (simp add: D_def k_def)
    have d2: "field_loop D k c ps' = (j, ch2, qs)" using d(2) by (simp add: field_loop_last [OF D])
    have j: "k \<le> j" "j \<le> Suc k" using field_loop_keeps [OF d2] D by simp_all
    define n where "n = nread_local x + word_of_nat (k - 1 - p)"
    define z where "z = x\<lparr>parser := ps', nread_local := n\<rparr>"
    have a: "header_field cb a ch p x = (if word_of_nat max_header_size < n
        then fail CHPE_HEADER_OVERFLOW (k - 1) z else Break (k - 1) z)"
      by (simp add: header_field_def f q k_def [symmetric] count_header_def Let_def n_def z_def)
    have ps': "pstate ps' = s_header_field" using keep st by simp
    have cz: "counted z = x\<lparr>parser := ps', nread_local := n + 1\<rparr>" using ps' by (simp add: counted_def z_def PARSING_HEADER_def)
    have n1: "n + 1 = nread_local x + word_of_nat (k - p)" using of_nat_last [of p k] p by (simp add: n_def k_def add.assoc)
    have "state_case cb wild D c k (counted z) = header_field cb D c k (counted z)" using ps' by (simp add: state_case_def cz)
    also have "\<dots> = header_field cb D ch p x"
    proof (cases "j = k")
      case True
      then show ?thesis using d(1,3) d2 D n1 by (simp add: header_field_def cz Let_def count_header_def)
    next
      case False
      then have "j = Suc k" using j by simp
      then show ?thesis using d(1) d2 D n1 by (simp add: header_field_def cz Let_def count_header_def)
    qed
    finally show ?thesis unfolding continued_def a by (auto simp: fail_def D_def k_def Let_def)
  qed
qed

lemma continued_value:
  assumes g: "good p x" and st: "pstate (parser x) = s_header_value" and p: "p < length a" and l: "length (a @ [c]) \<le> max_header_size"
  shows "continued cb wild a c (header_value cb a p x) (header_value cb (a @ [c]) p x)"
proof -
  define D k l0 where "D = a @ [c]" and "k = length a" and "l0 = lenient_http_headers (parser x)"
  obtain m where m: "header_value_mark x = Some m" using good_value [OF g st] by blast
  obtain e hs ps where v: "value_loop a l0 p (header_state (parser x)) (parser x) = (e, hs, ps)" by (metis prod_cases3)
  note keep = value_loop_keeps [OF v less_imp_le [OF p] st]
  have ok: "perrno ps = CHPE_OK" using keep g by (simp add: good_def)
  note front = value_loop_front [OF l less_imp_le [OF p] v]
  show ?thesis
  proof (cases "e = At_end")
    case False
    then have "value_loop D l0 p (header_state (parser x)) (parser x) = (e, hs, ps)" using front by (simp add: D_def)
    then have "header_value cb a p x = header_value cb D p x"
      using v False keep callbacks_before(2) [of _ a cb "[c]"] 
      by (auto simp: header_value_def D_def l0_def [symmetric] Let_def count_header_def split: value_end.split)
    then show ?thesis by (simp add: continued_def D_def)
  next
    case True
    then have d: "value_loop D l0 p (header_state (parser x)) (parser x) = value_loop D l0 k hs ps" using front by (simp add: D_def k_def)
    have D: "length D = Suc k" "D ! k = c" by (simp_all add: D_def k_def)
    have le: "lenient_http_headers ps = l0" using keep by (simp add: l0_def)
    define n where "n = nread_local x + word_of_nat (k - 1 - p)"
    define z where "z = x\<lparr>parser := ps\<lparr>header_state := hs\<rparr>, nread_local := n\<rparr>"
    have a: "header_value cb a p x = (if word_of_nat max_header_size < n
        then fail CHPE_HEADER_OVERFLOW (k - 1) z else Break (k - 1) z)"
      by (simp add: header_value_def v True l0_def [symmetric] k_def [symmetric] count_header_def Let_def n_def z_def)
    have cz: "counted z = x\<lparr>parser := ps\<lparr>header_state := hs\<rparr>, nread_local := n + 1\<rparr>"
      using keep by (simp add: counted_def z_def PARSING_HEADER_def)
    have n1: "n + 1 = nread_local x + word_of_nat (k - p)" using of_nat_last [of p k] p by (simp add: n_def k_def add.assoc)
    have w: "state_case cb wild D c k (counted z) = header_value cb D k (counted z)" using keep by (simp add: state_case_def cz)
    have "header_value cb D p x = header_value cb D k (counted z) \<or> (\<exists>q y. header_value cb D k (counted z) = Goto_error q y)"
    proof -
      have m': "header_value_mark (counted z) = Some m" using m by (simp add: cz)
      have h: "header_state (parser (counted z)) = hs" "lenient_http_headers (parser (counted z)) = l0" using le by (simp_all add: cz)
      obtain hs1 r where vc: "value_char c hs ps = (hs1, r)" by fastforce
      have rok: "r = Some ps1 \<Longrightarrow> perrno ps1 = CHPE_OK" for ps1 using value_char_keeps vc ok by metis
      have vc': "value_char c hs (parser (counted z)) = (hs1, map_option (\<lambda>ps. ps\<lparr>header_state := hs\<rparr>) r)"
        using vc by (simp add: cz value_char_hstate)
      consider "c = cr" | "c \<noteq> cr" "c = lf" | "c \<noteq> cr" "c \<noteq> lf" "\<not> l0 \<and> \<not> IS_HEADER_CHAR c"
        | "c \<noteq> cr" "c \<noteq> lf" "\<not> (\<not> l0 \<and> \<not> IS_HEADER_CHAR c)" "hs = h_general"
        | "c \<noteq> cr" "c \<noteq> lf" "\<not> (\<not> l0 \<and> \<not> IS_HEADER_CHAR c)" "hs \<noteq> h_general" "r = None"
        | ps1 where "c \<noteq> cr" "c \<noteq> lf" "\<not> (\<not> l0 \<and> \<not> IS_HEADER_CHAR c)" "hs \<noteq> h_general" "r = Some ps1"
        by blast
      then show ?thesis
        unfolding header_value_last [OF D] h header_value_def [of cb D p x] l0_def [symmetric] d value_loop_last [OF D(1)] D(2) Let_def
        by cases (use m ok vc vc' rok n1 in \<open>auto simp: fail_def value_callback_value count_header_def D(1) on_parser_def set_hstate_def cz Let_def\<close>)
    qed
    then show ?thesis using w unfolding continued_def a by (auto simp: fail_def D_def k_def Let_def)
  qed
qed

end

section \<open>Bodies\<close>

lemma to_read_split:
  assumes p: "p < length a" and l: "length (a @ [c]) < 2 ^ 64"
  shows "if content_length (parser x) \<le> word_of_nat (length a - p)
    then to_read (a @ [c]) p x = content_length (parser x) \<and> to_read a p x = content_length (parser x)
      \<and> p + unat (content_length (parser x)) \<le> length a
    else to_read a p x = word_of_nat (length a - p) \<and> to_read (a @ [c]) p x = word_of_nat (length a - p) + 1
      \<and> unat (word_of_nat (length a - p) :: u64) = length a - p \<and> unat (word_of_nat (length a - p) + 1 :: u64) = Suc (length a) - p"
proof -
  define w :: u64 where "w = word_of_nat (length a - p)"
  have w: "unat w = length a - p" using l by (simp add: w_def unat_of_nat del: of_nat_diff)
  have w1: "word_of_nat (length (a @ [c]) - p) = w + 1"
  proof -
    have "length (a @ [c]) - p = Suc (length a - p)" using p by simp
    then show ?thesis by (simp only: w_def of_nat_Suc add.commute)
  qed
  have u1: "unat (w + 1) = Suc (length a) - p"
    using l w p by (simp add: unat_word_ariths)
  show ?thesis
  proof (cases "content_length (parser x) \<le> w")
    case True
    then have "unat (content_length (parser x)) \<le> length a - p" using w by (simp add: word_le_nat_alt)
    moreover have "content_length (parser x) \<le> w + 1" using True w u1 p by (simp add: word_le_nat_alt)
    moreover have "to_read (a @ [c]) p x = content_length (parser x)" unfolding to_read_def w1 by (rule min_absorb1) fact
    moreover have "to_read a p x = content_length (parser x)" unfolding to_read_def w_def [symmetric] by (rule min_absorb1) fact
    ultimately show ?thesis using True p unfolding w_def [symmetric] by simp
  next
    case False
    then have "w + 1 \<le> content_length (parser x)" using w u1 p by (simp add: word_le_nat_alt)
    then have "to_read (a @ [c]) p x = w + 1" unfolding to_read_def w1 by (rule min_absorb2)
    moreover have "to_read a p x = w" using False by (simp add: to_read_def w_def [symmetric] del: of_nat_diff)
    ultimately show ?thesis using False w u1 unfolding w_def [symmetric] by simp
  qed
qed

context collecting_callbacks begin

lemma continued_body:
  assumes g: "good p x" and p: "p < length a" and l: "length (a @ [c]) < 2 ^ 64"
  shows "pstate (parser x) = s_body_identity \<Longrightarrow> continued cb wild a c (body_identity cb a ch p x) (body_identity cb (a @ [c]) ch p x)"
    and "pstate (parser x) = s_chunk_data \<Longrightarrow> continued cb wild a c (chunk_data a p x) (chunk_data (a @ [c]) p x)"
    and "pstate (parser x) = s_body_identity_eof \<Longrightarrow> continued cb wild a c (body_identity_eof a p x) (body_identity_eof (a @ [c]) p x)"
proof -
  define D k where "D = a @ [c]" and "k = length a"
  have D: "length D = Suc k" by (simp add: D_def k_def)
  define cl where "cl = content_length (parser x)"
  define w :: u64 where "w = word_of_nat (k - p)"
  note t = to_read_split [OF p l, of x, folded D_def k_def cl_def, folded w_def]
  define z where "z = mark_body a p x"
  have ok: "perrno (parser x) = CHPE_OK" using g by (simp add: good_def)
  have k: "k - 1 < k" "p < k" using p by (simp_all add: k_def)
  have both: "(pstate (parser x) = s_body_identity \<longrightarrow> continued cb wild a c (body_identity cb a ch p x) (body_identity cb D ch p x))
      \<and> (pstate (parser x) = s_chunk_data \<longrightarrow> continued cb wild a c (chunk_data a p x) (chunk_data D p x))"
    if st: "pstate (parser x) = s_body_identity \<or> pstate (parser x) = s_chunk_data"
  proof -
    have cz: "counted z = z" using st by (auto simp: counted_def z_def PARSING_HEADER_def)
    have same: "mark_body D p x = z" "to_read D p x = to_read a p x" if "cl \<le> w"
      using t that by (simp_all add: z_def mark_body_def)
    have clz: "content_length (parser z) = cl - w" "parser z = (parser x)\<lparr>content_length := cl - w\<rparr>" if "\<not> cl \<le> w"
      using t that by (simp_all add: z_def mark_body_def cl_def)
    have pos: "unat (cl - w) \<noteq> 0" if "\<not> cl \<le> w"
      using that by (auto simp: unat_eq_zero)
    have one: "to_read D k z = 1" if "\<not> cl \<le> w"
      using pos [OF that] clz [OF that] D by (auto simp: to_read_def min_def word_le_nat_alt word_unat_eq_iff)
    have mb: "mark_body D k z = mark_body D p x" if "\<not> cl \<le> w"
      using t that one [OF that] clz [OF that]
      by (simp add: mark_body_def [of D] z_def mark_body_def [of a] on_parser_def mark_at_def cl_def [symmetric] algebra_simps split: option.split)
    have q: "p + unat (to_read a p x) - 1 = k - 1" "p + unat (to_read D p x) - 1 = k" "content_length (parser z) \<noteq> 0" if "\<not> cl \<le> w"
      using t that p clz [OF that] pos [OF that] by (auto simp: k_def)
    note facts = same clz one mb q cz
    have "continued cb wild a c (body_identity cb a ch p x) (body_identity cb D ch p x)" if s: "pstate (parser x) = s_body_identity"
      proof (cases "cl \<le> w")
        case True
        define j where "j = p + unat (to_read a p x) - 1"
        have "Suc j \<le> k" using t True k unfolding j_def by auto
        then have "body_identity cb a ch p x = body_identity cb D ch p x"
          using callbacks_before(4) [of "Suc j" a cb "[c]"] same [OF True]
          unfolding body_identity_def z_def [symmetric] j_def [symmetric] D_def [symmetric] Let_def by (simp only: j_def [symmetric] Suc_eq_plus1 k_def)
        then show ?thesis by (simp add: continued_def)
      next
        case False
        have a: "body_identity cb a ch p x = Break (k - 1) z"
          using q [OF False] by (simp add: body_identity_def z_def [symmetric] Let_def)
        have sz: "pstate (parser z) = s_body_identity" using s by (simp add: z_def)
        have "state_case cb wild D c k (counted z) = body_identity cb D c k z" by (simp add: cz state_case_def sz)
        then have v: "(let w = state_case cb wild D c k (counted z) in body_identity cb D ch p x = w
            \<or> (\<exists>ch' y. body_identity cb D ch p x = Reexecute ch' k y \<and> w = Reexecute c k y \<and> pstate (parser y) = s_message_done))"
          using q [OF False] mb [OF False] one [OF False] ok
          by (auto simp: body_identity_def Let_def body_callback_value set_state_def z_def split: option.split)
        show ?thesis unfolding continued_def a k_def [symmetric] D_def [symmetric] using v by (auto simp: Let_def)
      qed
    moreover have "continued cb wild a c (chunk_data a p x) (chunk_data D p x)" if s: "pstate (parser x) = s_chunk_data"
      proof (cases "cl \<le> w")
        case True
        then show ?thesis using same [OF True] by (simp add: continued_def chunk_data_def z_def [symmetric] Let_def)
      next
        case False
        have a: "chunk_data a p x = Break (k - 1) z" using q [OF False] by (simp add: chunk_data_def z_def [symmetric] Let_def)
        have sz: "pstate (parser z) = s_chunk_data" using s by (simp add: z_def)
        have "state_case cb wild D c k (counted z) = chunk_data D k z" by (simp add: cz state_case_def sz)
        also have "\<dots> = chunk_data D p x" using q [OF False] mb [OF False] one [OF False] by (simp add: chunk_data_def Let_def)
        finally show ?thesis by (auto simp: continued_def a k_def [symmetric] D_def [symmetric] Let_def)
      qed
    ultimately show ?thesis by blast
  qed
  have eof: "continued cb wild a c (body_identity_eof a p x) (body_identity_eof D p x)" if s: "pstate (parser x) = s_body_identity_eof"
  proof -
    define y where "y = x\<lparr>body_mark := mark_at p (body_mark x)\<rparr>"
    have "counted y = y" "y\<lparr>body_mark := mark_at k (body_mark y)\<rparr> = y" "pstate (parser y) = s_body_identity_eof"
      using s by (simp_all add: y_def counted_def PARSING_HEADER_def mark_at_def split: option.split)
    then have "state_case cb wild D c k (counted y) = body_identity_eof D p x"
      by (simp add: state_case_def body_identity_eof_def D y_def)
    moreover have "body_identity_eof a p x = Break (k - 1) y" by (simp add: body_identity_eof_def y_def k_def)
    ultimately show ?thesis by (auto simp: continued_def k_def [symmetric] D_def [symmetric] Let_def)
  qed
  show "pstate (parser x) = s_body_identity \<Longrightarrow> continued cb wild a c (body_identity cb a ch p x) (body_identity cb (a @ [c]) ch p x)"
    and "pstate (parser x) = s_chunk_data \<Longrightarrow> continued cb wild a c (chunk_data a p x) (chunk_data (a @ [c]) p x)"
    and "pstate (parser x) = s_body_identity_eof \<Longrightarrow> continued cb wild a c (body_identity_eof a p x) (body_identity_eof (a @ [c]) p x)"
    using both eof unfolding D_def by blast+
qed

end

section \<open>The cases of the loop with one more character\<close>

lemma value_start_front:
  assumes "p < length a"
  shows "header_value_start a ch p x = header_value_start (a @ [c]) ch p x
    \<or> c = CHR ''2'' \<and> (\<exists>z. header_value_start a ch p x = Break (length a - 1) z \<and> F_UPGRADE (pflags (parser z)))"
proof (cases "Suc p = length a \<and> c = CHR ''2'' \<and> header_state (parser x) = h_upgrade")
  case True
  then show ?thesis by (auto simp: header_value_start_def Let_def set_hstate_def)
next
  case False
  have "header_value_start a ch p x = header_value_start (a @ [c]) ch p x"
  proof (cases "header_state (parser x) = h_upgrade")
    case up: True
    then have "(Suc p \<noteq> length a \<and> a ! Suc p = CHR ''2'') = (Suc p \<noteq> length (a @ [c]) \<and> (a @ [c]) ! Suc p = CHR ''2'')"
      using False assms by (auto simp: nth_append)
    then show ?thesis using up by (simp add: header_value_start_def Let_def)
  next
    case False
    then show ?thesis by (cases "header_state (parser x)") (simp_all add: header_value_start_def Let_def)
  qed
  then show ?thesis ..
qed

context collecting_callbacks begin

lemma state_case_front:
  assumes "p < length a" and "pstate (parser x) \<notin> {s_header_field, s_header_value, s_body_identity, s_body_identity_eof, s_chunk_data,
     s_header_value_start, s_header_value_discard_ws}"
  shows "state_case cb wild a ch p x = state_case cb wild (a @ [c]) ch p x"
  using assms(2) callbacks_before [OF less_imp_le [OF assms(1)], of cb "[c]"] unfolding state_case_def
  by (cases "pstate (parser x)") (simp_all add: req_url_def header_value_discard_lws_def chunk_data_almost_done_def strict_check_def)

lemma continued_state_case:
  assumes g: "good p x" and p: "p < length a" and l: "length (a @ [c]) \<le> max_header_size"
  shows "continued cb wild a c (state_case cb wild a ch p x) (state_case cb wild (a @ [c]) ch p x)
    \<or> c = CHR ''2'' \<and> (\<exists>z. state_case cb wild a ch p x = Break (length a - 1) z \<and> F_UPGRADE (pflags (parser z)))"
proof -
  have l': "length (a @ [c]) < 2 ^ 64" using l by (simp add: max_header_size_def)
  have eq: "continued cb wild a c u u" for u by (simp add: continued_def)
  consider "pstate (parser x) = s_header_field" | "pstate (parser x) = s_header_value" | "pstate (parser x) = s_body_identity"
    | "pstate (parser x) = s_body_identity_eof" | "pstate (parser x) = s_chunk_data" | "pstate (parser x) = s_header_value_start"
    | "pstate (parser x) = s_header_value_discard_ws"
    | "pstate (parser x) \<notin> {s_header_field, s_header_value, s_body_identity, s_body_identity_eof, s_chunk_data,
         s_header_value_start, s_header_value_discard_ws}"
    by blast
  then show ?thesis
  proof cases
    case 1 then show ?thesis using continued_field [OF g 1 p l] by (simp add: state_case_def)
  next
    case 2 then show ?thesis using continued_value [OF g 2 p l] by (simp add: state_case_def)
  next
    case 3 then show ?thesis using continued_body(1) [OF g p l' 3] by (simp add: state_case_def)
  next
    case 4 then show ?thesis using continued_body(3) [OF g p l' 4] by (simp add: state_case_def)
  next
    case 5 then show ?thesis using continued_body(2) [OF g p l' 5] by (simp add: state_case_def)
  next
    case 6 then show ?thesis using value_start_front [OF p, of ch x c] eq by (auto simp: state_case_def)
  next
    case 7 then show ?thesis using value_start_front [OF p, of ch x c] eq by (auto simp: state_case_def header_value_discard_ws_def)
  next
    case 8 then show ?thesis using state_case_front [OF p, of x wild ch c] eq by simp
  qed
qed

lemma notify_return:
  "notify cb ev er k x = Return m z \<Longrightarrow> perrno (parser z) \<noteq> CHPE_OK \<or> k (call cb ev x) = Return m z"
  by (auto simp: notify_def Let_def split: if_splits)

lemma data_callback_return:
  "data_callback cb data mark unmark ev to er k x = Return m z \<Longrightarrow> perrno (parser z) \<noteq> CHPE_OK \<or> (\<exists>y. k y = Return m z)"
  by (auto simp: data_callback_def split: option.splits dest!: notify_return)

lemma callback_break_return:
  "field_callback cb data to er (Break p) x = Return m z \<Longrightarrow> perrno (parser z) \<noteq> CHPE_OK"
  "url_callback cb data to er (Break p) x = Return m z \<Longrightarrow> perrno (parser z) \<noteq> CHPE_OK"
  "body_callback cb data to er (Break p) x = Return m z \<Longrightarrow> perrno (parser z) \<noteq> CHPE_OK"
  "body_callback cb data to er (Reexecute ch p) x = Return m z \<Longrightarrow> perrno (parser z) \<noteq> CHPE_OK"
  "value_callback cb data to er (Reexecute ch p) x = Return m z \<Longrightarrow> perrno (parser z) \<noteq> CHPE_OK"
  "value_callback cb data to er (\<lambda>x. Reexecute ch p (set_hstate hs x)) x = Return m z \<Longrightarrow> perrno (parser z) \<noteq> CHPE_OK"
  "value_callback cb data to er (\<lambda>x. count_header n p (Break p) (set_hstate hs x)) x = Return m z \<Longrightarrow> perrno (parser z) \<noteq> CHPE_OK"
  "notify cb ev er (Break p) x = Return m z \<Longrightarrow> perrno (parser z) \<noteq> CHPE_OK"
  "notify cb ev er (\<lambda>x. Break p (on_parser f x)) x = Return m z \<Longrightarrow> perrno (parser z) \<noteq> CHPE_OK"
  unfolding field_callback_def url_callback_def body_callback_def value_callback_def
  by (auto dest!: data_callback_return notify_return simp: count_header_def Let_def fail_def split: if_splits)

lemma no_return [simp]:
  "fail e p x \<noteq> Return m z" "goto_state s p x \<noteq> Return m z"
  by (simp_all add: fail_def goto_state_def)

lemma count_return: "count_header n p k x = Return m z \<Longrightarrow> \<exists>y. k y = Return m z"
  by (auto simp: count_header_def Let_def split: if_splits)

lemma returns_field: "header_field cb data ch p x = Return m z \<Longrightarrow> perrno (parser z) \<noteq> CHPE_OK"
  by (auto simp: header_field_def Let_def split: prod.splits if_splits dest!: count_return callback_break_return)

lemma returns_value: "header_value cb data p x = Return m z \<Longrightarrow> perrno (parser z) \<noteq> CHPE_OK"
  by (auto simp: header_value_def Let_def split: prod.splits value_end.splits if_splits dest!: count_return callback_break_return)

lemma returns_start [simp]: "header_value_start data ch p x \<noteq> Return m z"
  by (auto simp: header_value_start_def length_start_def Let_def split: hstate.splits)

lemma returns_headers_done:
  assumes "headers_done cb ch p x = Return m z" and "pstate (parser x) = s_headers_done"
  shows "perrno (parser z) \<noteq> CHPE_OK \<or> upgrade (parser z) \<and> counts (parser z)"
proof -
  have c: "upgrade (parser (call cb On_message_complete y)) = upgrade (parser y)"
    "pstate (parser y) = s_headers_done \<Longrightarrow> pstate (parser (call cb On_message_complete y)) \<in> {s_headers_done, s_start_req}" for y
    using complete [of "parser y" "owner y"] by (auto simp: call_def split: prod.split)
  show ?thesis using assms
    by (auto simp: headers_done_def strict_check_def Let_def save_nread_def set_errno_def c(1) reset_nread_def counts_def
        split: if_splits dest!: callback_break_return notify_return) (use c(2) [of "reset_nread x"] in \<open>auto simp: reset_nread_def\<close>)
qed

lemma returns_only:
  assumes "state_case cb wild data ch p x = Return m z"
  shows "perrno (parser z) \<noteq> CHPE_OK \<or> upgrade (parser z) \<and> counts (parser z)"
  using assms unfolding state_case_def
  by (cases "pstate (parser x)")
    (auto simp: Let_def start_req_def req_method_def req_spaces_before_url_def req_schema_def req_url_def url_char_def
      req_http_start_def expect_def expect_lf_def strict_check_def req_http_major_def req_http_dot_def req_http_minor_def req_http_end_def
      header_field_start_def header_value_discard_ws_def header_value_discard_lws_def header_value_lws_def
      headers_almost_done_def body_identity_def body_identity_eof_def chunk_size_start_def chunk_size_def chunk_parameters_def
      chunk_size_almost_done_def chunk_data_def chunk_data_almost_done_def chunk_data_done_def save_nread_def
      split: if_splits option.splits dest!: callback_break_return returns_field returns_value returns_headers_done)

end

section \<open>Appending a character\<close>

lemma good_counted: "good p (counted x) = good p x"
proof -
  have "parser (counted x) = parser x" "header_field_mark (counted x) = header_field_mark x" "header_value_mark (counted x) = header_value_mark x"
    "url_mark (counted x) = url_mark x" "body_mark (counted x) = body_mark x"
    by (simp_all add: counted_def)
  then show ?thesis by (simp only: good_def marks_ok_def)
qed

context collecting_callbacks begin

lemma call_data_parser:
  "perrno (parser (call cb (On_url s) x)) = CHPE_OK \<Longrightarrow> parser (call cb (On_url s) x) = parser x"
  using url [of s "parser x" "owner x"] by (simp add: call_def split: prod.splits)

lemma data_callback_step:
  assumes "data_callback cb data mark unmark ev to er k x = Return m y" and "perrno (parser y) = CHPE_OK"
    and "\<And>s x. perrno (parser (call cb (ev s) x)) = CHPE_OK \<Longrightarrow> parser (call cb (ev s) x) = parser x"
    and "\<And>x. parser (unmark x) = parser x \<and> nread_local (unmark x) = nread_local x"
  shows "\<exists>x'. k x' = Return m y \<and> parser x' = parser x \<and> nread_local x' = nread_local x"
proof (cases "mark x")
  case None
  then show ?thesis using assms(1) by (auto simp: data_callback_def)
next
  case (Some i)
  define x1 where "x1 = call cb (ev (slice data i (to - i))) x"
  have "nread_local x1 = nread_local x" by (simp add: x1_def call_def split: prod.split)
  moreover have "perrno (parser x1) = CHPE_OK" "k (unmark x1) = Return m y"
    using assms(1,2) Some by (auto simp: data_callback_def notify_def Let_def x1_def [symmetric] split: if_splits)
  moreover have "parser x1 = parser x" using assms(3) calculation(2) unfolding x1_def .
  ultimately show ?thesis using assms(4) by metis
qed

lemma finish_data_parser:
  assumes "finish_data cb data x = Return m y" and ok: "perrno (parser y) = CHPE_OK"
  shows "m = length data \<and> parser y = (parser x)\<lparr>nread := nread_local x\<rparr>"
proof -
  define k4 k3 k2 k1 where
    "k4 = (\<lambda>x :: 'h exec. Return (length data) (save_nread x))"
    and "k3 = body_callback cb data (length data) (length data) k4"
    and "k2 = url_callback cb data (length data) (length data) k3"
    and "k1 = value_callback cb data (length data) (length data) k2"
  have u: "field_callback cb data (length data) (length data) k1 x = Return m y"
    using assms(1) by (simp add: finish_data_def Let_def k1_def k2_def k3_def k4_def)
  obtain x1 where x1: "k1 x1 = Return m y" "parser x1 = parser x" "nread_local x1 = nread_local x"
    using data_callback_step [OF u [unfolded field_callback_def] ok] by (auto simp: call_parser)
  obtain x2 where x2: "k2 x2 = Return m y" "parser x2 = parser x1" "nread_local x2 = nread_local x1"
    using data_callback_step [OF x1(1) [unfolded k1_def value_callback_def] ok] by (auto simp: call_parser)
  obtain x3 where x3: "k3 x3 = Return m y" "parser x3 = parser x2" "nread_local x3 = nread_local x2"
    using data_callback_step [OF x2(1) [unfolded k2_def url_callback_def] ok] by (auto simp: call_data_parser)
  obtain x4 where x4: "k4 x4 = Return m y" "parser x4 = parser x3" "nread_local x4 = nread_local x3"
    using data_callback_step [OF x3(1) [unfolded k3_def body_callback_def] ok] by (auto simp: call_parser)
  show ?thesis using x4 x1 x2 x3 by (auto simp: k4_def save_nread_def on_parser_def)
qed

lemma run_front:
  assumes "run cb wild a s = Some r" and l: "length (a @ [c]) \<le> max_header_size"
    and ok: "perrno (parser (snd r)) = CHPE_OK" and st: "steady (parser (snd r))" and up: "\<not> upgrade (parser (snd r))"
    and two: "c = CHR ''2'' \<Longrightarrow> \<not> F_UPGRADE (pflags (parser (snd r)))"
    and ex: "http_parser_execute cb wild [c] (parser (snd r), owner (snd r)) = Some (n, s2)" "perrno (fst s2) = CHPE_OK"
  shows "s = Inr (ch, p, x) \<Longrightarrow> good p x \<Longrightarrow> p < length a \<Longrightarrow>
    fst r = length a \<and> (\<exists>x'. run cb wild (a @ [c]) (Inr (ch, p, x)) = Some (length a + n, x') \<and> (parser x', owner x') = s2)"
  using assms(1,3-8)
proof (induction arbitrary: ch p x rule: run_induct)
  case (step s r)
  then have s: "s = (ch, p, x)" by simp
  define D where "D = a @ [c]"
  have l': "length a < 2 ^ 64" using l by (simp add: max_header_size_def)
  note keep = keeps_state_case [OF step.prems(2,3) l', of wild ch]
  note runD = run_Inr [of cb wild D "(ch, p, x)"]
  have cont: "continued cb wild a c (state_case cb wild a ch p x) (state_case cb wild D ch p x)
    \<or> c = CHR ''2'' \<and> (\<exists>z. state_case cb wild a ch p x = Break (length a - 1) z \<and> F_UPGRADE (pflags (parser z)))"
    unfolding D_def by (rule continued_state_case [OF step.prems(2,3) l])
  show ?case
  proof (cases "state_case cb wild a ch p x")
    case (Break q z)
    have q: "p \<le> q" "q < length a" "good (Suc q) z" using keep Break by simp_all
    have run: "run cb wild a (loop_head cb a (Suc q) z) = Some r" using step(1) Break by (simp add: s loop_step_def)
    show ?thesis
    proof (cases "Suc q < length a")
      case True
      then have v: "state_case cb wild D ch p x = Break q z" using cont Break by (auto simp: continued_def)
      have "\<not> overflows z"
      proof
        assume "overflows z"
        then show False using run step.prems(4) True by (auto simp: loop_head_char)
      qed
      then have h: "loop_head cb a (Suc q) z = Inr (a ! Suc q, Suc q, counted z)"
        "loop_head cb D (Suc q) z = Inr (a ! Suc q, Suc q, counted z)"
        using True by (simp_all add: loop_head_char D_def nth_append)
      have "loop_step cb wild a s = Inr (a ! Suc q, Suc q, counted z)" using Break h by (simp add: s loop_step_def)
      from step.IH [OF this _ True step.prems(4-)] q(3) show ?thesis
        using v h(2) unfolding D_def [symmetric] by (simp add: runD loop_step_def good_counted)
    next
      case False
      then have qk: "Suc q = length a" using q by simp
      then have qk1: "q = length a - 1" by simp
      obtain m y where f: "finish_data cb a z = Return m y" using finish_data_returns by blast
      then have r: "r = (m, y)" using run qk by (simp add: loop_head_def)
      have y: "m = length a" "parser y = (parser z)\<lparr>nread := nread_local z\<rparr>"
        using finish_data_parser [OF f] step.prems(4) r by simp_all
      have ok: "perrno (parser z) = CHPE_OK" "steady (parser z)" using step.prems(4,5) r y by (simp_all add: steady_def)
      have ex: "http_parser_execute cb wild [c] (parser y, owner y) = Some (n, s2)" using step.prems(8) r by simp
      have m: "marks_ok (length a) z" using q(3) qk by (simp add: good_def)
      obtain x' where x': "run cb wild D (loop_head cb D (length a) z) = Some (length a + n, x')" "(parser x', owner x') = s2"
        using resume [OF refl m ok f [unfolded y(1)] ex step.prems(9)] unfolding D_def by blast
      have no: "\<not> overflows z" using x' step.prems(9) by (auto simp: loop_head_char D_def)
      then have x'': "run cb wild D (Inr (c, length a, counted z)) = Some (length a + n, x')"
        using x'(1) by (simp add: loop_head_char D_def)
      define w where "w = state_case cb wild D c (length a) (counted z)"
      have notw: "w \<noteq> Goto_error i u" for i u
        using x'' x'(2) step.prems(9) by (auto simp: run_Inr [of _ _ _ "(c, length a, counted z)"] loop_step_def w_def)
      have "\<not> (c = CHR ''2'' \<and> F_UPGRADE (pflags (parser z)))" using step.prems(7) r y by auto
      then have "continued cb wild a c (Break q z) (state_case cb wild D ch p x)" using cont Break by auto
      then consider "state_case cb wild D ch p x = Break q z" | "state_case cb wild D ch p x = w"
        | ch' u where "state_case cb wild D ch p x = Reexecute ch' (length a) u" "w = Reexecute c (length a) u" "pstate (parser u) = s_message_done"
        using no notw by (auto simp: continued_def Let_def D_def [symmetric] w_def [symmetric])
      then have "run cb wild D (Inr (ch, p, x)) = Some (length a + n, x')"
      proof cases
        case 1
        then show ?thesis using x'(1) qk by (simp add: runD loop_step_def)
      next
        case 2
        then show ?thesis using x'' by (simp add: runD run_Inr [of _ _ _ "(c, length a, counted z)"] loop_step_def w_def)
      next
        case 3
        have "run cb wild D (Inr (ch', length a, u)) = run cb wild D (Inr (c, length a, u))"
          by (simp add: run_Inr loop_step_def state_case_def 3(3))
        then show ?thesis using x'' 3
          by (simp add: runD run_Inr [of _ _ _ "(c, length a, counted z)"] loop_step_def w_def)
      qed
      then show ?thesis using x'(2) r y(1) by (simp add: D_def)
    qed
  next
    case (Reexecute ch' q z)
    have q: "p \<le> q" "q < length a" "good q z" using keep Reexecute by simp_all
    have v: "state_case cb wild D ch p x = Reexecute ch' q z" using cont Reexecute by (auto simp: continued_def)
    have "loop_step cb wild a s = Inr (ch', q, z)" using Reexecute by (simp add: s loop_step_def)
    from step.IH [OF this q(3,2) step.prems(4-)] show ?thesis using v unfolding D_def [symmetric] by (simp add: runD loop_step_def)
  next
    case (Return m z)
    then have "r = (m, z)" using step(1) by (simp add: s loop_step_def)
    then show ?thesis using returns_only [OF Return] step.prems(4,6) by simp
  next
    case (Goto_error m z)
    then have "r = (m, at_error z)" using step(1) by (simp add: s loop_step_def)
    then show ?thesis using step.prems(4) by simp
  qed
qed simp

lemma start_good:
  "perrno (fst s) = CHPE_OK \<Longrightarrow> counts (fst s) \<Longrightarrow> good 0 (start_exec s)"
  by (auto simp: good_def marks_ok_def start_exec_def in_url_def split: prod.split)

lemma append_byte:
  assumes a: "http_parser_execute cb wild a s = Some (k, s1)" "a \<noteq> []" and l: "length (a @ [c]) \<le> max_header_size"
    and s: "counts (fst s)"
    and s1: "perrno (fst s1) = CHPE_OK" "steady (fst s1)" "\<not> upgrade (fst s1)" "c = CHR ''2'' \<Longrightarrow> \<not> F_UPGRADE (pflags (fst s1))"
    and ex: "http_parser_execute cb wild [c] s1 = Some (n, s2)" "perrno (fst s2) = CHPE_OK"
  shows "http_parser_execute cb wild (a @ [c]) s = Some (k + n, s2) \<and> k = length a"
proof -
  have ok: "perrno (fst s) = CHPE_OK" using a s1(1) by (auto simp: http_parser_execute_def split: if_splits)
  define x where "x = start_exec s"
  obtain y where y: "run cb wild a (loop_head cb a 0 x) = Some (k, y)" "s1 = (parser y, owner y)"
    using a ok by (auto simp: http_parser_execute_def x_def)
  have len: "0 < length a" using a(2) by simp
  have no: "\<not> overflows x" using y s1(1) len by (auto simp: loop_head_char)
  then have h: "loop_head cb a 0 x = Inr (a ! 0, 0, counted x)" "loop_head cb (a @ [c]) 0 x = Inr (a ! 0, 0, counted x)"
    using len by (simp_all add: loop_head_char nth_append)
  have g: "good 0 (counted x)" using start_good [OF ok s] by (simp add: good_counted x_def)
  have "fst (k, y) = length a \<and> (\<exists>x'. run cb wild (a @ [c]) (Inr (a ! 0, 0, counted x)) = Some (length a + n, x') \<and> (parser x', owner x') = s2)"
    by (rule run_front [OF y(1) l _ _ _ _ _ ex(2) h(1) g len]) (use s1 ex y in auto)
  then show ?thesis using ok h by (auto simp: http_parser_execute_def x_def [symmetric])
qed

end

section \<open>Pieces of any size\<close>

definition cuttable :: "http_parser \<Rightarrow> char \<Rightarrow> bool" where
  "cuttable ps c \<longleftrightarrow> steady ps \<and> \<not> upgrade ps \<and> (c = CHR ''2'' \<longrightarrow> \<not> F_UPGRADE (pflags ps))"

fun execute_pieces :: "'h callbacks \<Rightarrow> (nat \<Rightarrow> u64) \<Rightarrow> string list \<Rightarrow> http_parser \<times> 'h \<Rightarrow> (http_parser \<times> 'h) option" where
  "execute_pieces cb wild [] s = Some s"
| "execute_pieces cb wild (d # ds) s =
     (case http_parser_execute cb wild d s of
        Some (n, s') \<Rightarrow> if perrno (fst s') = CHPE_OK \<and> n = length d then execute_pieces cb wild ds s' else None
      | None \<Rightarrow> None)"

fun execute_bytes :: "'h callbacks \<Rightarrow> (nat \<Rightarrow> u64) \<Rightarrow> string \<Rightarrow> http_parser \<times> 'h \<Rightarrow> (http_parser \<times> 'h) option" where
  "execute_bytes cb wild [] s = Some s"
| "execute_bytes cb wild (c # d) s =
     (if cuttable (fst s) c then
        case http_parser_execute cb wild [c] s of
          Some (n, s') \<Rightarrow> if perrno (fst s') = CHPE_OK \<and> n = 1 then execute_bytes cb wild d s' else None
        | None \<Rightarrow> None
      else None)"

lemma execute_bytes_append:
  "execute_bytes cb wild (a @ b) s = Option.bind (execute_bytes cb wild a s) (execute_bytes cb wild b)"
  by (induction a arbitrary: s) (auto split: option.split)

lemma execute_bytes_ok: "execute_bytes cb wild d s = Some s' \<Longrightarrow> perrno (fst s) = CHPE_OK \<Longrightarrow> perrno (fst s') = CHPE_OK"
  by (induction d arbitrary: s) (auto split: if_splits option.splits)

context collecting_callbacks begin

lemma append_bytes:
  assumes "execute_bytes cb wild b s1 = Some s2" and "http_parser_execute cb wild a s = Some (length a, s1)" and "a \<noteq> []"
    and "length (a @ b) \<le> max_header_size" and "counts (fst s)" and "perrno (fst s1) = CHPE_OK"
  shows "http_parser_execute cb wild (a @ b) s = Some (length (a @ b), s2)"
  using assms
proof (induction b arbitrary: s2 rule: rev_induct)
  case (snoc c b)
  obtain t where t: "execute_bytes cb wild b s1 = Some t" "execute_bytes cb wild [c] t = Some s2"
    using snoc.prems(1) by (auto simp: execute_bytes_append bind_eq_Some_conv)
  have ab: "http_parser_execute cb wild (a @ b) s = Some (length (a @ b), t)"
    by (rule snoc.IH) (use snoc.prems t in simp_all)
  have ex: "http_parser_execute cb wild [c] t = Some (1, s2)" "perrno (fst s2) = CHPE_OK" "cuttable (fst t) c"
    using t(2) by (auto split: if_splits option.splits)
  have "http_parser_execute cb wild ((a @ b) @ [c]) s = Some (length (a @ b) + 1, s2) \<and> length (a @ b) = length (a @ b)"
    by (rule append_byte [OF ab _ _ snoc.prems(5) execute_bytes_ok [OF t(1) snoc.prems(6)] _ _ _ ex(1,2)])
      (use snoc.prems ex(3) in \<open>auto simp: cuttable_def\<close>)
  then show ?case by simp
qed simp

lemma whole_piece:
  assumes "execute_bytes cb wild d s = Some s'" and "d \<noteq> []" and "length d \<le> max_header_size"
  shows "http_parser_execute cb wild d s = Some (length d, s')" "perrno (fst s') = CHPE_OK"
proof -
  obtain c e where d: "d = c # e" using assms(2) by (cases d) auto
  obtain s1 where s1: "http_parser_execute cb wild [c] s = Some (1, s1)" "perrno (fst s1) = CHPE_OK" "execute_bytes cb wild e s1 = Some s'"
      "cuttable (fst s) c"
    using assms(1) by (auto simp: d split: if_splits option.splits)
  have "counts (fst s)" using s1(4) by (auto simp: cuttable_def steady_def counts_def)
  from append_bytes [OF s1(3), of "[c]" s] this s1 assms(3) show "http_parser_execute cb wild d s = Some (length d, s')"
    by (simp add: d)
  show "perrno (fst s') = CHPE_OK" using execute_bytes_ok [OF s1(3,2)] .
qed

lemma any_pieces:
  "execute_bytes cb wild (concat ds) s = Some s' \<Longrightarrow> [] \<notin> set ds \<Longrightarrow> \<forall>d\<in>set ds. length d \<le> max_header_size \<Longrightarrow>
   execute_pieces cb wild ds s = Some s'"
proof (induction ds arbitrary: s)
  case (Cons d ds)
  obtain t where t: "execute_bytes cb wild d s = Some t" "execute_bytes cb wild (concat ds) t = Some s'"
    using Cons.prems(1) by (auto simp: execute_bytes_append bind_eq_Some_conv)
  have d: "d \<noteq> []" "length d \<le> max_header_size" using Cons.prems by auto
  then show ?case using whole_piece [OF t(1) d] Cons.IH [OF t(2)] Cons.prems by simp
qed simp

end

text \<open>A jump to \<open>reexecute\<close> comes nearer to a state that takes the character.\<close>

definition reexecute_rank :: "pstate \<Rightarrow> nat" where
  "reexecute_rank s =
     (if s = s_header_value_lws \<or> s = s_header_value_discard_lws then 3
      else if s = s_header_field_start then 2
      else if s \<in> {s_headers_almost_done, s_header_value, s_body_identity} then 1 else 0)"

context collecting_callbacks begin

lemma rank_decreases:
  assumes "state_case cb wild data ch p x = Reexecute ch' q y"
  shows "reexecute_rank (pstate (parser y)) < reexecute_rank (pstate (parser x))"
  using assms unfolding state_case_def
  by (cases "pstate (parser x)")
    (auto simp: reexecute_rank_def Let_def start_req_def req_method_def req_spaces_before_url_def req_schema_def req_url_def url_char_def
      req_http_start_def expect_def expect_lf_def strict_check_def req_http_major_def req_http_dot_def req_http_minor_def req_http_end_def
      header_field_start_def header_value_discard_ws_def header_value_discard_lws_def header_value_lws_def
      headers_almost_done_def headers_done_def body_identity_def body_identity_eof_def chunk_size_start_def chunk_size_def chunk_parameters_def
      chunk_size_almost_done_def chunk_data_def chunk_data_almost_done_def chunk_data_done_def exec_defs call_parser notify_def
      split: if_splits option.splits dest!: callback_reexecute reexecute_value)

lemma run_returns:
  assumes l: "length data < 2 ^ 64"
  shows "good p x \<Longrightarrow> p < length data \<Longrightarrow> \<exists>r. run cb wild data (Inr (ch, p, x)) = Some r"
proof (induction "(length data - p, reexecute_rank (pstate (parser x)))" arbitrary: ch p x
    rule: wf_induct_rule [OF wf_lex_prod [OF wf_less wf_less]])
  case (1 p x ch)
  note keep = keeps_state_case [OF "1.prems" l, of wild ch]
  show ?case
  proof (cases "state_case cb wild data ch p x")
    case (Break q z)
    have q: "p \<le> q" "q < length data" "good (Suc q) z" using keep Break by simp_all
    show ?thesis
    proof (cases "Suc q < length data \<and> \<not> overflows z")
      case True
      have "\<exists>r. run cb wild data (Inr (data ! Suc q, Suc q, counted z)) = Some r"
        by (rule "1.hyps") (use True q in \<open>auto simp: good_counted\<close>)
      then show ?thesis using True Break by (simp add: run_Inr [of _ _ _ "(ch, p, x)"] loop_step_def loop_head_char)
    next
      case False
      obtain m y where f: "finish_data cb data z = Return m y" using finish_data_returns by blast
      have "Suc q = length data \<or> Suc q < length data \<and> overflows z" using q False by auto
      then show ?thesis using Break f by (auto simp: run_Inr [of _ _ _ "(ch, p, x)"] loop_step_def loop_head_char) (simp add: loop_head_def)
    qed
  next
    case (Reexecute ch' q z)
    have q: "p \<le> q" "q < length data" "good q z" using keep Reexecute by simp_all
    have "\<exists>r. run cb wild data (Inr (ch', q, z)) = Some r"
      by (rule "1.hyps") (use q rank_decreases [OF Reexecute] in auto)
    then show ?thesis using Reexecute by (simp add: run_Inr [of _ _ _ "(ch, p, x)"] loop_step_def)
  qed (simp_all add: run_Inr [of _ _ _ "(ch, p, x)"] loop_step_def)
qed

lemma execute_returns:
  assumes "length data < 2 ^ 64" and "counts (fst s)"
  shows "\<exists>r. http_parser_execute cb wild data s = Some r"
proof (cases "perrno (fst s) = CHPE_OK \<and> data \<noteq> []")
  case True
  define x where "x = start_exec s"
  have g: "good 0 (counted x)" using start_good [of s] True assms(2) by (simp add: good_counted x_def)
  then show ?thesis using True run_returns [OF assms(1) g] by (auto simp: http_parser_execute_def x_def [symmetric] loop_head_char)
next
  case False
  obtain n ps h where "execute_end cb s = (n, ps, h)" by (metis prod_cases3)
  then show ?thesis using False by (auto simp: http_parser_execute_def)
qed

text \<open>Where a call stops, and what holds of the parser then.\<close>

lemma notify_stops:
  "notify cb ev er k x = Return m z \<Longrightarrow> m = er \<and> perrno (parser z) \<noteq> CHPE_OK \<or> k (call cb ev x) = Return m z"
  "notify cb ev er k x = Goto_error m z \<Longrightarrow> k (call cb ev x) = Goto_error m z"
  by (auto simp: notify_def Let_def split: if_splits)

lemma data_callback_stops:
  "data_callback cb data mark unmark ev to er k x = Return m y \<Longrightarrow> m = er \<or> (\<exists>z. k z = Return m y)"
  "data_callback cb data mark unmark ev to er k x = Goto_error m y \<Longrightarrow> \<exists>z. k z = Goto_error m y"
  by (auto simp: data_callback_def split: option.splits dest!: notify_stops)

definition stops :: "nat \<Rightarrow> 'h outcome \<Rightarrow> bool" where
  "stops n u \<longleftrightarrow> (case u of Return m z \<Rightarrow> m \<le> n | Goto_error m z \<Rightarrow> m \<le> n | _ \<Rightarrow> True)"

lemma stops_simps [simp]:
  "stops n (Break q z)" "stops n (Reexecute ch q z)" "stops n (Return m z) \<longleftrightarrow> m \<le> n" "stops n (Goto_error m z) \<longleftrightarrow> m \<le> n"
  "stops n (fail e q x) \<longleftrightarrow> q \<le> n" "stops n (goto_state s q x)"
  by (simp_all add: stops_def fail_def goto_state_def)

lemma stops_notify [simp]: "er \<le> n \<Longrightarrow> (\<And>x. stops n (k x)) \<Longrightarrow> stops n (notify cb ev er k x)"
  by (simp add: notify_def Let_def)

lemma stops_data [simp]: "er \<le> n \<Longrightarrow> (\<And>x. stops n (k x)) \<Longrightarrow> stops n (data_callback cb data mark unmark ev to er k x)"
  by (simp add: data_callback_def split: option.split)

lemma stops_count [simp]: "q \<le> n \<Longrightarrow> (\<And>x. stops n (k x)) \<Longrightarrow> stops n (count_header i q k x)"
  by (simp add: count_header_def Let_def)

lemma stops_strict [simp]: "q \<le> n \<Longrightarrow> (\<And>x. stops n (k x)) \<Longrightarrow> stops n (strict_check b q k x)"
  by (simp add: strict_check_def)

lemma stops_field: "p < length data \<Longrightarrow> stops (length data) (header_field cb data ch p x)"
proof -
  assume p: "p < length data"
  obtain q ch' ps where f: "field_loop data p ch (parser x) = (q, ch', ps)" by (metis prod_cases3)
  show ?thesis using field_loop_keeps [OF f less_imp_le [OF p]] p by (auto simp: header_field_def f Let_def field_callback_def)
qed

lemma stops_start: "p < length data \<Longrightarrow> stops (length data) (header_value_start data ch p x)"
  by (auto simp: header_value_start_def length_start_def Let_def split: hstate.split)

lemma stops_value:
  assumes "p < length data" and "pstate (parser x) = s_header_value"
  shows "stops (length data) (header_value cb data p x)"
proof -
  obtain e hs ps where v: "value_loop data (lenient_http_headers (parser x)) p (header_state (parser x)) (parser x) = (e, hs, ps)"
    by (metis prod_cases3)
  show ?thesis using value_loop_keeps [OF v less_imp_le [OF assms(1)] assms(2)] assms(1)
    by (auto simp: header_value_def v Let_def value_callback_def split: value_end.split)
qed

lemma stops_state_case:
  assumes g: "good p x" and p: "p < length data" and l: "length data < 2 ^ 64"
  shows "stops (length data) (state_case cb wild data ch p x)"
proof -
  have "stops (length data) (body_identity cb data ch p x)" if "pstate (parser x) = s_body_identity"
    using read_bounds [OF g _ p l] that by (auto simp: body_identity_def Let_def body_callback_def)
  then show ?thesis
    using p stops_field [OF p, of ch x] stops_value [OF p, of x] stops_start [OF p, of ch x] unfolding state_case_def
    by (cases "pstate (parser x)")
      (auto simp: Let_def start_req_def req_method_def req_spaces_before_url_def req_schema_def req_url_def url_char_def
        req_http_start_def expect_def expect_lf_def req_http_major_def req_http_dot_def req_http_minor_def req_http_end_def
        header_field_start_def header_value_discard_ws_def header_value_discard_lws_def header_value_lws_def
        headers_almost_done_def headers_done_def body_identity_eof_def chunk_size_start_def chunk_size_def chunk_parameters_def
        chunk_size_almost_done_def chunk_data_def chunk_data_almost_done_def chunk_data_done_def url_callback_def value_callback_def
        body_callback_def split: option.splits)
qed

lemma data_callback_returns_at:
  "(\<And>x. \<exists>y. k x = Return m y) \<Longrightarrow> \<exists>y. data_callback cb data mark unmark ev to m k x = Return m y"
  by (auto simp: data_callback_def notify_def Let_def split: option.split)

lemma finish_data_stop: "finish_data cb data x = Return m y \<Longrightarrow> m = length data"
proof -
  have "\<exists>y. finish_data cb data x = Return (length data) y"
    unfolding finish_data_def field_callback_def value_callback_def url_callback_def body_callback_def Let_def
    by (intro data_callback_returns_at) blast
  then show "finish_data cb data x = Return m y \<Longrightarrow> m = length data" by auto
qed

lemma run_stops:
  assumes "run cb wild data s = Some r" and l: "length data < 2 ^ 64"
  shows "s = Inr (ch, p, x) \<Longrightarrow> good p x \<Longrightarrow> p < length data \<Longrightarrow>
    fst r \<le> length data \<and> (perrno (parser (snd r)) = CHPE_OK \<longrightarrow>
      counts (parser (snd r)) \<and> (fst r = length data \<or> upgrade (parser (snd r))))"
  using assms(1)
proof (induction arbitrary: ch p x rule: run_induct)
  case (step s r)
  then have s: "s = (ch, p, x)" by simp
  note keep = keeps_state_case [OF step.prems(2,3) l, of wild ch] and stop = stops_state_case [OF step.prems(2,3) l, of wild ch]
  show ?case
  proof (cases "state_case cb wild data ch p x")
    case (Break q z)
    have q: "p \<le> q" "q < length data" "good (Suc q) z" using keep Break by simp_all
    have run: "run cb wild data (loop_head cb data (Suc q) z) = Some r" using step(1) Break by (simp add: s loop_step_def)
    show ?thesis
    proof (cases "Suc q < length data \<and> \<not> overflows z")
      case True
      then have "loop_step cb wild data s = Inr (data ! Suc q, Suc q, counted z)" using Break by (simp add: s loop_step_def loop_head_char)
      from step.IH [OF this] show ?thesis using True q by (simp add: good_counted)
    next
      case False
      show ?thesis
      proof (cases "Suc q < length data")
        case True
        then have "r = (Suc q, at_error (set_errno CHPE_HEADER_OVERFLOW (counted z)))" using run False by (simp add: loop_head_char)
        then show ?thesis using q by simp
      next
        case False
        obtain m y where f: "finish_data cb data z = Return m y" using finish_data_returns by blast
        have r: "r = (m, y)" using run False f q by (simp add: loop_head_def split: if_splits)
        show ?thesis using finish_data_parser [OF f] finish_data_stop [OF f] q(3) by (auto simp: r good_def counts_def)
      qed
    qed
  next
    case (Reexecute ch' q z)
    have q: "p \<le> q" "q < length data" "good q z" using keep Reexecute by simp_all
    have "loop_step cb wild data s = Inr (ch', q, z)" using Reexecute by (simp add: s loop_step_def)
    from step.IH [OF this q(3,2)] show ?thesis .
  next
    case (Return m z)
    then have "r = (m, z)" using step(1) by (simp add: s loop_step_def)
    then show ?thesis using returns_only [OF Return] stop Return by auto
  next
    case (Goto_error m z)
    then have "r = (m, at_error z)" using step(1) by (simp add: s loop_step_def)
    then show ?thesis using stop Goto_error by simp
  qed
qed simp

lemma execute_stops:
  assumes ex: "http_parser_execute cb wild data s = Some (n, s')" and "data \<noteq> []" and "length data < 2 ^ 64" and "counts (fst s)"
  shows "n \<le> length data \<and> (perrno (fst s') = CHPE_OK \<longrightarrow> counts (fst s') \<and> (n = length data \<or> upgrade (fst s')))"
proof (cases "perrno (fst s) = CHPE_OK")
  case True
  define x where "x = start_exec s"
  obtain y where y: "run cb wild data (loop_head cb data 0 x) = Some (n, y)" "s' = (parser y, owner y)"
    using ex True assms(2) by (auto simp: http_parser_execute_def x_def)
  have g: "good 0 (counted x)" using start_good [of s] True assms(4) by (simp add: good_counted x_def)
  show ?thesis
  proof (cases "overflows x")
    case True
    then show ?thesis using y assms(2) by (auto simp: loop_head_char)
  next
    case False
    then have "run cb wild data (Inr (data ! 0, 0, counted x)) = Some (n, y)" using y(1) assms(2) by (simp add: loop_head_char)
    from run_stops [OF this assms(3) refl g] show ?thesis using assms(2) y(2) by simp
  qed
next
  case False
  then show ?thesis using ex by (auto simp: http_parser_execute_def)
qed

end

end
