(* ===== verification/Http_Connection.thy ===== *)
theory Http_Connection
  imports Http_Cut App_Routes Query_String Crow_Util
begin

text \<open>
  src/src/crowlib/crow/parser.h, the owner of the request parser, and http_connection.h, which reads
  from a socket and answers. The connection's handler (the application) is given by the router and by
  what running a route's handler does to the response and to the application's state \<open>'s\<close>. The socket is
  taken to stay open until the program closes or gives it away, and to accept what is written to it
  till then; timers and logs are left out. A string that has been moved from is empty, as in the library
  the program is built with.
\<close>

section \<open>Requests\<close>

record http_req =
  r_method :: HTTPMethod
  raw_url :: string
  r_url :: string
  url_params :: query_string
  r_headers :: "(string \<times> string) list"
  r_body :: string
  http_ver :: "byte \<times> byte"
  keep_alive :: bool
  close_connection :: bool
  r_upgrade :: bool

text \<open>\<open>request()\<close>; the last four members have no initial value in the code and are set with the headers.\<close>

definition new_req :: http_req where
  "new_req = \<lparr>r_method = GET, raw_url = [], r_url = [], url_params = query_string_of [] True, r_headers = [], r_body = [],
     http_ver = (0, 0), keep_alive = False, close_connection = False, r_upgrade = False\<rparr>"

definition has_header :: "string \<Rightarrow> (string \<times> string) list \<Rightarrow> bool" where
  "has_header k hs = list_ex (\<lambda>(k', _). string_equals k' k False) hs"

text \<open>
  The map of headers is an unordered one: which of several values of a name \<open>find\<close> yields is up to the
  library, the parameter \<open>pick\<close>.
\<close>

definition get_header_value :: "(string list \<Rightarrow> string) \<Rightarrow> string \<Rightarrow> (string \<times> string) list \<Rightarrow> string" where
  "get_header_value pick k hs =
     (if has_header k hs then pick (map snd (filter (\<lambda>(k', _). string_equals k' k False) hs)) else [])"

definition check_version :: "byte \<Rightarrow> byte \<Rightarrow> http_req \<Rightarrow> bool" where
  "check_version major minor r \<longleftrightarrow> http_ver r = (major, minor)"

section \<open>The owner of the parser\<close>

record 'c http_reader =
  req :: http_req
  header_building_state :: nat
  message_complete :: bool
  header_field_buf :: string
  header_value_buf :: string
  conn :: 'c

type_synonym 'c reading = "http_parser \<times> 'c http_reader"

record 'c req_handler =
  handle_url_f :: "'c reading \<Rightarrow> 'c reading"
  handle_header_f :: "'c reading \<Rightarrow> 'c reading"
  handle_f :: "'c reading \<Rightarrow> 'c reading"

definition on_method :: "'c reading \<Rightarrow> 'c reading" where
  "on_method s = (let (ps, h) = s in (ps, h\<lparr>req := (req h)\<lparr>r_method := pmethod ps\<rparr>\<rparr>))"

definition url_of_raw :: "u64 \<Rightarrow> string \<Rightarrow> string" where
  "url_of_raw q raw = (if q \<noteq> 0 then take (unat q) raw else raw)"

definition on_url :: "'c req_handler \<Rightarrow> string \<Rightarrow> 'c reading \<Rightarrow> 'c reading" where
  "on_url H s st =
     (let (ps, h) = st; raw = raw_url (req h) @ s
      in handle_url_f H (ps, h\<lparr>req := (req h)\<lparr>raw_url := raw, url_params := query_string_of raw True,
           r_url := url_of_raw (qs_point ps) raw\<rparr>\<rparr>))"

text \<open>\<open>headers.emplace(std::move(header_field), std::move(header_value))\<close>.\<close>

definition emplace_header :: "'c http_reader \<Rightarrow> 'c http_reader" where
  "emplace_header h =
     h\<lparr>req := (req h)\<lparr>r_headers := r_headers (req h) @ [(header_field_buf h, header_value_buf h)]\<rparr>,
       header_field_buf := [], header_value_buf := []\<rparr>"

definition on_header_field :: "string \<Rightarrow> 'c http_reader \<Rightarrow> 'c http_reader" where
  "on_header_field s h =
     (if header_building_state h = 0
      then let h = (if header_value_buf h \<noteq> [] then emplace_header h else h)
        in h\<lparr>header_field_buf := s, header_building_state := 1\<rparr>
      else if header_building_state h = 1 then h\<lparr>header_field_buf := header_field_buf h @ s\<rparr>
      else h)"

definition on_header_value :: "string \<Rightarrow> 'c http_reader \<Rightarrow> 'c http_reader" where
  "on_header_value s h =
     (if header_building_state h = 0 then h\<lparr>header_value_buf := header_value_buf h @ s\<rparr>
      else if header_building_state h = 1 then h\<lparr>header_building_state := 0, header_value_buf := s\<rparr>
      else h)"

definition set_connection_parameters :: "http_parser \<Rightarrow> http_req \<Rightarrow> http_req" where
  "set_connection_parameters ps r =
     (let v = (http_major ps, http_minor ps); fl = pflags ps
      in r\<lparr>http_ver := v,
           keep_alive := (if v = (1, 0) then F_CONNECTION_KEEP_ALIVE fl else v = (1, 1)),
           close_connection := (if v = (1, 0) then \<not> F_CONNECTION_KEEP_ALIVE fl else v = (1, 1) \<and> F_CONNECTION_CLOSE fl),
           r_upgrade := upgrade ps\<rparr>)"

definition on_headers_complete :: "'c req_handler \<Rightarrow> 'c reading \<Rightarrow> 'c reading" where
  "on_headers_complete H s =
     (let (ps, h) = s; h = (if header_field_buf h \<noteq> [] then emplace_header h else h)
      in handle_header_f H (ps, h\<lparr>req := set_connection_parameters ps (req h)\<rparr>))"

definition on_body :: "string \<Rightarrow> 'c http_reader \<Rightarrow> 'c http_reader" where
  "on_body s h = h\<lparr>req := (req h)\<lparr>r_body := r_body (req h) @ s\<rparr>\<rparr>"

definition on_message_complete :: "'c req_handler \<Rightarrow> 'c reading \<Rightarrow> 'c reading" where
  "on_message_complete H s = (let (ps, h) = s in handle_f H (ps, h\<lparr>message_complete := True\<rparr>))"

definition crow_callbacks :: "'c req_handler \<Rightarrow> 'c http_reader callbacks" where
  "crow_callbacks H ev s =
     (case ev of
        On_message_begin \<Rightarrow> s
      | On_method \<Rightarrow> on_method s
      | On_url u \<Rightarrow> on_url H u s
      | On_header_field f \<Rightarrow> apsnd (on_header_field f) s
      | On_header_value v \<Rightarrow> apsnd (on_header_value v) s
      | On_headers_complete \<Rightarrow> on_headers_complete H s
      | On_body b \<Rightarrow> apsnd (on_body b) s
      | On_message_complete \<Rightarrow> on_message_complete H s)"

text \<open>\<open>HTTPParser::clear\<close>.\<close>

definition clear_reader :: "'c reading \<Rightarrow> 'c reading" where
  "clear_reader s =
     (let (ps, h) = s
      in (ps\<lparr>qs_point := 0, pstate := s_start_req\<rparr>,
          h\<lparr>req := new_req, header_field_buf := [], header_value_buf := [], header_building_state := 0, message_complete := False\<rparr>))"

definition feed :: "'c req_handler \<Rightarrow> (nat \<Rightarrow> u64) \<Rightarrow> string \<Rightarrow> 'c reading \<Rightarrow> (bool \<times> 'c reading) option" where
  "feed H wild data s =
     (if message_complete (snd s) then Some (True, s)
      else map_option (\<lambda>(n, s'). (perrno (fst s') = CHPE_OK \<and> n = length data, s')) (http_parser_execute (crow_callbacks H) wild data s))"

text \<open>\<open>done()\<close>, a call of \<open>feed\<close> without data.\<close>

definition parser_done :: "'c req_handler \<Rightarrow> 'c reading \<Rightarrow> 'c reading" where
  "parser_done H s =
     (if message_complete (snd s) \<or> perrno (fst s) \<noteq> CHPE_OK then s else snd (execute_end (crow_callbacks H) s))"

section \<open>Connections\<close>

text \<open>
  What a connection is given: the router, what runs a route's handler and assigns its result, the name
  and the date the server sends, the size from which a body is sent in parts, and \<open>pick\<close>.
\<close>

record ('h, 'f, 's) conn_env =
  to_float :: "'f strtod"
  routes :: "'h router"
  run_route :: "'h \<Rightarrow> 'f routing_params \<Rightarrow> http_req \<Rightarrow> res_state \<Rightarrow> 's \<Rightarrow> (exn + res_state) \<times> 's"
  server_name :: string
  cached_date :: "'s \<Rightarrow> string"
  stream_threshold :: nat
  pick :: "string list \<Rightarrow> string"

text \<open>
  Its own state: \<open>sent\<close> is what it has written to the socket, \<open>upgraded\<close> the outcome of the router's
  \<open>handle_upgrade\<close>, \<open>is_open\<close> whether the adaptor's socket is open, and \<open>thrown\<close> an exception that has left
  the parser's callbacks, after which nothing more of the call is the program's.
\<close>

record ('h, 'f, 's) connection =
  routing_handle_result :: "16 word \<times> 'f routing_params \<times> HTTPMethod"
  res :: res_state
  conn_close :: bool
  continue_requested :: bool
  need_to_call_after_handlers :: bool
  need_to_start_read_after_complete :: bool
  add_keep_alive :: bool
  sent :: string
  is_open :: bool
  upgraded :: "('h, 'f) dispatched option"
  thrown :: "exn option"
  app :: 's

definition new_connection :: "'s \<Rightarrow> ('h, 'f, 's) connection" where
  "new_connection s =
     \<lparr>routing_handle_result = (0, no_params, GET), res = new_res, conn_close = False, continue_requested = False,
      need_to_call_after_handlers = False, need_to_start_read_after_complete = False, add_keep_alive = False, sent = [],
      is_open = True, upgraded = None, thrown = None, app = s\<rparr>"

type_synonym ('h, 'f, 's) conn_reading = "('h, 'f, 's) connection reading"

definition on_conn :: "(('h, 'f, 's) connection \<Rightarrow> ('h, 'f, 's) connection) \<Rightarrow> ('h, 'f, 's) conn_reading \<Rightarrow> ('h, 'f, 's) conn_reading" where
  "on_conn f = apsnd (\<lambda>h. h\<lparr>conn := f (conn h)\<rparr>)"

definition conn_of :: "('h, 'f, 's) conn_reading \<Rightarrow> ('h, 'f, 's) connection" where
  "conn_of s = conn (snd s)"

definition on_res :: "(res_state \<Rightarrow> res_state) \<Rightarrow> ('h, 'f, 's) conn_reading \<Rightarrow> ('h, 'f, 's) conn_reading" where
  "on_res f = on_conn (\<lambda>c. c\<lparr>res := f (res c)\<rparr>)"

section \<open>Responses on the wire\<close>

definition crlf :: string where
  "crlf = [cr, lf]"

definition status_reasons :: "(int \<times> string) list" where
  "status_reasons =
     [(100, ''100 Continue''), (101, ''101 Switching Protocols''), (200, ''200 OK''), (201, ''201 Created''), (202, ''202 Accepted''),
      (203, ''203 Non-Authoritative Information''), (204, ''204 No Content''), (205, ''205 Reset Content''), (206, ''206 Partial Content''),
      (300, ''300 Multiple Choices''), (301, ''301 Moved Permanently''), (302, ''302 Found''), (303, ''303 See Other''),
      (304, ''304 Not Modified''), (307, ''307 Temporary Redirect''), (308, ''308 Permanent Redirect''), (400, ''400 Bad Request''),
      (401, ''401 Unauthorized''), (403, ''403 Forbidden''), (404, ''404 Not Found''), (405, ''405 Method Not Allowed''),
      (406, ''406 Not Acceptable''), (407, ''407 Proxy Authentication Required''), (409, ''409 Conflict''), (410, ''410 Gone''),
      (413, ''413 Payload Too Large''), (415, ''415 Unsupported Media Type''), (416, ''416 Range Not Satisfiable''),
      (417, ''417 Expectation Failed''), (428, ''428 Precondition Required''), (429, ''429 Too Many Requests''),
      (451, ''451 Unavailable For Legal Reasons''), (500, ''500 Internal Server Error''), (501, ''501 Not Implemented''),
      (502, ''502 Bad Gateway''), (503, ''503 Service Unavailable''), (504, ''504 Gateway Timeout''), (506, ''506 Variant Also Negotiates'')]"

definition statusCodes :: "int \<Rightarrow> string option" where
  "statusCodes c = map_option (\<lambda>r. ''HTTP/1.1 '' @ r @ crlf) (map_of status_reasons c)"

definition header_line :: "string \<Rightarrow> string \<Rightarrow> string" where
  "header_line k v = k @ '': '' @ v @ crlf"

text \<open>The status and the body that are sent: an unknown status is 500, an error without a body has its reason.\<close>

definition sendable :: "response \<Rightarrow> response" where
  "sendable r =
     (let r = (if statusCodes (code r) = None then r\<lparr>code := 500\<rparr> else r)
      in if 400 \<le> code r \<and> body r = [] then r\<lparr>body := drop 9 (the (statusCodes (code r)))\<rparr> else r)"

text \<open>\<open>prepare_buffers\<close>; the headers in the order of the list.\<close>

definition prepare_buffers :: "string \<Rightarrow> string \<Rightarrow> bool \<Rightarrow> bool \<Rightarrow> response \<Rightarrow> string" where
  "prepare_buffers name date manual keep r =
     (let hs = headers r
      in the (statusCodes (code r)) @ concat (map (\<lambda>(k, v). header_line k v) hs)
         @ (if \<not> manual \<and> \<not> has_header ''content-length'' hs then header_line ''Content-Length'' (to_string (int (length (body r)))) else [])
         @ (if \<not> has_header ''server'' hs then header_line ''Server'' name else [])
         @ (if \<not> has_header ''date'' hs then header_line ''Date'' date else [])
         @ (if keep then header_line ''Connection'' ''Keep-Alive'' else [])
         @ crlf)"

definition res_clear :: "res_state \<Rightarrow> res_state" where
  "res_clear r = r\<lparr>resp := response_code 200, completed := False\<rparr>"

definition write_out :: "string \<Rightarrow> ('h, 'f, 's) conn_reading \<Rightarrow> ('h, 'f, 's) conn_reading" where
  "write_out s = on_conn (\<lambda>c. if is_open c then c\<lparr>sent := sent c @ s\<rparr> else c)"

definition do_write_sync :: "string \<Rightarrow> ('h, 'f, 's) conn_reading \<Rightarrow> ('h, 'f, 's) conn_reading" where
  "do_write_sync bs s =
     (let s = on_res res_clear (write_out bs s)
      in if continue_requested (conn_of s) then on_conn (\<lambda>c. c\<lparr>continue_requested := False\<rparr>) s else clear_reader s)"

text \<open>A large body goes out in parts of 16384 bytes, each by \<open>do_write_sync\<close>.\<close>

function write_parts :: "string \<Rightarrow> ('h, 'f, 's) conn_reading \<Rightarrow> ('h, 'f, 's) conn_reading" where
  "write_parts bs s = (if bs = [] then s else write_parts (drop 16384 bs) (do_write_sync (take 16384 bs) s))"
  by pat_completeness auto

termination write_parts
  by (relation "measure (\<lambda>(bs, _). length bs)") auto

declare write_parts.simps [simp del]

text \<open>\<open>adaptor_.close()\<close> where the connection is to be closed.\<close>

definition close_after_write :: "('h, 'f, 's) connection \<Rightarrow> ('h, 'f, 's) connection" where
  "close_after_write c = (if conn_close c then c\<lparr>is_open := False\<rparr> else c)"

definition do_write_general :: "nat \<Rightarrow> string \<Rightarrow> string \<Rightarrow> ('h, 'f, 's) conn_reading \<Rightarrow> ('h, 'f, 's) conn_reading" where
  "do_write_general threshold head b s =
     (if length b < threshold
      then on_conn (\<lambda>c. c\<lparr>need_to_start_read_after_complete := False\<rparr>) (do_write_sync (head @ b) s)
      else clear_reader (on_res (\<lambda>r. res_clear (res_end r)) (on_conn close_after_write (write_parts b (write_out head s)))))"

definition complete_request :: "('h, 'f, 's) conn_env \<Rightarrow> ('h, 'f, 's) conn_reading \<Rightarrow> ('h, 'f, 's) conn_reading" where
  "complete_request en s =
     (let s = on_conn (\<lambda>c. c\<lparr>need_to_call_after_handlers := False\<rparr>) s; c = conn_of s; r = sendable (resp (res c))
      in do_write_general (stream_threshold en)
           (prepare_buffers (server_name en) (cached_date en (app c)) (manual_length_header (res c)) (add_keep_alive c) r) (body r)
           (on_res (\<lambda>rs. rs\<lparr>resp := r\<rparr>) s))"

section \<open>Handlers\<close>

text \<open>\<open>Expect: 100-continue\<close>.\<close>

definition handle_header :: "('h, 'f, 's) conn_env \<Rightarrow> ('h, 'f, 's) conn_reading \<Rightarrow> ('h, 'f, 's) conn_reading" where
  "handle_header en s =
     (let r = req (snd s)
      in if check_version 1 1 r \<and> get_header_value (pick en) ''expect'' (r_headers r) = ''100-continue''
         then do_write_sync (''HTTP/1.1 100 Continue'' @ crlf @ crlf) (on_conn (\<lambda>c. c\<lparr>continue_requested := True\<rparr>) s)
         else s)"

text \<open>
  The end of a response that was completed in the router: it is sent, \<open>end\<close> resets its two flags, and
  the header for the next response is set.
\<close>

definition after_handler :: "('h, 'f, 's) conn_env \<Rightarrow> ('h, 'f, 's) conn_reading \<Rightarrow> ('h, 'f, 's) conn_reading" where
  "after_handler en s =
     (let s = on_res (\<lambda>r. r\<lparr>manual_length_header := False, skip_body := False\<rparr>) (complete_request en s)
      in if add_keep_alive (conn_of s)
         then on_res (\<lambda>r. r\<lparr>resp := set_header ''connection'' ''Keep-Alive'' (resp r)\<rparr>) s else s)"

definition dispatch :: "('h, 'f, 's) conn_env \<Rightarrow> http_req \<Rightarrow> ('h, 'f, 's) connection \<Rightarrow> (exn + res_state) \<times> 's" where
  "dispatch en r c =
     (case handle_found (routes en) (r_url r) (routing_handle_result c) (res c) of
        Answered rs \<Rightarrow> (Inr rs, app c)
      | Call h ps rs \<Rightarrow> run_route en h ps r rs (app c)
      | Throws x \<Rightarrow> (Inl x, app c))"

text \<open>
  An upgrade. Only a websocket's rule takes the socket over; any other answer is put into the response
  and not sent, as no handler is set that would send it.
\<close>

definition take_upgrade :: "('h, 'f) dispatched \<Rightarrow> ('h, 'f, 's) connection \<Rightarrow> ('h, 'f, 's) connection" where
  "take_upgrade d c =
     (let c = c\<lparr>conn_close := True, upgraded := Some d\<rparr>
      in case d of
           Answered rs \<Rightarrow> c\<lparr>res := rs\<rparr>
         | Call _ _ rs \<Rightarrow> c\<lparr>res := rs, is_open := False\<rparr>
         | Throws x \<Rightarrow> c\<lparr>thrown := Some x\<rparr>)"

definition handle :: "('h, 'f, 's) conn_env \<Rightarrow> ('h, 'f, 's) conn_reading \<Rightarrow> ('h, 'f, 's) conn_reading" where
  "handle en s =
     (let r = req (snd s);
          s = on_conn (\<lambda>c. c\<lparr>add_keep_alive := keep_alive r, conn_close := close_connection r\<rparr>) s;
          c = conn_of s
      in if check_version 1 1 r \<and> \<not> has_header ''host'' (r_headers r)
         then complete_request en (on_conn (\<lambda>c. c\<lparr>need_to_call_after_handlers := False\<rparr>) (on_res (res_assign (response_code 400)) s))
         else if check_version 1 1 r \<and> r_upgrade r
              \<and> take 2 (get_header_value (pick en) ''upgrade'' (r_headers r)) \<noteq> ''h2''
         then on_conn (take_upgrade (handle_upgrade (to_float en) (routes en) (r_method r) (r_url r) (res c))) s
         else if completed (res c) then complete_request en (on_conn (\<lambda>c. c\<lparr>need_to_call_after_handlers := False\<rparr>) s)
         else case dispatch en r c of
                (Inr rs, a) \<Rightarrow> after_handler en (on_conn (\<lambda>c. c\<lparr>need_to_call_after_handlers := True, res := rs, app := a\<rparr>) s)
              | (Inl x, a) \<Rightarrow> on_conn (\<lambda>c. c\<lparr>need_to_call_after_handlers := True, app := a, thrown := Some x\<rparr>) s)"

text \<open>
  \<open>handle_url\<close>. Where the router has answered, \<open>parser_.done()\<close> leaves an error in the parser: it is a
  call without data in a state of the request line, the only ones in which \<open>on_url\<close> is called
  (\<open>message_complete\<close> is not set then).
\<close>

definition done_in_url :: "('h, 'f, 's) conn_reading \<Rightarrow> ('h, 'f, 's) conn_reading" where
  "done_in_url = apfst (\<lambda>ps. ps\<lparr>perrno := CHPE_INVALID_EOF_STATE\<rparr>)"

definition handle_url :: "('h, 'f, 's) conn_env \<Rightarrow> ('h, 'f, 's) conn_reading \<Rightarrow> ('h, 'f, 's) conn_reading" where
  "handle_url en s =
     (let r = req (snd s); (found, rs) = handle_initial (to_float en) (routes en) (r_method r) (r_url r) (res (conn_of s));
          s = on_conn (\<lambda>c. c\<lparr>routing_handle_result := found, res := rs\<rparr>) s
      in if fst found = 0
         then complete_request en (on_conn (\<lambda>c. c\<lparr>need_to_call_after_handlers := True\<rparr>) (done_in_url s))
         else s)"

definition connection_handler :: "('h, 'f, 's) conn_env \<Rightarrow> ('h, 'f, 's) connection req_handler" where
  "connection_handler en = \<lparr>handle_url_f = handle_url en, handle_header_f = handle_header en, handle_f = handle en\<rparr>"

section \<open>Reading\<close>

text \<open>What becomes of the connection after a read: the next one, or one after the response, or none.\<close>

datatype after_read = Read_Next | Read_Later | Read_Stopped | Closed

definition do_read ::
    "('h, 'f, 's) conn_env \<Rightarrow> (nat \<Rightarrow> u64) \<Rightarrow> string \<Rightarrow> ('h, 'f, 's) conn_reading \<Rightarrow> (after_read \<times> ('h, 'f, 's) conn_reading) option" where
  "do_read en wild data s =
     map_option
       (\<lambda>(ret, s).
          if \<not> ret \<or> \<not> is_open (conn_of s) then (Closed, parser_done (connection_handler en) s)
          else if conn_close (conn_of s) then (Read_Stopped, parser_done (connection_handler en) s)
          else if \<not> need_to_call_after_handlers (conn_of s) then (Read_Next, s)
          else (Read_Later, on_conn (\<lambda>c. c\<lparr>need_to_start_read_after_complete := True\<rparr>) s))
       (feed (connection_handler en) wild data s)"

section \<open>The contract of the callbacks\<close>

lemma fst_conn [simp]: "fst (on_conn f s) = fst s" "fst (on_res g s) = fst s" "fst (write_out b s) = fst s"
  by (simp_all add: on_conn_def on_res_def write_out_def)

lemma fst_clear: "fst (clear_reader s) = (fst s)\<lparr>qs_point := 0, pstate := s_start_req\<rparr>"
  by (simp add: clear_reader_def split: prod.split)

lemma fst_write_sync:
  "fst (do_write_sync bs s) = (if continue_requested (conn_of s) then fst s else (fst s)\<lparr>qs_point := 0, pstate := s_start_req\<rparr>)"
proof -
  have "continue_requested (conn_of (on_res res_clear (write_out bs s))) = continue_requested (conn_of s)"
    by (simp add: conn_of_def on_res_def write_out_def on_conn_def)
  then show ?thesis by (simp add: do_write_sync_def Let_def fst_clear)
qed


lemma snd_nread [simp]: "conn_of (apfst f s) = conn_of s" 
  by (simp add: conn_of_def)

lemma nread_conn [simp]:
  "on_conn f (apfst g s) = apfst g (on_conn f s)" "on_res f' (apfst g s) = apfst g (on_res f' s)" "write_out b (apfst g s) = apfst g (write_out b s)"
  by (simp_all add: on_conn_def on_res_def write_out_def apfst_apsnd)

lemma nread_clear [simp]: "clear_reader (apfst (\<lambda>ps. ps\<lparr>nread := n\<rparr>) s) = apfst (\<lambda>ps. ps\<lparr>nread := n\<rparr>) (clear_reader s)"
  by (simp add: clear_reader_def split: prod.split)

lemma nread_sync [simp]: "do_write_sync bs (apfst (\<lambda>ps. ps\<lparr>nread := n\<rparr>) s) = apfst (\<lambda>ps. ps\<lparr>nread := n\<rparr>) (do_write_sync bs s)"
  by (simp add: do_write_sync_def Let_def)

lemma nread_parts [simp]: "write_parts bs (apfst (\<lambda>ps. ps\<lparr>nread := n\<rparr>) s) = apfst (\<lambda>ps. ps\<lparr>nread := n\<rparr>) (write_parts bs s)"
  by (induction bs s rule: write_parts.induct) (subst (1 2) write_parts.simps, simp)

lemma nread_complete [simp]: "complete_request en (apfst (\<lambda>ps. ps\<lparr>nread := n\<rparr>) s) = apfst (\<lambda>ps. ps\<lparr>nread := n\<rparr>) (complete_request en s)"
  by (simp add: complete_request_def do_write_general_def Let_def)

lemma nread_after [simp]: "after_handler en (apfst (\<lambda>ps. ps\<lparr>nread := n\<rparr>) s) = apfst (\<lambda>ps. ps\<lparr>nread := n\<rparr>) (after_handler en s)"
  by (simp add: after_handler_def Let_def)

lemma nread_handle [simp]: "handle en (apfst (\<lambda>ps. ps\<lparr>nread := n\<rparr>) s) = apfst (\<lambda>ps. ps\<lparr>nread := n\<rparr>) (handle en s)"
  by (simp add: handle_def Let_def split: prod.split sum.split)

lemma nread_header [simp]: "handle_header en (apfst (\<lambda>ps. ps\<lparr>nread := n\<rparr>) s) = apfst (\<lambda>ps. ps\<lparr>nread := n\<rparr>) (handle_header en s)"
  by (simp add: handle_header_def Let_def)

lemma nread_url [simp]: "handle_url en (apfst (\<lambda>ps. ps\<lparr>nread := n\<rparr>) s) = apfst (\<lambda>ps. ps\<lparr>nread := n\<rparr>) (handle_url en s)"
proof -
  have d: "done_in_url (apfst (\<lambda>ps. ps\<lparr>nread := n\<rparr>) s) = apfst (\<lambda>ps. ps\<lparr>nread := n\<rparr>) (done_in_url s)" for s :: "('a, 'b, 'c) conn_reading"
    by (cases s) (simp add: done_in_url_def)
  show ?thesis by (simp add: handle_url_def Let_def d split: prod.split)
qed

lemma fst_parts: "fst (write_parts bs s) = fst s \<or> fst (write_parts bs s) = (fst s)\<lparr>qs_point := 0, pstate := s_start_req\<rparr>"
proof (induction bs s rule: write_parts.induct)
  case (1 bs s)
  show ?case
  proof (cases "bs = []")
    case True
    then show ?thesis by (subst (1 2) write_parts.simps) simp
  next
    case False
    then show ?thesis using "1.IH" fst_write_sync [of "take 16384 bs" s] by (subst (1 2) write_parts.simps) (auto split: if_splits)
  qed
qed

lemma fst_complete: "fst (complete_request en s) = fst s \<or> fst (complete_request en s) = (fst s)\<lparr>qs_point := 0, pstate := s_start_req\<rparr>"
proof -
  have p: "(fst (write_parts b s))\<lparr>qs_point := 0, pstate := s_start_req\<rparr> = (fst s)\<lparr>qs_point := 0, pstate := s_start_req\<rparr>"
    for b and s :: "('a, 'b, 'c) conn_reading"
    using fst_parts [of b s] by auto
  show ?thesis by (auto simp: complete_request_def do_write_general_def Let_def fst_write_sync fst_clear p)
qed

lemma fst_handle: "fst (handle en s) = fst s \<or> fst (handle en s) = (fst s)\<lparr>qs_point := 0, pstate := s_start_req\<rparr>"
proof -
  have a: "fst (after_handler en s) = fst (complete_request en s)" for s :: "('a, 'b, 'c) conn_reading" by (simp add: after_handler_def Let_def)
  note c = fst_complete [of en]
  show ?thesis
    using c [of "on_conn _ (on_res _ (on_conn _ s))"] c [of "on_conn _ (on_conn _ s)"]
    by (auto simp: handle_def Let_def a split: prod.split sum.split)
qed

lemma fst_header: "fst (handle_header en s) = fst s"
  by (simp add: handle_header_def Let_def fst_write_sync conn_of_def on_conn_def)

lemma fst_url: "perrno (fst (handle_url en s)) = CHPE_OK \<Longrightarrow> fst (handle_url en s) = fst s"
proof -
  have d: "perrno (fst (done_in_url s)) \<noteq> CHPE_OK" for s :: "('a, 'b, 'c) conn_reading" by (simp add: done_in_url_def)
  have "perrno (fst (complete_request en s)) = perrno (fst s)" for s :: "('a, 'b, 'c) conn_reading"
    using fst_complete [of en s] by auto
  then show "perrno (fst (handle_url en s)) = CHPE_OK \<Longrightarrow> fst (handle_url en s) = fst s"
    using d by (auto simp: handle_url_def Let_def split: prod.splits if_splits)
qed

lemma nread_update: "cb = crow_callbacks (connection_handler en) \<Longrightarrow>
    cb ev (ps\<lparr>nread := n\<rparr>, h) = apfst (\<lambda>ps. ps\<lparr>nread := n\<rparr>) (cb ev (ps, h))"
proof -
  have url: "handle_url en (ps\<lparr>nread := n\<rparr>, h) = apfst (\<lambda>ps. ps\<lparr>nread := n\<rparr>) (handle_url en (ps, h))" for h
    using nread_url [of en n "(ps, h)"] by simp
  have hdr: "handle_header en (ps\<lparr>nread := n\<rparr>, h) = apfst (\<lambda>ps. ps\<lparr>nread := n\<rparr>) (handle_header en (ps, h))" for h
    using nread_header [of en n "(ps, h)"] by simp
  have msg: "handle en (ps\<lparr>nread := n\<rparr>, h) = apfst (\<lambda>ps. ps\<lparr>nread := n\<rparr>) (handle en (ps, h))" for h
    using nread_handle [of en n "(ps, h)"] by simp
  assume "cb = crow_callbacks (connection_handler en)"
  then show ?thesis
    by (cases ev)
      (simp_all add: crow_callbacks_def on_method_def on_url_def on_headers_complete_def on_message_complete_def connection_handler_def
        set_connection_parameters_def Let_def url hdr msg)
qed

interpretation conn_cb: collecting_callbacks "crow_callbacks (connection_handler en)" on_header_field on_header_value on_body for en
proof
  fix s t ps n ev and h :: "('a, 'b, 'c) connection http_reader"
  let ?cb = "crow_callbacks (connection_handler en)"
  show "?cb (On_header_field s) (ps, h) = (ps, on_header_field s h)" "?cb (On_header_value s) (ps, h) = (ps, on_header_value s h)"
    "?cb (On_body s) (ps, h) = (ps, on_body s h)"
    by (simp_all add: crow_callbacks_def)
  show "on_header_field t (on_header_field s h) = on_header_field (s @ t) h" "on_header_value t (on_header_value s h) = on_header_value (s @ t) h"
    "on_body t (on_body s h) = on_body (s @ t) h"
    by (simp_all add: on_header_field_def on_header_value_def on_body_def Let_def)
  show "fst (?cb On_message_begin (ps, h)) = ps" "fst (?cb On_method (ps, h)) = ps" "fst (?cb On_headers_complete (ps, h)) = ps"
    by (simp_all add: crow_callbacks_def on_method_def on_headers_complete_def connection_handler_def fst_header Let_def)
  show "perrno (fst (?cb (On_url s) (ps, h))) = CHPE_OK \<Longrightarrow> fst (?cb (On_url s) (ps, h)) = ps"
    using fst_url by (simp add: crow_callbacks_def on_url_def connection_handler_def Let_def) fastforce
  show "fst (?cb On_message_complete (ps, h)) = ps \<or> fst (?cb On_message_complete (ps, h)) = ps\<lparr>pstate := s_start_req, qs_point := 0\<rparr>"
    using fst_handle by (simp add: crow_callbacks_def on_message_complete_def connection_handler_def) fastforce
  show "?cb ev (ps\<lparr>nread := n\<rparr>, h) = apfst (\<lambda>ps. ps\<lparr>nread := n\<rparr>) (?cb ev (ps, h))"
    by (rule nread_update) (rule refl)
qed

end
