(* ===== verification/Spec2Isabelle.thy ===== *)
theory Spec2Isabelle
  imports Json_Roundtrip Ws_Handshake Query_String App_Routes Web_Rooms Ini Config Http_Connection
begin

text \<open>
  A model of HashHush, a server for end-to-end encrypted chat rooms, and the theorems that make it
  correct. The program is the C++ code under src/src: the server itself (main, webapi, db, room,
  captcha, util, config) and the parts of the libraries it carries that its requests run through
  (SHA-256, the INI reader, and of the Crow framework the JSON reader and writer, query strings, the
  router, WebSocket framing, SHA-1 and base64).

  How the parts interact. A request is parsed by Crow, which looks its path up in the router's tree
  (\<^theory_text>\<open>Route_Trie\<close>, \<^theory_text>\<open>Router\<close>) and runs the handler of its route (\<^theory_text>\<open>App_Routes\<close>, \<^theory_text>\<open>Web_Http\<close>). A
  room is created by who solves a proof of work (\<^theory_text>\<open>Captcha\<close>, over \<^theory_text>\<open>Sha256\<close> and \<^theory_text>\<open>Rng\<close>), filled with
  challenges by its owner, and kept in a SQLite database (\<^theory_text>\<open>Database\<close> over \<^theory_text>\<open>Sqlite\<close>). A peer opens a
  WebSocket with the room's id in the query (\<^theory_text>\<open>Query_String\<close>, \<^theory_text>\<open>Ws_Handshake\<close>, \<^theory_text>\<open>Sha1\<close>,
  \<^theory_text>\<open>Crow_Util\<close>); frames are cut out of the byte stream (\<^theory_text>\<open>Ws_Frame\<close>, \<^theory_text>\<open>Ws_Stream\<close>) and each message
  goes to the handler (\<^theory_text>\<open>Web_Socket\<close>), which parses it as JSON (\<^theory_text>\<open>Json_Read\<close>), joins the peer when it
  proves itself and relays to the room's members (\<^theory_text>\<open>Room\<close>) in JSON (\<^theory_text>\<open>Json_Write\<close>). A thread purges
  rooms that were idle too long. \<^theory_text>\<open>Server\<close> puts the handlers and the purge into one relation of steps.

  Theories, and the files they model (below src/src unless said otherwise):

  \<^item> \<^theory_text>\<open>Prelude\<close>: bytes, strings, exceptions as values (\<open>exn + 'a\<close>; \<open>Undefined\<close> marks a path on which C++
    gives the program no meaning), NUL-terminated buffers. \<^theory_text>\<open>Clib\<close>: what is used of the C and C++
    libraries: conversions to and from decimal text, narrowing of integers, character classes.
  \<^item> \<^theory_text>\<open>Sha256\<close> (sha256/sha256.cpp), \<^theory_text>\<open>Rng\<close> and \<^theory_text>\<open>Util\<close> (util.cpp; the generator is mt19937_64 of the
    standard library), \<^theory_text>\<open>Captcha\<close> (captcha.cpp).
  \<^item> \<^theory_text>\<open>Json_Read\<close>, \<^theory_text>\<open>Json_Write\<close>, \<^theory_text>\<open>Json_Roundtrip\<close> (crowlib/crow/json.h).
  \<^item> \<^theory_text>\<open>Ini\<close> (config/ini_backend/ini.c, config/inireader.cpp) and \<^theory_text>\<open>Config\<close> (config.cpp, config.h).
  \<^item> \<^theory_text>\<open>Sqlite\<close>: the tables of the schema and the meaning of the statements db.cpp prepares, as a
    specification of the SQL engine; \<^theory_text>\<open>Database\<close>: the methods of db.cpp over any such engine.
  \<^item> \<^theory_text>\<open>Room\<close> (room.cpp), \<^theory_text>\<open>Web_Http\<close> and \<^theory_text>\<open>Web_Rooms\<close> (the HTTP half of webapi.cpp),
    \<^theory_text>\<open>Web_Socket\<close> (its WebSocket half), \<^theory_text>\<open>Server\<close> (main.cpp and the whole).
  \<^item> \<^theory_text>\<open>Ws_Frame\<close>, \<^theory_text>\<open>Ws_Stream\<close>, \<^theory_text>\<open>Ws_Handshake\<close> (crowlib/crow/websocket.h), \<^theory_text>\<open>Sha1\<close> (TinySHA1.hpp),
    \<^theory_text>\<open>Crow_Util\<close> (utility.h), \<^theory_text>\<open>Query_String\<close> (query_string.h).
  \<^item> \<^theory_text>\<open>Route_Trie\<close>, \<^theory_text>\<open>Router\<close> (routing.h, common.h, app.h, http_response.h), \<^theory_text>\<open>App_Routes\<close> (the routes
    of webapi.cpp).

  Each theory gives the definitions first, named and ordered as in the code, one per operation: a
  record is the state of a class, an operation takes the state and returns it updated with its result,
  an early return or an exception is a branch of a sum or option type. Machine integers are words where
  their width matters. Loops are recursions, with a termination proof where the recursion is not
  structural, and a result in \<open>option\<close> where the code may not return.

  What is an argument of the model, because it is not in the repository or not determined by it: the
  SQL engine, with what SQLite documents of the statements as hypotheses (\<open>documented\<close>, \<open>reliable\<close>),
  met by the in-memory engine \<open>mem_run\<close>; the readings of the clock; the seed of the generator; the
  orders in which \<open>std::sort\<close>, the hash maps and the set of a room's connections are walked; the
  content of buffers the code does not initialise; what \<open>snprintf\<close> and \<open>strtod\<close> make of floating-point
  numbers; the embedded page and the version.

  What the groups of lemmas show:

  \<^item> Cryptography: SHA-256 and SHA-1 compute the functions of the standards however a message is cut
    into updates; the HMAC is that of RFC 2104; a proof of work is accepted exactly when its token is
    authentic, in time, hard enough and fresh, and a challenge is accepted once.
  \<^item> Data formats: what the JSON writer writes, the reader reads back; loaded strings can be read without
    leaving their buffer; object lookup agrees with the members under any sort that \<open>std::sort\<close>
    may do; base64 and the INI reader invert their writers; a parameter of a URL is found whatever
    escapes it is written with.
  \<^item> Storage: every method keeps the integrity of the tables; a pool of challenges is stored completely or
    not at all and handed out in order, each once; deleting a room leaves nothing of it.
  \<^item> Rooms and peers: broadcasts reach exactly the joined peers; a peer is joined only by a token of
    the room or the exact answer to its challenge, of which it has one attempt; before that it causes no
    frame to anybody else; the answer to a hello has one form, whether the room exists or not.
  \<^item> The server: in every run the tables keep their integrity, the caches their bound, and whoever is
    joined has proved it earlier in the run; a purge removes exactly the rooms idle too long.
  \<^item> The wire: whatever way the network cuts a client's frames, the message handler is called with the
    messages sent; frames go out whole and in order; a close is answered; the handshake answers with
    the hash of the key.
  \<^item> Routing: the tree finds the lowest matching rule; the router answers every method and path as the
    table of the program's routes says; a request is one step of the server or none.

  Interfaces are locales: \<^theory_text>\<open>sqlite_engine\<close> and \<^theory_text>\<open>reliable_engine\<close> for the engine the database relies on,
  \<^theory_text>\<open>one_time_pool\<close> for the store of challenges, \<^theory_text>\<open>message_ring\<close> for a room's recent messages and
  \<^theory_text>\<open>member_sort\<close> for the sort of the JSON reader; each is interpreted on the model's own definitions.

  Bounds and fuel. \<open>find_pairs\<close> of \<^theory_text>\<open>Query_String\<close> stops at the 256 slots of the code's array;
  \<open>nth_values\<close> and \<open>nth_entries\<close> stop at one more than the number of pairs, after which the code's lookups
  find nothing. The splitting of a text by a separator and the registration of a path are partial:
  they are shown to return exactly where they do. Rule indices are 16-bit words, as in the code; the
  theorems on the router ask for fewer than 65535 rules.

  Not modelled: sockets, threads and timers of Crow's server and connection classes; blueprints,
  catchall rules, middleware, templates, multipart bodies, static files, logging, signals and help
  texts, which the program does not use or which are pure output; the mutexes, which make each
  database, room or captcha call one step, so that a step of the server is a whole handler.
\<close>

end
